(* ===== verification/Prelude.thy ===== *)
theory Prelude
  imports Main "HOL-Library.Word" "HOL-Library.Code_Target_Nat"
begin

text \<open>
  Shared vocabulary of the development: the machine types of the Go sources, big-endian byte
  strings, the \<open>error + value\<close> results of fallible Go functions, and the generic facts on lists,
  maps and words that the component theories use.

  \<^item> \<open>byte\<close>, \<open>u64\<close>, \<open>Hash\<close> and \<open>Address\<close> are Go's \<^verbatim>\<open>byte\<close>, \<^verbatim>\<open>uint64\<close>, \<^verbatim>\<open>common.Hash\<close> ([32]byte) and
    \<^verbatim>\<open>common.Address\<close> ([20]byte); the last two are words of 256 and 160 bits whose big-endian bytes are
    the array, so that \<open>Hash.Big()\<close> is \<open>unat\<close> and comparing the integers is \<open>(<)\<close> on the words;
  \<^item> \<open>be_val\<close>, \<open>be_bytes\<close> and \<open>be_fixed\<close> are \<^verbatim>\<open>big.Int.SetBytes\<close>, \<^verbatim>\<open>big.Int.Bytes\<close> and the fixed-width
    big-endian layout of \<^verbatim>\<open>encoding/binary\<close>;
  \<^item> a Go function that returns \<open>(value, error)\<close> returns \<open>Inr value\<close> or \<open>Inl error\<close> here.
\<close>

type_synonym byte = "8 word"
type_synonym u64 = "64 word"
type_synonym Hash = "256 word"
type_synonym Address = "160 word"

named_theorems bytes_simps \<open>facts on big-endian byte strings\<close>

subsection \<open>Results\<close>

primrec result_bind :: "'e + 'a \<Rightarrow> ('a \<Rightarrow> 'e + 'b) \<Rightarrow> 'e + 'b" where
  "result_bind (Inl e) f = Inl e"
| "result_bind (Inr x) f = f x"

lemma result_bind_Inr [simp]: "result_bind r f = Inr y \<longleftrightarrow> (\<exists>x. r = Inr x \<and> f x = Inr y)"
  by (cases r) auto

lemma result_bind_Inl: "result_bind r f = Inl e \<longleftrightarrow> r = Inl e \<or> (\<exists>x. r = Inr x \<and> f x = Inl e)"
  by (cases r) auto

lemma result_bind_cong [fundef_cong]:
  "r = r' \<Longrightarrow> (\<And>x. r' = Inr x \<Longrightarrow> f x = f' x) \<Longrightarrow> result_bind r f = result_bind r' f'"
  by (cases r) auto

subsection \<open>Big-endian byte strings\<close>

definition be_val :: "byte list \<Rightarrow> nat" where
  "be_val bs = foldl (\<lambda>a b. a * 256 + unat b) 0 bs"

fun be_bytes :: "nat \<Rightarrow> byte list" where
  "be_bytes n = (if n = 0 then [] else be_bytes (n div 256) @ [word_of_nat n])"

declare be_bytes.simps [simp del]

primrec be_fixed :: "nat \<Rightarrow> nat \<Rightarrow> byte list" where
  "be_fixed 0 n = []"
| "be_fixed (Suc k) n = be_fixed k (n div 256) @ [word_of_nat n]"

lemma unat_byte_less [simp]: "unat (b :: byte) < 256"
  using unsigned_less [where ?'a = nat, of b] by simp

lemma be_val_Nil [simp]: "be_val [] = 0"
  by (simp add: be_val_def)

lemma be_val_snoc [simp]: "be_val (bs @ [b]) = be_val bs * 256 + unat b"
  by (simp add: be_val_def)

lemma be_val_append: "be_val (xs @ ys) = be_val xs * 256 ^ length ys + be_val ys"
proof (induction ys rule: rev_induct)
  case (snoc y ys)
  have "be_val (xs @ ys @ [y]) = be_val ((xs @ ys) @ [y])" by simp
  then show ?case by (simp del: append_assoc add: snoc algebra_simps)
qed simp

lemma be_val_Cons: "be_val (x # xs) = unat x * 256 ^ length xs + be_val xs"
  using be_val_append [of "[x]" xs] be_val_snoc [of "[]" x] by simp

lemma be_val_single [simp]: "be_val [x] = unat x"
  by (simp add: be_val_Cons)

lemma be_val_less: "be_val bs < 256 ^ length bs"
proof (induction bs rule: rev_induct)
  case (snoc b bs)
  have "be_val bs + 1 \<le> 256 ^ length bs" using snoc by simp
  then have "(be_val bs + 1) * 256 \<le> 256 ^ length bs * 256" by (rule mult_le_mono1)
  moreover have "be_val (bs @ [b]) < (be_val bs + 1) * 256"
    using unat_byte_less [of b] by (simp del: unat_byte_less)
  ultimately have "be_val (bs @ [b]) < 256 ^ length bs * 256" by (rule less_le_trans [rotated])
  then show ?case by (simp add: mult.commute)
qed simp

lemma unat_word_of_nat_byte: "unat (word_of_nat n :: byte) = n mod 256"
  by (simp add: unat_of_nat)

lemma word_of_nat_snoc: "word_of_nat (k * 256 + unat b) = (b :: byte)"
  by (simp only: word_unat_eq_iff unat_word_of_nat_byte mod_mult_self3 mod_less unat_byte_less)

lemma be_bytes_0 [simp]: "be_bytes 0 = []"
  by (simp add: be_bytes.simps)

lemma be_val_be_bytes [simp]: "be_val (be_bytes n) = n"
proof (induction n rule: be_bytes.induct)
  case (1 n)
  show ?case
  proof (cases "n = 0")
    case False
    with 1 have "be_val (be_bytes (n div 256)) = n div 256" by simp
    with False show ?thesis
      by (subst be_bytes.simps) (simp add: unat_word_of_nat_byte)
  qed simp
qed

lemma be_bytes_eq_Nil [simp]: "be_bytes n = [] \<longleftrightarrow> n = 0"
  by (subst be_bytes.simps) simp

lemma be_bytes_inject [simp]: "be_bytes m = be_bytes n \<longleftrightarrow> m = n"
  by (metis be_val_be_bytes)

lemma hd_be_bytes_nonzero: "n \<noteq> 0 \<Longrightarrow> hd (be_bytes n) \<noteq> 0"
proof (induction n rule: be_bytes.induct)
  case (1 n)
  show ?case
  proof (cases "n div 256 = 0")
    case True
    with "1.prems" have "n < 256" "0 < n" by auto
    then have "unat (word_of_nat n :: byte) = n" by (simp add: unat_word_of_nat_byte)
    with \<open>0 < n\<close> have "(word_of_nat n :: byte) \<noteq> 0" by auto
    with True "1.prems" show ?thesis by (subst be_bytes.simps) simp
  next
    case False
    with "1.IH" "1.prems" have "hd (be_bytes (n div 256)) \<noteq> 0" by blast
    moreover from False have "be_bytes (n div 256) \<noteq> []" by simp
    ultimately show ?thesis using "1.prems" by (subst be_bytes.simps) simp
  qed
qed

lemma be_bytes_be_val: "bs = [] \<or> hd bs \<noteq> 0 \<Longrightarrow> be_bytes (be_val bs) = bs"
proof (induction bs rule: rev_induct)
  case (snoc b bs)
  show ?case
  proof (cases "bs = []")
    case True
    with snoc.prems have "b \<noteq> 0" by simp
    then have "unat b \<noteq> 0" using unat_eq_zero by blast
    then have "be_bytes (unat b) = [b]" by (subst be_bytes.simps) (simp add: div_eq_0_iff)
    with True show ?thesis by simp
  next
    case False
    with snoc have IH: "be_bytes (be_val bs) = bs" by simp
    with False have "be_val bs \<noteq> 0" using be_bytes_0 by metis
    have "(be_val bs * 256 + unat b) div 256 = be_val bs" by simp
    with IH \<open>be_val bs \<noteq> 0\<close> show ?thesis
      by (subst be_bytes.simps) (simp only: be_val_snoc word_of_nat_snoc, simp)
  qed
qed simp

lemma length_be_fixed [simp]: "length (be_fixed k n) = k"
  by (induction k arbitrary: n) auto

lemma be_val_be_fixed [simp]: "be_val (be_fixed k n) = n mod 256 ^ k"
proof (induction k arbitrary: n)
  case (Suc k)
  then show ?case by (simp add: unat_word_of_nat_byte mod_mult2_eq)
qed simp

lemma be_fixed_be_val [simp]: "be_fixed (length bs) (be_val bs) = bs"
proof (induction bs rule: rev_induct)
  case (snoc b bs)
  then show ?case by (simp only: length_append_singleton be_fixed.simps be_val_snoc word_of_nat_snoc) simp
qed simp

lemma be_val_inject_length: "length xs = length ys \<Longrightarrow> be_val xs = be_val ys \<Longrightarrow> xs = ys"
  by (metis be_fixed_be_val)

lemma length_be_bytes_le: "n < 256 ^ k \<Longrightarrow> length (be_bytes n) \<le> k"
proof (induction k arbitrary: n)
  case (Suc k)
  then have "n div 256 < 256 ^ k" by (simp add: less_mult_imp_div_less mult.commute)
  then have "length (be_bytes (n div 256)) \<le> k" by (rule Suc.IH)
  then show ?case by (subst be_bytes.simps) simp
qed simp

lemma length_be_bytes_bound: "n < 256 ^ length (be_bytes n)"
  by (metis be_val_be_bytes be_val_less)

subsection \<open>Hashes and addresses\<close>

text \<open>
  \<^verbatim>\<open>Hash.SetBytes\<close> crops from the left and right-aligns; the 32 bytes of the result are the
  big-endian bytes of the word.
\<close>

definition BytesToHash :: "byte list \<Rightarrow> Hash" where
  "BytesToHash b =
     (let b' = (if length b > 32 then drop (length b - 32) b else b)
      in word_of_nat (be_val b'))"

definition hash_bytes :: "Hash \<Rightarrow> byte list" where
  "hash_bytes h = be_fixed 32 (unat h)"

definition address_bytes :: "Address \<Rightarrow> byte list" where
  "address_bytes a = be_fixed 20 (unat a)"

lemma be_val_drop_mod: "n \<le> length b \<Longrightarrow> be_val (drop (length b - n) b) = be_val b mod 256 ^ n"
proof -
  assume n: "n \<le> length b"
  let ?xs = "take (length b - n) b" and ?ys = "drop (length b - n) b"
  have len: "length ?ys = n" using n by simp
  have "be_val b = be_val ?xs * 256 ^ n + be_val ?ys"
    using be_val_append [of ?xs ?ys] len by simp
  moreover have "be_val ?ys < 256 ^ n" using be_val_less [of ?ys] len by simp
  ultimately show ?thesis by simp
qed

lemma BytesToHash_eq: "BytesToHash b = word_of_nat (be_val b)"
proof (cases "length b > 32")
  case True
  then have "be_val (drop (length b - 32) b) = be_val b mod 256 ^ 32"
    by (intro be_val_drop_mod) simp
  moreover have "(256 :: nat) ^ 32 = 2 ^ 256" by simp
  ultimately have "be_val (drop (length b - 32) b) = take_bit 256 (be_val b)"
    by (simp only: take_bit_eq_mod)
  with True show ?thesis
    by (simp add: BytesToHash_def Let_def word_of_nat_eq_iff)
qed (simp add: BytesToHash_def)

lemma length_hash_bytes [simp]: "length (hash_bytes h) = 32"
  by (simp add: hash_bytes_def)

lemma be_val_hash_bytes [simp]: "be_val (hash_bytes h) = unat h"
proof -
  have "unat h < 2 ^ 256" using unsigned_less [where ?'a = nat, of h] by simp
  also have "(2 :: nat) ^ 256 = 256 ^ 32" by simp
  finally show ?thesis unfolding hash_bytes_def be_val_be_fixed by (rule mod_less)
qed

lemma BytesToHash_hash_bytes [simp]: "BytesToHash (hash_bytes h) = h"
  by (simp add: BytesToHash_eq)

lemma hash_bytes_inject [simp]: "hash_bytes h = hash_bytes h' \<longleftrightarrow> h = h'"
  by (metis BytesToHash_hash_bytes)

lemma length_address_bytes [simp]: "length (address_bytes a) = 20"
  by (simp add: address_bytes_def)

lemma be_val_address_bytes [simp]: "be_val (address_bytes a) = unat a"
proof -
  have "unat a < 2 ^ 160" using unsigned_less [where ?'a = nat, of a] by simp
  also have "(2 :: nat) ^ 160 = 256 ^ 20" by simp
  finally show ?thesis unfolding address_bytes_def be_val_be_fixed by (rule mod_less)
qed

lemma address_bytes_inject [simp]: "address_bytes a = address_bytes b \<longleftrightarrow> a = b"
  by (metis be_val_address_bytes word_unat_eq_iff)

end
