(* ===== verification/RLP_Encode.thy ===== *)
theory RLP_Encode
  imports Prelude
begin

text \<open>
  The RLP encoder of \<^verbatim>\<open>src/rlp/encode.go\<close> and \<^verbatim>\<open>src/rlp/encbuffer.go\<close>.

  The encoder does not know the length of a list before its elements are written, so \<^verbatim>\<open>encBuffer\<close>
  collects the string data in \<open>str\<close> and the list headers, with the position at which each has to be
  inserted, in \<open>lheads\<close>; \<^verbatim>\<open>copyTo\<close> merges the two at the end.  The model keeps that representation
  (record \<open>encBuffer\<close>) and relates it to the recursive definition \<open>encode\<close> of the format:
  \<open>encode_buffer_correct\<close> shows that merging produces exactly the recursive encoding, of exactly
  \<^verbatim>\<open>size()\<close> bytes, so the output buffer that \<^verbatim>\<open>makeBytes\<close> allocates is filled exactly.

  The values that are encoded are those of an \<^verbatim>\<open>interface{}\<close>: byte strings and lists (\<open>item\<close>).
  Integers, hashes and addresses are encoded as byte strings; \<open>writeUint64_eq\<close> and
  \<open>writeBigInt_eq\<close> give the string that stands for an integer.
\<close>

subsection \<open>Headers\<close>

text \<open>\<^verbatim>\<open>putint\<close>: the bytes written to the beginning of \<open>b\<close>; the size it returns is their number.\<close>

definition putint :: "nat \<Rightarrow> byte list" where
  "putint i =
     (if i < 2 ^ 8 then [word_of_nat i]
      else if i < 2 ^ 16 then [word_of_nat (i div 2 ^ 8), word_of_nat i]
      else if i < 2 ^ 24 then
        [word_of_nat (i div 2 ^ 16), word_of_nat (i div 2 ^ 8), word_of_nat i]
      else if i < 2 ^ 32 then
        [word_of_nat (i div 2 ^ 24), word_of_nat (i div 2 ^ 16), word_of_nat (i div 2 ^ 8),
         word_of_nat i]
      else if i < 2 ^ 40 then
        [word_of_nat (i div 2 ^ 32), word_of_nat (i div 2 ^ 24), word_of_nat (i div 2 ^ 16),
         word_of_nat (i div 2 ^ 8), word_of_nat i]
      else if i < 2 ^ 48 then
        [word_of_nat (i div 2 ^ 40), word_of_nat (i div 2 ^ 32), word_of_nat (i div 2 ^ 24),
         word_of_nat (i div 2 ^ 16), word_of_nat (i div 2 ^ 8), word_of_nat i]
      else if i < 2 ^ 56 then
        [word_of_nat (i div 2 ^ 48), word_of_nat (i div 2 ^ 40), word_of_nat (i div 2 ^ 32),
         word_of_nat (i div 2 ^ 24), word_of_nat (i div 2 ^ 16), word_of_nat (i div 2 ^ 8),
         word_of_nat i]
      else
        [word_of_nat (i div 2 ^ 56), word_of_nat (i div 2 ^ 48), word_of_nat (i div 2 ^ 40),
         word_of_nat (i div 2 ^ 32), word_of_nat (i div 2 ^ 24), word_of_nat (i div 2 ^ 16),
         word_of_nat (i div 2 ^ 8), word_of_nat i])"

fun intsize :: "nat \<Rightarrow> nat" where
  "intsize i = (if i div 256 = 0 then 1 else Suc (intsize (i div 256)))"

declare intsize.simps [simp del]

definition headsize :: "nat \<Rightarrow> nat" where
  "headsize sz = (if sz < 56 then 1 else 1 + intsize sz)"

definition puthead :: "byte \<Rightarrow> byte \<Rightarrow> nat \<Rightarrow> byte list" where
  "puthead smalltag largetag sz =
     (if sz < 56 then [smalltag + word_of_nat sz]
      else (let p = putint sz in (largetag + word_of_nat (length p)) # p))"

definition ListSize :: "nat \<Rightarrow> nat" where
  "ListSize contentSize = headsize contentSize + contentSize"

subsection \<open>The encoder buffer\<close>

record listhead =
  offset :: nat
  lh_size :: nat

record encBuffer =
  str :: "byte list"
  lheads :: "listhead list"
  lhsize :: nat

definition enc_reset :: encBuffer where
  "enc_reset = \<lparr>str = [], lheads = [], lhsize = 0\<rparr>"

definition enc_size :: "encBuffer \<Rightarrow> nat" where
  "enc_size buf = length (str buf) + lhsize buf"

definition head_encode :: "listhead \<Rightarrow> byte list" where
  "head_encode head = puthead 0xC0 0xF7 (lh_size head)"

text \<open>
  \<^verbatim>\<open>copyTo\<close>: the bytes written to \<open>dst\<close>.  \<open>strpos\<close> is advanced by the number of bytes copied
  before the header, that is to the header's offset.
\<close>

fun copyTo_loop :: "byte list \<Rightarrow> listhead list \<Rightarrow> nat \<Rightarrow> byte list" where
  "copyTo_loop s [] strpos = drop strpos s"
| "copyTo_loop s (head # heads) strpos =
     (let piece = drop strpos (take (offset head) s); n = length piece
      in piece @ head_encode head @ copyTo_loop s heads (strpos + n))"

definition makeBytes :: "encBuffer \<Rightarrow> byte list" where
  "makeBytes w = copyTo_loop (str w) (lheads w) 0"

definition enc_write :: "byte list \<Rightarrow> encBuffer \<Rightarrow> encBuffer" where
  "enc_write b buf = buf\<lparr>str := str buf @ b\<rparr>"

definition writeBool :: "bool \<Rightarrow> encBuffer \<Rightarrow> encBuffer" where
  "writeBool b buf = enc_write (if b then [0x01] else [0x80]) buf"

definition encodeStringHeader :: "nat \<Rightarrow> encBuffer \<Rightarrow> encBuffer" where
  "encodeStringHeader sz buf =
     (if sz < 56 then enc_write [0x80 + word_of_nat sz] buf
      else (let p = putint sz in enc_write ((0xB7 + word_of_nat (length p)) # p) buf))"

definition writeUint64 :: "nat \<Rightarrow> encBuffer \<Rightarrow> encBuffer" where
  "writeUint64 i buf =
     (if i = 0 then enc_write [0x80] buf
      else if i < 128 then enc_write [word_of_nat i] buf
      else (let p = putint i in enc_write ((0x80 + word_of_nat (length p)) # p) buf))"

definition writeBytes :: "byte list \<Rightarrow> encBuffer \<Rightarrow> encBuffer" where
  "writeBytes b buf =
     (if length b = 1 \<and> hd b \<le> 0x7F then enc_write [hd b] buf
      else enc_write b (encodeStringHeader (length b) buf))"

fun BitLen :: "nat \<Rightarrow> nat" where
  "BitLen n = (if n = 0 then 0 else Suc (BitLen (n div 2)))"

declare BitLen.simps [simp del]

text \<open>
  \<^verbatim>\<open>writeBigInt\<close> on a non-negative integer.  The loop over \<^verbatim>\<open>i.Bits()\<close> fills the \<open>length\<close> bytes from
  the end with the bytes of the integer, least significant first.
\<close>

definition writeBigInt :: "nat \<Rightarrow> encBuffer \<Rightarrow> encBuffer" where
  "writeBigInt i w =
     (let bitlen = BitLen i in
      if bitlen \<le> 64 then writeUint64 i w
      else (let len = (bitlen + 7) div 8
            in enc_write (be_fixed len i) (encodeStringHeader len w)))"

text \<open>\<^verbatim>\<open>list\<close> returns the index of the new header, \<^verbatim>\<open>listEnd\<close> fixes its size.\<close>

definition enc_list :: "encBuffer \<Rightarrow> nat \<times> encBuffer" where
  "enc_list buf =
     (length (lheads buf),
      buf\<lparr>lheads := lheads buf @ [\<lparr>offset = length (str buf), lh_size = lhsize buf\<rparr>]\<rparr>)"

definition listEnd :: "nat \<Rightarrow> encBuffer \<Rightarrow> encBuffer" where
  "listEnd index buf =
     (let lh = lheads buf ! index;
          sz = enc_size buf - offset lh - lh_size lh
      in buf\<lparr>lheads := (lheads buf)[index := lh\<lparr>lh_size := sz\<rparr>],
             lhsize := (if sz < 56 then lhsize buf + 1
                        else lhsize buf + (1 + intsize sz))\<rparr>)"

datatype item = Str "byte list" | Lst "item list"

text \<open>
  The writer of an \<^verbatim>\<open>interface{}\<close> value: \<^verbatim>\<open>writeBytes\<close> for a string, and the slice writer
  (\<^verbatim>\<open>list\<close>, the elements, \<^verbatim>\<open>listEnd\<close>, or the single byte C0 for an empty list) for a list.
\<close>

fun enc_item :: "item \<Rightarrow> encBuffer \<Rightarrow> encBuffer" where
  "enc_item (Str b) w = writeBytes b w"
| "enc_item (Lst xs) w =
     (if length xs = 0 then enc_write [0xC0] w
      else (let (i, w1) = enc_list w in listEnd i (fold enc_item xs w1)))"

definition EncodeToBytes :: "item \<Rightarrow> byte list" where
  "EncodeToBytes x = makeBytes (enc_item x enc_reset)"

subsection \<open>The format, recursively\<close>

definition encode_bytes :: "byte list \<Rightarrow> byte list" where
  "encode_bytes b =
     (if length b = 1 \<and> hd b \<le> 0x7F then b else puthead 0x80 0xB7 (length b) @ b)"

fun encode :: "item \<Rightarrow> byte list" where
  "encode (Str b) = encode_bytes b"
| "encode (Lst xs) =
     (let payload = concat (map encode xs) in puthead 0xC0 0xF7 (length payload) @ payload)"

definition rlp_uint :: "nat \<Rightarrow> item" where
  "rlp_uint n = Str (be_bytes n)"

definition rlp_hash :: "Hash \<Rightarrow> item" where
  "rlp_hash h = Str (hash_bytes h)"

definition rlp_address :: "Address \<Rightarrow> item" where
  "rlp_address a = Str (address_bytes a)"

subsection \<open>Integers\<close>

lemma be_bytes_step: "0 < n \<Longrightarrow> be_bytes n = be_bytes (n div 256) @ [word_of_nat n]"
  by (subst be_bytes.simps) simp

lemma be_bytes_small: "0 < n \<Longrightarrow> n < 256 \<Longrightarrow> be_bytes n = [word_of_nat n]"
  by (simp add: be_bytes_step)

lemma putint_eq: "i < 2 ^ 64 \<Longrightarrow> putint i = (if i = 0 then [0] else be_bytes i)"
  by (simp add: putint_def be_bytes_step div_mult2_eq [symmetric] be_bytes_small)

lemma putint_nonempty [simp]: "putint i \<noteq> []"
  by (simp add: putint_def)

lemma length_putint: "1 \<le> length (putint i)" "length (putint i) \<le> 8"
  by (simp_all add: putint_def)

lemma intsize_eq: "intsize i = (if i = 0 then 1 else length (be_bytes i))"
proof (induction i rule: intsize.induct)
  case (1 i)
  show ?case
  proof (cases "i div 256 = 0")
    case True
    then show ?thesis by (subst intsize.simps) (auto simp: be_bytes_step)
  next
    case False
    then have "i \<noteq> 0" by (intro notI) simp
    with False 1 show ?thesis
      by (subst intsize.simps) (simp add: be_bytes_step [of i])
  qed
qed

lemma intsize_putint: "i < 2 ^ 64 \<Longrightarrow> intsize i = length (putint i)"
  by (simp add: intsize_eq putint_eq)

lemma length_puthead: "sz < 2 ^ 64 \<Longrightarrow> length (puthead s l sz) = headsize sz"
  by (simp add: puthead_def headsize_def Let_def intsize_putint)


lemma encodeStringHeader_eq: "encodeStringHeader sz buf = enc_write (puthead 0x80 0xB7 sz) buf"
  by (simp add: encodeStringHeader_def puthead_def Let_def)

lemma writeBytes_eq: "writeBytes b buf = enc_write (encode_bytes b) buf"
  by (cases b)
    (auto simp: writeBytes_def encode_bytes_def encodeStringHeader_eq enc_write_def)

lemma writeUint64_eq: "i < 2 ^ 64 \<Longrightarrow> writeUint64 i buf = writeBytes (be_bytes i) buf"
proof (cases "i < 128")
  case True
  then show ?thesis
    by (cases "i = 0")
      (auto simp: writeUint64_def writeBytes_eq encode_bytes_def be_bytes_small puthead_def
        word_le_nat_alt unat_word_of_nat_byte)
next
  case False
  assume i: "i < 2 ^ 64"
  with False have p: "putint i = be_bytes i" by (simp add: putint_eq)
  have len: "length (be_bytes i) \<le> 8" using length_putint(2) [of i] p by simp
  have "\<not> (length (be_bytes i) = 1 \<and> hd (be_bytes i) \<le> 0x7F)"
  proof
    assume one: "length (be_bytes i) = 1 \<and> hd (be_bytes i) \<le> 0x7F"
    then obtain b where b: "be_bytes i = [b]" by (auto simp: length_Suc_conv)
    then have "i = unat b" using be_val_be_bytes [of i] by simp
    moreover from one b have "unat b \<le> 127" by (simp add: word_le_nat_alt)
    ultimately show False using False by simp
  qed
  with False len show ?thesis
    by (simp add: writeUint64_def writeBytes_eq encode_bytes_def p Let_def enc_write_def puthead_def)
qed

lemma BitLen_bounds: "n < 2 ^ BitLen n" "0 < n \<Longrightarrow> 2 ^ (BitLen n - 1) \<le> n"
proof (induction n rule: BitLen.induct)
  case (1 n)
  { case 1
    show ?case
    proof (cases "n = 0")
      case False
      with "1.IH"(1) have "n div 2 < 2 ^ BitLen (n div 2)" by simp
      with False show ?thesis by (subst BitLen.simps) simp
    qed (simp add: BitLen.simps) }
  { case 2
    show ?case
    proof (cases "n div 2 = 0")
      case True
      with 2 show ?thesis by (subst BitLen.simps) (simp add: BitLen.simps)
    next
      case False
      with "1.IH"(2) 2 have le: "2 ^ (BitLen (n div 2) - 1) \<le> n div 2" by simp
      from False have "BitLen (n div 2) \<noteq> 0" by (subst BitLen.simps) simp
      then obtain k where k: "BitLen (n div 2) = Suc k" by (cases "BitLen (n div 2)") auto
      with 2 have "BitLen n - 1 = Suc k" by (subst BitLen.simps) simp
      with le k show ?thesis by (simp add: less_eq_div_iff_mult_less_eq mult.commute)
    qed }
qed

lemma be_fixed_length_be_bytes: "be_fixed (length (be_bytes n)) n = be_bytes n"
  using be_fixed_be_val [of "be_bytes n"] by simp

lemma length_be_bytes_BitLen: "length (be_bytes n) = (BitLen n + 7) div 8"
proof (cases "n = 0")
  case False
  let ?l = "length (be_bytes n)" and ?b = "BitLen n"
  have "n < 256 ^ ((?b + 7) div 8)"
  proof -
    have "n < 2 ^ ?b" by (rule BitLen_bounds)
    also have "\<dots> \<le> 2 ^ (8 * ((?b + 7) div 8))" by (rule power_increasing) auto
    finally show ?thesis by (simp add: power_mult)
  qed
  then have "?l \<le> (?b + 7) div 8" by (rule length_be_bytes_le)
  moreover have "?b \<le> 8 * ?l"
  proof -
    have "2 ^ (?b - 1) \<le> n" using BitLen_bounds(2) False by simp
    also have "n < 256 ^ ?l" by (rule length_be_bytes_bound)
    also have "(256 :: nat) ^ ?l = 2 ^ (8 * ?l)" by (simp add: power_mult)
    finally have "?b - 1 < 8 * ?l" by (simp only: power_strict_increasing_iff one_less_numeral_iff semiring_norm)
    then show ?thesis by simp
  qed
  ultimately show ?thesis by simp
qed (simp add: BitLen.simps)

lemma writeBigInt_eq: "writeBigInt i buf = writeBytes (be_bytes i) buf"
proof (cases "BitLen i \<le> 64")
  case True
  have "i < 2 ^ BitLen i" by (rule BitLen_bounds)
  also have "\<dots> \<le> 2 ^ 64" using True by (rule power_increasing) simp
  finally show ?thesis using True by (simp add: writeBigInt_def writeUint64_eq)
next
  case False
  have len: "length (be_bytes i) = (BitLen i + 7) div 8" by (rule length_be_bytes_BitLen)
  with False have "length (be_bytes i) \<noteq> 1" by simp
  then show ?thesis
    using False be_fixed_length_be_bytes [of i]
    by (simp add: writeBigInt_def writeBytes_def Let_def len)
qed

subsection \<open>Merging string data and headers\<close>

text \<open>
  \<open>rend p s hs\<close> is the merge of the string data \<open>s\<close>, which starts at absolute position \<open>p\<close>, with
  the headers \<open>hs\<close>; \<open>heads_in\<close> says that the headers are in order and inside the segment.
\<close>

fun rend :: "nat \<Rightarrow> byte list \<Rightarrow> listhead list \<Rightarrow> byte list" where
  "rend p s [] = s"
| "rend p s (h # hs) =
     take (offset h - p) s @ head_encode h @ rend (offset h) (drop (offset h - p) s) hs"

fun heads_in :: "nat \<Rightarrow> nat \<Rightarrow> listhead list \<Rightarrow> bool" where
  "heads_in p q [] \<longleftrightarrow> p \<le> q"
| "heads_in p q (h # hs) \<longleftrightarrow> p \<le> offset h \<and> heads_in (offset h) q hs"

lemma heads_in_le: "heads_in p q hs \<Longrightarrow> p \<le> q"
  by (induction hs arbitrary: p) (auto intro: order_trans)

lemma heads_in_append:
  "heads_in p q hs \<Longrightarrow> heads_in q r hs' \<Longrightarrow> heads_in p r (hs @ hs')"
proof (induction hs arbitrary: p)
  case Nil
  then show ?case by (cases hs') (auto intro: order_trans)
qed auto

lemma copyTo_loop_rend:
  "heads_in p (length s) hs \<Longrightarrow> copyTo_loop s hs p = rend p (drop p s) hs"
proof (induction hs arbitrary: p)
  case (Cons h hs)
  then have le: "p \<le> offset h" "offset h \<le> length s" and hs: "heads_in (offset h) (length s) hs"
    by (auto dest: heads_in_le)
  then have "p + length (drop p (take (offset h) s)) = offset h" by simp
  with Cons.IH [OF hs] le show ?case
    by (simp add: Let_def drop_take del: length_drop length_take)
qed simp

lemma rend_append:
  "heads_in p (p + length s) hs \<Longrightarrow> heads_in (p + length s) q hs' \<Longrightarrow>
   rend p (s @ s') (hs @ hs') = rend p s hs @ rend (p + length s) s' hs'"
proof (induction hs arbitrary: p s)
  case Nil
  show ?case
  proof (cases hs')
    case (Cons a list)
    with Nil have "p + length s \<le> offset a" by simp
    then have "length s \<le> offset a - p" by linarith
    with Cons show ?thesis by simp
  qed simp
next
  case (Cons h hs)
  from Cons.prems have le: "p \<le> offset h" and hs: "heads_in (offset h) (p + length s) hs" by auto
  from hs have le': "offset h \<le> p + length s" by (rule heads_in_le)
  let ?d = "drop (offset h - p) s"
  from le le' have q: "offset h + length ?d = p + length s" by simp
  with hs Cons.prems(2) have "rend (offset h) (?d @ s') (hs @ hs') = rend (offset h) ?d hs @ rend (p + length s) s' hs'"
    using Cons.IH [of "offset h" ?d] by (simp add: add.commute)
  with le le' show ?case by simp
qed

text \<open>\<open>extends w w' out\<close>: the calls between \<open>w\<close> and \<open>w'\<close> append exactly \<open>out\<close> to the output.\<close>

definition extends :: "encBuffer \<Rightarrow> encBuffer \<Rightarrow> byte list \<Rightarrow> bool" where
  "extends w w' out \<longleftrightarrow> (\<exists>s hs k.
     w' = \<lparr>str = str w @ s, lheads = lheads w @ hs, lhsize = lhsize w + k\<rparr> \<and>
     heads_in (length (str w)) (length (str w) + length s) hs \<and>
     rend (length (str w)) s hs = out \<and> length s + k = length out)"

lemma extends_refl: "extends w w []"
  unfolding extends_def by (rule exI [of _ "[]"], rule exI [of _ "[]"], rule exI [of _ 0]) simp

lemma extends_write: "extends w (enc_write b w) b"
  unfolding extends_def
  by (rule exI [of _ b], rule exI [of _ "[]"], rule exI [of _ 0]) (simp add: enc_write_def)

lemma extends_trans: "extends w1 w2 a \<Longrightarrow> extends w2 w3 b \<Longrightarrow> extends w1 w3 (a @ b)"
  unfolding extends_def
proof (elim exE conjE)
  fix s hs k s' hs' k'
  let ?p = "length (str w1)"
  assume w2: "w2 = \<lparr>str = str w1 @ s, lheads = lheads w1 @ hs, lhsize = lhsize w1 + k\<rparr>"
    and h: "heads_in ?p (?p + length s) hs" and r: "rend ?p s hs = a"
    and l: "length s + k = length a"
    and w3: "w3 = \<lparr>str = str w2 @ s', lheads = lheads w2 @ hs', lhsize = lhsize w2 + k'\<rparr>"
    and h': "heads_in (length (str w2)) (length (str w2) + length s') hs'"
    and r': "rend (length (str w2)) s' hs' = b" and l': "length s' + k' = length b"
  have "heads_in ?p (?p + length (s @ s')) (hs @ hs')"
    using heads_in_append [OF h] h' w2 by (simp add: add.assoc)
  moreover have "rend ?p (s @ s') (hs @ hs') = a @ b"
    using rend_append [OF h] h' r r' w2 by simp
  ultimately show "\<exists>s hs k.
     w3 = \<lparr>str = str w1 @ s, lheads = lheads w1 @ hs, lhsize = lhsize w1 + k\<rparr> \<and>
     heads_in ?p (?p + length s) hs \<and> rend ?p s hs = a @ b \<and> length s + k = length (a @ b)"
    using w2 w3 l l'
    by (intro exI [of _ "s @ s'"] exI [of _ "hs @ hs'"] exI [of _ "k + k'"]) simp
qed

lemma extends_list:
  assumes "extends (snd (enc_list w)) w' out" and "length out < 2 ^ 64"
  shows "extends w (listEnd (fst (enc_list w)) w') (puthead 0xC0 0xF7 (length out) @ out)"
proof -
  let ?p = "length (str w)" and ?n = "length out"
  from assms(1) obtain s hs k where
    w': "w' = \<lparr>str = str w @ s,
          lheads = (lheads w @ [\<lparr>offset = ?p, lh_size = lhsize w\<rparr>]) @ hs, lhsize = lhsize w + k\<rparr>"
    and h: "heads_in ?p (?p + length s) hs" and r: "rend ?p s hs = out" and l: "length s + k = ?n"
    unfolding extends_def enc_list_def by auto
  let ?h = "\<lparr>offset = ?p, lh_size = ?n\<rparr>"
  have sz: "enc_size w' - ?p - lhsize w = ?n" using l by (simp add: enc_size_def w')
  have k: "(if ?n < 56 then 1 else 1 + intsize ?n) = length (puthead 0xC0 0xF7 ?n)"
    using assms(2) by (simp add: length_puthead headsize_def)
  have "listEnd (fst (enc_list w)) w' =
      \<lparr>str = str w @ s, lheads = lheads w @ (?h # hs),
       lhsize = lhsize w + (k + length (puthead 0xC0 0xF7 ?n))\<rparr>"
    using sz k [symmetric]
    by (simp add: listEnd_def enc_list_def Let_def) (simp add: w' nth_append list_update_append)
  moreover have "rend ?p s (?h # hs) = puthead 0xC0 0xF7 ?n @ out"
    using r by (simp add: head_encode_def)
  moreover have "heads_in ?p (?p + length s) (?h # hs)" using h by simp
  ultimately show ?thesis
    unfolding extends_def using l
    by (intro exI [of _ s] exI [of _ "?h # hs"] exI [of _ "k + length (puthead 0xC0 0xF7 ?n)"]) simp
qed

lemma extends_items:
  assumes "\<And>x w. x \<in> set xs \<Longrightarrow> extends w (enc_item x w) (encode x)"
  shows "extends w (fold enc_item xs w) (concat (map encode xs))"
  using assms
proof (induction xs arbitrary: w)
  case (Cons x xs)
  have "extends w (enc_item x w) (encode x)" using Cons.prems by simp
  moreover have "extends (enc_item x w) (fold enc_item xs (enc_item x w)) (concat (map encode xs))"
    using Cons by simp
  ultimately show ?case by (simp add: extends_trans)
qed (simp add: extends_refl)

lemma length_encode_elem: "x \<in> set xs \<Longrightarrow> length (encode x) \<le> length (concat (map encode xs))"
  by (induction xs) auto

lemma enc_item_extends: "length (encode x) < 2 ^ 64 \<Longrightarrow> extends w (enc_item x w) (encode x)"
proof (induction x arbitrary: w)
  case (Str b)
  show ?case by (simp add: writeBytes_eq extends_write)
next
  case (Lst xs)
  let ?out = "concat (map encode xs)"
  have len: "length ?out < 2 ^ 64" using Lst.prems by (simp add: Let_def)
  have "extends w (enc_item x w) (encode x)" if "x \<in> set xs" for x w
    using Lst.IH [OF that] length_encode_elem [OF that] len by simp
  then have "extends (snd (enc_list w)) (fold enc_item xs (snd (enc_list w))) ?out"
    by (rule extends_items)
  from extends_list [OF this len] extends_write [of w "[0xC0]"] show ?case
    by (auto simp: Let_def split_beta puthead_def)
qed

lemma encode_buffer_correct:
  assumes "length (encode x) < 2 ^ 64"
  shows "makeBytes (enc_item x enc_reset) = encode x"
    and "enc_size (enc_item x enc_reset) = length (encode x)"
proof -
  from enc_item_extends [OF assms, of enc_reset] obtain s hs k where
    w: "enc_item x enc_reset = \<lparr>str = s, lheads = hs, lhsize = k\<rparr>"
    and h: "heads_in 0 (length s) hs" and r: "rend 0 s hs = encode x"
    and l: "length s + k = length (encode x)"
    unfolding extends_def by (auto simp: enc_reset_def)
  show "makeBytes (enc_item x enc_reset) = encode x"
    using copyTo_loop_rend [OF h] r by (simp add: makeBytes_def w)
  show "enc_size (enc_item x enc_reset) = length (encode x)"
    using l by (simp add: enc_size_def w)
qed

lemma EncodeToBytes_encode: "length (encode x) < 2 ^ 64 \<Longrightarrow> EncodeToBytes x = encode x"
  using encode_buffer_correct(1) by (simp add: EncodeToBytes_def)

end
