(* ===== verification/RLP_Decode.thy ===== *)
theory RLP_Decode
  imports RLP_Encode
begin

text \<open>
  The RLP decoder of \<^verbatim>\<open>src/rlp/decode.go\<close> (the \<^verbatim>\<open>Stream\<close> and the \<^verbatim>\<open>interface{}\<close> decoder built on it)
  and the slice functions of \<^verbatim>\<open>src/rlp/raw.go\<close>.

  A \<^verbatim>\<open>Stream\<close> is a record whose \<open>inp\<close> is what the underlying reader has not delivered yet; every
  method is a function from a stream to a result and the stream afterwards.  Sizes are \<open>u64\<close>, because
  \<^verbatim>\<open>List\<close> subtracts the size of an inner list from the enclosing limit without a check.  The
  reader is a \<^verbatim>\<open>bytes.Reader\<close>: it delivers all bytes that are left.  The theorems about these
  definitions are in \<open>RLP_Correct\<close>.
\<close>

datatype rlp_error =
    EOL | ErrExpectedString | ErrExpectedList | ErrCanonInt | ErrCanonSize | ErrElemTooLarge
  | ErrValueTooLarge | ErrMoreThanOneValue | errNotInList | errNotAtEOL | errUintOverflow
  | ErrUnexpectedEOF | EOF | ErrWrongSize | ErrInvalidBool | ErrStringTooLong | ErrStringTooShort
  | ErrTooFewElements | ErrWrongKindOfEmpty | DecodeError rlp_error

datatype Kind = KByte | KString | KList

record Stream =
  inp :: "byte list"
  remaining :: u64
  ssize :: u64
  kinderr :: "rlp_error option"
  stack :: "u64 list"            \<comment> \<open>innermost list first\<close>
  skind :: "Kind option"         \<comment> \<open>\<open>None\<close> for -1\<close>
  byteval :: byte
  limited :: bool

type_synonym 'a sres = "(rlp_error + 'a) \<times> Stream"

subsection \<open>Reading\<close>

definition listLimit :: "Stream \<Rightarrow> u64 option" where
  "listLimit s = (case stack s of [] \<Rightarrow> None | limit # _ \<Rightarrow> Some limit)"

definition willRead_limited :: "u64 \<Rightarrow> Stream \<Rightarrow> unit sres" where
  "willRead_limited n s =
     (if limited s then
        (if n > remaining s then (Inl ErrValueTooLarge, s)
         else (Inr (), s\<lparr>remaining := remaining s - n\<rparr>))
      else (Inr (), s))"

definition willRead :: "u64 \<Rightarrow> Stream \<Rightarrow> unit sres" where
  "willRead n s0 =
     (let s = s0\<lparr>skind := None\<rparr> in
      case stack s of
        [] \<Rightarrow> willRead_limited n s
      | limit # outer \<Rightarrow>
          if n > limit then (Inl ErrElemTooLarge, s)
          else willRead_limited n (s\<lparr>stack := (limit - n) # outer\<rparr>))"

definition readByte :: "Stream \<Rightarrow> byte sres" where
  "readByte s =
     (case willRead 1 s of
        (Inl e, s1) \<Rightarrow> (Inl e, s1)
      | (Inr _, s1) \<Rightarrow>
          (case inp s1 of
             [] \<Rightarrow> (Inl ErrUnexpectedEOF, s1)
           | b # bs \<Rightarrow> (Inr b, s1\<lparr>inp := bs\<rparr>)))"

definition readFull :: "u64 \<Rightarrow> Stream \<Rightarrow> byte list sres" where
  "readFull n s =
     (case willRead n s of
        (Inl e, s1) \<Rightarrow> (Inl e, s1)
      | (Inr _, s1) \<Rightarrow>
          if length (inp s1) < unat n then (Inl ErrUnexpectedEOF, s1\<lparr>inp := []\<rparr>)
          else (Inr (take (unat n) (inp s1)), s1\<lparr>inp := drop (unat n) (inp s1)\<rparr>))"

definition readUint :: "byte \<Rightarrow> Stream \<Rightarrow> u64 sres" where
  "readUint sz s =
     (if sz = 0 then (Inr 0, s\<lparr>skind := None\<rparr>)
      else if sz = 1 then
        (case readByte s of
           (Inl e, s1) \<Rightarrow> (Inl e, s1)
         | (Inr b, s1) \<Rightarrow> (Inr (word_of_nat (unat b)), s1))
      else
        (case readFull (word_of_nat (unat sz)) s of
           (Inl e, s1) \<Rightarrow> (Inl e, s1)
         | (Inr buf, s1) \<Rightarrow>
             if hd buf = 0 then (Inl ErrCanonSize, s1)
             else (Inr (word_of_nat (be_val buf)), s1)))"

text \<open>The size that follows a long string or list tag; sizes below 56 are not canonical.\<close>

definition readLongSize :: "Kind \<Rightarrow> byte \<Rightarrow> Stream \<Rightarrow> (Kind \<times> u64 \<times> rlp_error option) \<times> Stream" where
  "readLongSize k szsz s =
     (case readUint szsz s of
        (Inl e, s1) \<Rightarrow> ((k, 0, Some e), s1)
      | (Inr sz, s1) \<Rightarrow> ((k, sz, if sz < 56 then Some ErrCanonSize else None), s1))"

definition readKind :: "Stream \<Rightarrow> (Kind \<times> u64 \<times> rlp_error option) \<times> Stream" where
  "readKind s =
     (case readByte s of
        (Inl e, s1) \<Rightarrow>
          ((KByte, 0,
            Some (if stack s1 = [] \<and> (e = ErrUnexpectedEOF \<or> e = ErrValueTooLarge) then EOF else e)),
           s1)
      | (Inr b, s1) \<Rightarrow>
          (let s2 = s1\<lparr>byteval := 0\<rparr> in
           if b < 0x80 then ((KByte, 0, None), s2\<lparr>byteval := b\<rparr>)
           else if b < 0xB8 then ((KString, word_of_nat (unat (b - 0x80)), None), s2)
           else if b < 0xC0 then readLongSize KString (b - 0xB7) s2
           else if b < 0xF8 then ((KList, word_of_nat (unat (b - 0xC0)), None), s2)
           else readLongSize KList (b - 0xF7) s2))"

text \<open>
  \<^verbatim>\<open>Kind\<close> compares the size of the value ahead with the list limit as it was before the tag was
  read.
\<close>

definition stream_Kind :: "Stream \<Rightarrow> (Kind \<times> u64) sres" where
  "stream_Kind s =
     (case skind s of
        Some k \<Rightarrow>
          (case kinderr s of Some e \<Rightarrow> (Inl e, s) | None \<Rightarrow> (Inr (k, ssize s), s))
      | None \<Rightarrow>
          if listLimit s = Some 0 then (Inl EOL, s)
          else
            (let ((k, sz, err), s1) = readKind s;
                 err' = (case err of
                           Some e \<Rightarrow> Some e
                         | None \<Rightarrow>
                             if (case listLimit s of None \<Rightarrow> False | Some limit \<Rightarrow> sz > limit)
                             then Some ErrElemTooLarge
                             else if limited s1 \<and> sz > remaining s1 then Some ErrValueTooLarge
                             else None);
                 s2 = s1\<lparr>skind := Some k, ssize := sz, kinderr := err'\<rparr>
             in case err' of Some e \<Rightarrow> (Inl e, s2) | None \<Rightarrow> (Inr (k, sz), s2)))"

subsection \<open>Typed reads\<close>

definition stream_Bytes :: "Stream \<Rightarrow> byte list sres" where
  "stream_Bytes s =
     (case stream_Kind s of
        (Inl e, s1) \<Rightarrow> (Inl e, s1)
      | (Inr (k, sz), s1) \<Rightarrow>
          (case k of
             KByte \<Rightarrow> (Inr [byteval s1], s1\<lparr>skind := None\<rparr>)
           | KString \<Rightarrow>
               (case readFull sz s1 of
                  (Inl e, s2) \<Rightarrow> (Inl e, s2)
                | (Inr b, s2) \<Rightarrow>
                    if sz = 1 \<and> hd b < 128 then (Inl ErrCanonSize, s2) else (Inr b, s2))
           | KList \<Rightarrow> (Inl ErrExpectedString, s1)))"

definition ReadBytes :: "nat \<Rightarrow> Stream \<Rightarrow> byte list sres" where
  "ReadBytes len s =
     (case stream_Kind s of
        (Inl e, s1) \<Rightarrow> (Inl e, s1)
      | (Inr (k, sz), s1) \<Rightarrow>
          (case k of
             KByte \<Rightarrow>
               if len \<noteq> 1 then (Inl ErrWrongSize, s1)
               else (Inr [byteval s1], s1\<lparr>skind := None\<rparr>)
           | KString \<Rightarrow>
               if word_of_nat len \<noteq> sz then (Inl ErrWrongSize, s1)
               else (case readFull sz s1 of
                  (Inl e, s2) \<Rightarrow> (Inl e, s2)
                | (Inr b, s2) \<Rightarrow>
                    if sz = 1 \<and> hd b < 128 then (Inl ErrCanonSize, s2) else (Inr b, s2))
           | KList \<Rightarrow> (Inl ErrExpectedString, s1)))"

definition Raw :: "Stream \<Rightarrow> byte list sres" where
  "Raw s =
     (case stream_Kind s of
        (Inl e, s1) \<Rightarrow> (Inl e, s1)
      | (Inr (k, sz), s1) \<Rightarrow>
          if k = KByte then (Inr [byteval s1], s1\<lparr>skind := None\<rparr>)
          else
            (case readFull sz s1 of
               (Inl e, s2) \<Rightarrow> (Inl e, s2)
             | (Inr b, s2) \<Rightarrow>
                 if k = KString then (Inr (puthead 0x80 0xB7 (unat sz) @ b), s2)
                 else (Inr (puthead 0xC0 0xF7 (unat sz) @ b), s2)))"

definition stream_uint :: "nat \<Rightarrow> Stream \<Rightarrow> u64 sres" where
  "stream_uint maxbits s =
     (case stream_Kind s of
        (Inl e, s1) \<Rightarrow> (Inl e, s1)
      | (Inr (k, sz), s1) \<Rightarrow>
          (case k of
             KByte \<Rightarrow>
               if byteval s1 = 0 then (Inl ErrCanonInt, s1)
               else (Inr (word_of_nat (unat (byteval s1))), s1\<lparr>skind := None\<rparr>)
           | KString \<Rightarrow>
               if sz > word_of_nat (maxbits div 8) then (Inl errUintOverflow, s1)
               else
                 (case readUint (word_of_nat (unat sz)) s1 of
                    (Inl e, s2) \<Rightarrow> (Inl (if e = ErrCanonSize then ErrCanonInt else e), s2)
                  | (Inr v, s2) \<Rightarrow>
                      if sz > 0 \<and> v < 128 then (Inl ErrCanonSize, s2) else (Inr v, s2))
           | KList \<Rightarrow> (Inl ErrExpectedString, s1)))"

definition stream_Bool :: "Stream \<Rightarrow> bool sres" where
  "stream_Bool s =
     (case stream_uint 8 s of
        (Inl e, s1) \<Rightarrow> (Inl e, s1)
      | (Inr num, s1) \<Rightarrow>
          if num = 0 then (Inr False, s1)
          else if num = 1 then (Inr True, s1)
          else (Inl ErrInvalidBool, s1))"

definition decodeBigInt :: "Stream \<Rightarrow> nat sres" where
  "decodeBigInt s =
     (case stream_Kind s of
        (Inl e, s1) \<Rightarrow> (Inl e, s1)
      | (Inr (k, sz), s1) \<Rightarrow>
          if k = KList then (Inl ErrExpectedString, s1)
          else
            (case (if k = KByte then (Inr [byteval s1], s1\<lparr>skind := None\<rparr>)
                   else if sz = 0 then (Inr [], s1\<lparr>skind := None\<rparr>)
                   else
                     (case readFull sz s1 of
                        (Inl e, s2) \<Rightarrow> (Inl e, s2)
                      | (Inr b, s2) \<Rightarrow>
                          if sz = 1 \<and> hd b < 128 then (Inl ErrCanonSize, s2) else (Inr b, s2)))
             of
               (Inl e, s2) \<Rightarrow> (Inl e, s2)
             | (Inr buffer, s2) \<Rightarrow>
                 if 0 < length buffer \<and> hd buffer = 0 then (Inl ErrCanonInt, s2)
                 else (Inr (be_val buffer), s2)))"

text \<open>
  \<^verbatim>\<open>List\<close> takes the size of the inner list off the enclosing limit (unsigned, so the
  subtraction wraps) and pushes it.
\<close>

definition stream_List :: "Stream \<Rightarrow> u64 sres" where
  "stream_List s =
     (case stream_Kind s of
        (Inl e, s1) \<Rightarrow> (Inl e, s1)
      | (Inr (k, sz), s1) \<Rightarrow>
          if k \<noteq> KList then (Inl ErrExpectedList, s1)
          else
            (let st = (case stack s1 of [] \<Rightarrow> [] | limit # outer \<Rightarrow> (limit - sz) # outer)
             in (Inr sz, s1\<lparr>stack := sz # st, skind := None, ssize := 0\<rparr>)))"

definition ListEnd :: "Stream \<Rightarrow> unit sres" where
  "ListEnd s =
     (case stack s of
        [] \<Rightarrow> (Inl errNotInList, s)
      | limit # outer \<Rightarrow>
          if limit > 0 then (Inl errNotAtEOL, s)
          else (Inr (), s\<lparr>stack := outer, skind := None, ssize := 0\<rparr>))"

definition MoreDataInList :: "Stream \<Rightarrow> bool" where
  "MoreDataInList s = (case listLimit s of None \<Rightarrow> False | Some limit \<Rightarrow> limit > 0)"

definition stream_Reset :: "byte list \<Rightarrow> u64 \<Rightarrow> Stream" where
  "stream_Reset r inputLimit =
     \<lparr>inp = r, remaining = (if inputLimit > 0 then inputLimit else word_of_nat (length r)),
      ssize = 0, kinderr = None, stack = [], skind = None, byteval = 0, limited = True\<rparr>"

subsection \<open>Decoding into an interface value\<close>

definition wrapStreamError :: "rlp_error \<Rightarrow> rlp_error" where
  "wrapStreamError err =
     (if err \<in> {ErrCanonInt, ErrCanonSize, ErrExpectedList, ErrExpectedString, errUintOverflow,
                errNotAtEOL}
      then DecodeError err else err)"

text \<open>
  \<^verbatim>\<open>decodeInterface\<close> with \<^verbatim>\<open>decodeListSlice\<close> and \<^verbatim>\<open>decodeSliceElems\<close>.  The fuel bounds the recursion;
  \<open>decodeInterface_fuel\<close> shows how much is enough, whatever the input.
\<close>

fun decodeInterface :: "nat \<Rightarrow> Stream \<Rightarrow> item sres option"
and decodeSliceElems :: "nat \<Rightarrow> Stream \<Rightarrow> item list sres option"
where
  "decodeInterface 0 s = None"
| "decodeInterface (Suc f) s =
     (case stream_Kind s of
        (Inl e, s1) \<Rightarrow> Some (Inl e, s1)
      | (Inr (k, _), s1) \<Rightarrow>
          if k = KList then
            (case stream_List s1 of
               (Inl e, s2) \<Rightarrow> Some (Inl (wrapStreamError e), s2)
             | (Inr sz, s2) \<Rightarrow>
                 (case (if sz = 0 then Some (Inr [], s2) else decodeSliceElems f s2) of
                    None \<Rightarrow> None
                  | Some (Inl e, s3) \<Rightarrow> Some (Inl e, s3)
                  | Some (Inr xs, s3) \<Rightarrow>
                      (case ListEnd s3 of
                         (Inl e, s4) \<Rightarrow> Some (Inl e, s4)
                       | (Inr _, s4) \<Rightarrow> Some (Inr (Lst xs), s4))))
          else
            (case stream_Bytes s1 of
               (Inl e, s2) \<Rightarrow> Some (Inl e, s2)
             | (Inr b, s2) \<Rightarrow> Some (Inr (Str b), s2)))"
| "decodeSliceElems 0 s = None"
| "decodeSliceElems (Suc f) s =
     (case decodeInterface f s of
        None \<Rightarrow> None
      | Some (Inl e, s1) \<Rightarrow> if e = EOL then Some (Inr [], s1) else Some (Inl e, s1)
      | Some (Inr x, s1) \<Rightarrow>
          (case decodeSliceElems f s1 of
             None \<Rightarrow> None
           | Some (Inl e, s2) \<Rightarrow> Some (Inl e, s2)
           | Some (Inr xs, s2) \<Rightarrow> Some (Inr (x # xs), s2)))"

text \<open>
  The decoders of typed values: each is a Stream method with its errors wrapped.  A struct is a list
  whose elements are decoded field by field (\<open>structFields\<close> chains the decoders of the fields); an
  early end of the list is "too few elements".
\<close>

definition wrapped :: "'a sres \<Rightarrow> 'a sres" where
  "wrapped r = (case r of (Inl e, s) \<Rightarrow> (Inl (wrapStreamError e), s) | (Inr x, s) \<Rightarrow> (Inr x, s))"

definition decodeUint :: "Stream \<Rightarrow> u64 sres" where
  "decodeUint s = wrapped (stream_uint 64 s)"

definition decodeByteSlice :: "Stream \<Rightarrow> byte list sres" where
  "decodeByteSlice s = wrapped (stream_Bytes s)"

definition decodeBigIntPtr :: "Stream \<Rightarrow> nat sres" where
  "decodeBigIntPtr s = wrapped (decodeBigInt s)"

definition decodeByteArray :: "nat \<Rightarrow> Stream \<Rightarrow> byte list sres" where
  "decodeByteArray len s =
     (case stream_Kind s of
        (Inl e, s1) \<Rightarrow> (Inl e, s1)
      | (Inr (k, sz), s1) \<Rightarrow>
          (case k of
             KByte \<Rightarrow>
               if len = 0 then (Inl ErrStringTooLong, s1)
               else if len > 1 then (Inl ErrStringTooShort, s1)
               else (Inr [byteval s1], s1\<lparr>skind := None\<rparr>)
           | KString \<Rightarrow>
               if word_of_nat len < sz then (Inl ErrStringTooLong, s1)
               else if word_of_nat len > sz then (Inl ErrStringTooShort, s1)
               else
                 (case readFull sz s1 of
                    (Inl e, s2) \<Rightarrow> (Inl e, s2)
                  | (Inr b, s2) \<Rightarrow>
                      if sz = 1 \<and> hd b < 128 then (Inl (wrapStreamError ErrCanonSize), s2)
                      else (Inr b, s2))
           | KList \<Rightarrow> (Inl (wrapStreamError ErrExpectedString), s1)))"

text \<open>
  The decoder of a pointer field with tag "nil" (\<^verbatim>\<open>makeNilPtrDecoder\<close>): an empty value of the kind of the
  element type is the nil pointer.
\<close>

definition decodeNilPtr :: "Kind \<Rightarrow> (Stream \<Rightarrow> 'a sres) \<Rightarrow> Stream \<Rightarrow> 'a option sres" where
  "decodeNilPtr nilKind dec s =
     (case stream_Kind s of
        (Inl e, s1) \<Rightarrow> (Inl (wrapStreamError e), s1)
      | (Inr (k, sz), s1) \<Rightarrow>
          if k \<noteq> KByte \<and> sz = 0 then
            (if k \<noteq> nilKind then (Inl ErrWrongKindOfEmpty, s1) else (Inr None, s1\<lparr>skind := None\<rparr>))
          else
            (case dec s1 of
               (Inl e, s2) \<Rightarrow> (Inl e, s2)
             | (Inr x, s2) \<Rightarrow> (Inr (Some x), s2)))"

definition structField :: "(Stream \<Rightarrow> 'a sres) \<Rightarrow> (Stream \<Rightarrow> 'b sres) \<Rightarrow> Stream \<Rightarrow> ('a \<times> 'b) sres" where
  "structField dec others s =
     (case dec s of
        (Inl e, s1) \<Rightarrow> (Inl (if e = EOL then ErrTooFewElements else e), s1)
      | (Inr x, s1) \<Rightarrow>
          (case others s1 of
             (Inl e, s2) \<Rightarrow> (Inl e, s2)
           | (Inr y, s2) \<Rightarrow> (Inr (x, y), s2)))"

definition structEnd :: "Stream \<Rightarrow> unit sres" where
  "structEnd s = (Inr (), s)"

definition decodeStruct :: "(Stream \<Rightarrow> 'a sres) \<Rightarrow> Stream \<Rightarrow> 'a sres" where
  "decodeStruct body s =
     (case stream_List s of
        (Inl e, s1) \<Rightarrow> (Inl (wrapStreamError e), s1)
      | (Inr _, s1) \<Rightarrow>
          (case body s1 of
             (Inl e, s2) \<Rightarrow> (Inl e, s2)
           | (Inr x, s2) \<Rightarrow>
               (case wrapped (ListEnd s2) of
                  (Inl e, s3) \<Rightarrow> (Inl e, s3)
                | (Inr _, s3) \<Rightarrow> (Inr x, s3))))"

definition decode_as :: "('a \<Rightarrow> 'b) \<Rightarrow> (Stream \<Rightarrow> 'a sres) \<Rightarrow> Stream \<Rightarrow> 'b sres" where
  "decode_as f dec s = (case dec s of (Inl e, s1) \<Rightarrow> (Inl e, s1) | (Inr x, s1) \<Rightarrow> (Inr (f x), s1))"

definition DecodeBytes_to :: "(Stream \<Rightarrow> 'a sres) \<Rightarrow> byte list \<Rightarrow> rlp_error + 'a" where
  "DecodeBytes_to dec b =
     (case dec (stream_Reset b (word_of_nat (length b))) of
        (Inl e, _) \<Rightarrow> Inl e
      | (Inr x, s) \<Rightarrow> if 0 < length (inp s) then Inl ErrMoreThanOneValue else Inr x)"

definition DecodeBytes :: "byte list \<Rightarrow> (rlp_error + item) option" where
  "DecodeBytes b =
     (case decodeInterface (2 * length b + 1) (stream_Reset b (word_of_nat (length b))) of
        None \<Rightarrow> None
      | Some (Inl e, _) \<Rightarrow> Some (Inl e)
      | Some (Inr x, s) \<Rightarrow>
          if 0 < length (inp s) then Some (Inl ErrMoreThanOneValue) else Some (Inr x))"

subsection \<open>Slices: \<open>raw.go\<close>\<close>

definition readSize :: "byte list \<Rightarrow> nat \<Rightarrow> rlp_error + nat" where
  "readSize b slen =
     (if slen > length b then Inl ErrUnexpectedEOF
      else (let s = be_val (take slen b) in
            if s < 56 \<or> hd b = 0 then Inl ErrCanonSize else Inr s))"

text \<open>
  The tag size never exceeds the length of the buffer here (\<open>readSize\<close> has checked it), so the
  unsigned subtraction of the last check does not wrap and natural numbers are faithful.
\<close>

definition raw_readKind :: "byte list \<Rightarrow> rlp_error + Kind \<times> nat \<times> nat" where
  "raw_readKind buf =
     (if buf = [] then Inl ErrUnexpectedEOF
      else
        (let b = hd buf in
         result_bind
           (if b < 0x80 then Inr (KByte, 0, 1)
            else if b < 0xB8 then
              (let contentsize = unat (b - 0x80) in
               if contentsize = 1 \<and> length buf > 1 \<and> buf ! 1 < 128 then Inl ErrCanonSize
               else Inr (KString, 1, contentsize))
            else if b < 0xC0 then
              result_bind (readSize (tl buf) (unat (b - 0xB7)))
                (\<lambda>contentsize. Inr (KString, unat (b - 0xB7) + 1, contentsize))
            else if b < 0xF8 then Inr (KList, 1, unat (b - 0xC0))
            else
              result_bind (readSize (tl buf) (unat (b - 0xF7)))
                (\<lambda>contentsize. Inr (KList, unat (b - 0xF7) + 1, contentsize)))
           (\<lambda>(k, tagsize, contentsize).
              if contentsize > length buf - tagsize then Inl ErrValueTooLarge
              else Inr (k, tagsize, contentsize))))"

definition Split :: "byte list \<Rightarrow> rlp_error + Kind \<times> byte list \<times> byte list" where
  "Split b =
     result_bind (raw_readKind b)
       (\<lambda>(k, ts, cs). Inr (k, take cs (drop ts b), drop (ts + cs) b))"

definition SplitString :: "byte list \<Rightarrow> rlp_error + byte list \<times> byte list" where
  "SplitString b =
     result_bind (Split b)
       (\<lambda>(k, content, rest). if k = KList then Inl ErrExpectedString else Inr (content, rest))"

definition SplitList :: "byte list \<Rightarrow> rlp_error + byte list \<times> byte list" where
  "SplitList b =
     result_bind (Split b)
       (\<lambda>(k, content, rest). if k \<noteq> KList then Inl ErrExpectedList else Inr (content, rest))"

lemma raw_readKind_pos: "raw_readKind b = Inr (k, ts, cs) \<Longrightarrow> b \<noteq> [] \<and> (0 < ts + cs)"
  by (auto simp: raw_readKind_def Let_def split: if_splits)

function CountValues_from :: "nat \<Rightarrow> byte list \<Rightarrow> rlp_error + nat" where
  "CountValues_from i b =
     (if length b > 0 then
        result_bind (raw_readKind b)
          (\<lambda>(_, tagsize, sz). CountValues_from (Suc i) (drop (tagsize + sz) b))
      else Inr i)"
  by pat_completeness auto
termination
  by (relation "measure (\<lambda>(i, b). length b)") (auto dest!: raw_readKind_pos)

declare CountValues_from.simps [simp del]

definition CountValues :: "byte list \<Rightarrow> rlp_error + nat" where
  "CountValues b = CountValues_from 0 b"

end
