(* ===== verification/RLP_Correct.thy ===== *)
theory RLP_Correct
  imports RLP_Decode
begin

text \<open>
  Correctness of the RLP decoder against the format \<open>encode\<close> of \<open>RLP_Encode\<close>.

  \<^item> \<open>consumes s bs s'\<close>: between the streams \<open>s\<close> and \<open>s'\<close> exactly the bytes \<open>bs\<close> were read, and the
    input and list limits went down by their number (modulo $2^{64}$, as in the code);
  \<^item> \<open>avail n s\<close>: the input and both limits allow \<open>n\<close> more bytes;
  \<^item> \<open>sound\<close> lemmas: what a successful read says about the input, without assumptions on the
    limits, so that the wrap-around of \<^verbatim>\<open>List\<close> is covered;
  \<^item> \<open>complete\<close> lemmas: canonical input is read successfully.
\<close>

subsection \<open>Streams\<close>

definition adv :: "u64 \<Rightarrow> u64 list \<Rightarrow> u64 list" where
  "adv n st = (case st of [] \<Rightarrow> [] | l # ls \<Rightarrow> (l - n) # ls)"

definition consumes :: "Stream \<Rightarrow> byte list \<Rightarrow> Stream \<Rightarrow> bool" where
  "consumes s bs s' \<longleftrightarrow>
     inp s = bs @ inp s' \<and> limited s' = limited s \<and>
     (limited s \<longrightarrow> remaining s' = remaining s - word_of_nat (length bs)) \<and>
     stack s' = adv (word_of_nat (length bs)) (stack s)"

definition avail :: "nat \<Rightarrow> Stream \<Rightarrow> bool" where
  "avail n s \<longleftrightarrow>
     n \<le> length (inp s) \<and> n < 2 ^ 64 \<and> (limited s \<longrightarrow> n \<le> unat (remaining s)) \<and>
     (case stack s of [] \<Rightarrow> True | l # _ \<Rightarrow> n \<le> unat l)"

lemma adv_adv [simp]: "adv m (adv n st) = adv (n + m) st"
  by (auto simp: adv_def split: list.splits)

lemma adv_0 [simp]: "adv 0 st = st"
  by (auto simp: adv_def split: list.splits)

lemma adv_Nil_iff [simp]: "adv n st = [] \<longleftrightarrow> st = []"
  by (auto simp: adv_def split: list.splits)

lemma consumes_trans: "consumes s a t \<Longrightarrow> consumes t b u \<Longrightarrow> consumes s (a @ b) u"
  by (auto simp: consumes_def)

lemma consumes_append: "consumes s a t \<Longrightarrow> consumes t b u \<Longrightarrow> c = a @ b \<Longrightarrow> consumes s c u"
  using consumes_trans by blast

lemma consumes_update [simp]:
  "consumes s bs (s'\<lparr>byteval := v\<rparr>) = consumes s bs s'"
  "consumes s bs (s'\<lparr>skind := k\<rparr>) = consumes s bs s'"
  "consumes s bs (s'\<lparr>ssize := z\<rparr>) = consumes s bs s'"
  "consumes s bs (s'\<lparr>kinderr := e\<rparr>) = consumes s bs s'"
  by (simp_all add: consumes_def)

lemma unat_word_of_nat_u64: "n < 2 ^ 64 \<Longrightarrow> unat (word_of_nat n :: u64) = n"
  by (simp add: unat_of_nat)

lemma unat_u64_less: "unat (w :: u64) < 2 ^ 64"
  using unsigned_less [where ?'a = nat, of w] by simp

lemma unat_word_of_byte: "unat (word_of_nat (unat (b :: byte)) :: u64) = unat b"
  using unat_byte_less [of b] by (intro unat_word_of_nat_u64) (simp del: unat_byte_less)

lemma unat_sub_of_nat_u64:
  assumes "n \<le> unat (w :: u64)"
  shows "unat (w - word_of_nat n) = unat w - n"
proof -
  have "unat (word_of_nat n :: u64) = n"
    using assms unat_u64_less [of w] by (intro unat_word_of_nat_u64) simp
  then show ?thesis using assms by (simp add: unat_sub word_le_nat_alt)
qed

lemma avail_consumes:
  assumes "avail (length bs + n) s" "consumes s bs s'"
  shows "avail n s'"
  using assms
  by (auto simp: avail_def consumes_def adv_def unat_sub_of_nat_u64 split: list.splits)

lemma avail_mono: "avail m s \<Longrightarrow> n \<le> m \<Longrightarrow> avail n s"
  by (auto simp: avail_def split: list.splits)

subsection \<open>Elementary reads\<close>

lemma willRead_sound:
  assumes "willRead n s = (Inr u, s')"
  shows "inp s' = inp s" "limited s' = limited s" "skind s' = None"
    "limited s \<Longrightarrow> remaining s' = remaining s - n" "stack s' = adv n (stack s)"
  using assms
  by (auto simp: willRead_def willRead_limited_def Let_def adv_def split: list.splits if_splits)

lemma willRead_complete:
  "avail n s \<Longrightarrow> \<exists>s'. willRead (word_of_nat n) s = (Inr (), s')"
  by (auto simp: willRead_def willRead_limited_def Let_def avail_def word_less_nat_alt
        unat_word_of_nat_u64 split: list.splits)

lemma readFull_sound:
  assumes "readFull n s = (Inr bs, s')"
  shows "consumes s bs s'" "length bs = unat n" "skind s' = None"
proof -
  obtain u s1 where w: "willRead n s = (Inr u, s1)" and len: "unat n \<le> length (inp s1)"
    and bs: "bs = take (unat n) (inp s1)" and s': "s' = s1\<lparr>inp := drop (unat n) (inp s1)\<rparr>"
    using assms by (auto simp: readFull_def split: prod.splits sum.splits if_splits)
  note ws = willRead_sound [OF w]
  show l: "length bs = unat n" using bs len by simp
  show "skind s' = None" using ws(3) s' by simp
  show "consumes s bs s'" using ws l bs s' by (auto simp: consumes_def)
qed

lemma readFull_complete:
  assumes "avail (length bs) s" "inp s = bs @ rest"
  shows "\<exists>s'. readFull (word_of_nat (length bs)) s = (Inr bs, s')"
proof -
  obtain s1 where w: "willRead (word_of_nat (length bs)) s = (Inr (), s1)"
    using willRead_complete [OF assms(1)] by blast
  have "unat (word_of_nat (length bs) :: u64) = length bs"
    using assms(1) by (simp add: avail_def unat_word_of_nat_u64)
  then show ?thesis using w willRead_sound(1) [OF w] assms(2) by (simp add: readFull_def)
qed

lemma readByte_sound:
  assumes "readByte s = (Inr b, s')"
  shows "consumes s [b] s'" "skind s' = None"
proof -
  obtain u s1 where w: "willRead 1 s = (Inr u, s1)" and i: "inp s1 = b # inp s'"
    and s': "s' = s1\<lparr>inp := inp s'\<rparr>"
    using assms by (auto simp: readByte_def split: prod.splits sum.splits list.splits)
  note ws = willRead_sound [OF w]
  have "limited s' = limited s1" "remaining s' = remaining s1" "stack s' = stack s1" "skind s' = skind s1"
    using s' by (metis Stream.ext_inject Stream.surjective Stream.update_convs(1))+
  with ws i show "consumes s [b] s'" "skind s' = None" by (auto simp: consumes_def)
qed

lemma readByte_complete:
  assumes "avail (Suc n) s" "inp s = b # rest"
  shows "\<exists>s'. readByte s = (Inr b, s')"
proof -
  have "avail 1 s" using assms(1) by (rule avail_mono) simp
  then obtain s1 where w: "willRead 1 s = (Inr (), s1)"
    using willRead_complete [of 1 s] by auto
  then show ?thesis using willRead_sound(1) [OF w] assms(2) by (auto simp: readByte_def)
qed

subsection \<open>Headers\<close>

text \<open>\<open>hdr k v sz\<close> is the canonical header of a value of kind \<open>k\<close> and size \<open>sz\<close>.\<close>

definition hdr :: "Kind \<Rightarrow> byte \<Rightarrow> u64 \<Rightarrow> byte list" where
  "hdr k v sz =
     (case k of
        KByte \<Rightarrow> [v]
      | KString \<Rightarrow> puthead 0x80 0xB7 (unat sz)
      | KList \<Rightarrow> puthead 0xC0 0xF7 (unat sz))"

lemma putint_bytes:
  assumes "bs \<noteq> []" "hd bs \<noteq> 0" "length bs \<le> 8"
  shows "unat (word_of_nat (be_val bs) :: u64) = be_val bs" "putint (be_val bs) = bs"
proof -
  have "be_val bs < 256 ^ length bs" by (rule be_val_less)
  also have "(256 :: nat) ^ length bs \<le> 256 ^ 8" using assms(3) by (rule power_increasing) simp
  finally have lt: "be_val bs < 2 ^ 64" by simp
  then show "unat (word_of_nat (be_val bs) :: u64) = be_val bs" by (rule unat_word_of_nat_u64)
  have "be_bytes (be_val bs) = bs" using assms by (intro be_bytes_be_val) simp
  with assms(1) lt show "putint (be_val bs) = bs" using putint_eq [OF lt] by (auto split: if_splits)
qed

lemma putint_byte: "putint (unat (b :: byte)) = [b]"
  by (simp add: putint_def)

lemma readUint_sound:
  assumes "readUint z s = (Inr v, s')" "z \<noteq> 0" "unat z \<le> 8"
  shows "consumes s (putint (unat v)) s' \<and> length (putint (unat v)) = unat z \<and> skind s' = None"
proof (cases "z = 1")
  case True
  then obtain b where b: "readByte s = (Inr b, s')" and v: "v = word_of_nat (unat b)"
    using assms(1) by (auto simp: readUint_def split: prod.splits sum.splits)
  have "unat v = unat b"
    using v by (simp only: unat_word_of_byte)
  then show ?thesis using readByte_sound [OF b] True by (simp add: putint_byte)
next
  case False
  then obtain bs where r: "readFull (word_of_nat (unat z)) s = (Inr bs, s')" and h: "hd bs \<noteq> 0"
    and v: "v = word_of_nat (be_val bs)"
    using assms(1,2) by (auto simp: readUint_def split: prod.splits sum.splits if_splits)
  have "unat (word_of_nat (unat z) :: u64) = unat z" using assms(3) by (intro unat_word_of_nat_u64) simp
  then have len: "length bs = unat z" using readFull_sound(2) [OF r] by simp
  then have "bs \<noteq> []" using assms(2) by (metis length_0_conv unat_eq_zero)
  then have "putint (unat v) = bs" using putint_bytes [of bs] h len assms(3) v by simp
  then show ?thesis using readFull_sound [OF r] len by simp
qed

lemma readUint_complete:
  assumes "avail (length (putint n)) s" "inp s = putint n @ rest" "0 < n" "n < 2 ^ 64"
  shows "\<exists>s'. readUint (word_of_nat (length (putint n))) s = (Inr (word_of_nat n), s')"
proof -
  let ?p = "putint n" and ?z = "word_of_nat (length (putint n)) :: byte"
  have p: "?p = be_bytes n" using assms(3,4) by (simp add: putint_eq)
  then have val: "be_val ?p = n" and hd: "hd ?p \<noteq> 0" using assms(3) hd_be_bytes_nonzero [of n] by auto
  have len: "1 \<le> length ?p" "length ?p \<le> 8" by (rule length_putint)+
  then have z: "unat ?z = length ?p" by (simp add: unat_word_of_nat_byte)
  then have z0: "?z \<noteq> 0" using len(1) by (metis not_one_le_zero unsigned_0)
  show ?thesis
  proof (cases "?z = 1")
    case True
    then have "length ?p = 1" using z by simp
    then obtain b where b: "?p = [b]" by (cases ?p) auto
    then obtain s' where "readByte s = (Inr b, s')"
      using readByte_complete [of 0 s b rest] assms(1,2) by auto
    moreover have "unat b = n" using b val by simp
    ultimately show ?thesis using z0 True by (auto simp: readUint_def)
  next
    case False
    obtain s' where "readFull (word_of_nat (length ?p)) s = (Inr ?p, s')"
      using readFull_complete [OF assms(1,2)] by blast
    then show ?thesis using z0 False hd val z by (auto simp: readUint_def)
  qed
qed

lemma byte_sub_unat: "\<not> b < t \<Longrightarrow> unat (b - t) = unat b - unat t" for b t :: byte
  by (simp add: unat_sub not_less)

lemma byte_tag_small:
  fixes b t :: byte
  assumes "\<not> b < t" "unat b < unat t + 56"
  shows "unat (word_of_nat (unat (b - t)) :: u64) < 56"
    "t + word_of_nat (unat (word_of_nat (unat (b - t)) :: u64)) = b"
proof -
  show "unat (word_of_nat (unat (b - t)) :: u64) < 56"
    using assms(2) byte_sub_unat [OF assms(1)] assms(1)
    unfolding unat_word_of_byte word_less_nat_alt by linarith
  show "t + word_of_nat (unat (word_of_nat (unat (b - t)) :: u64)) = b"
    by (simp only: unat_word_of_byte) simp
qed

lemma readLongSize_sound:
  assumes "readLongSize k z s = ((k', sz, None), s')" "z \<noteq> 0" "unat z \<le> 8"
  shows "k' = k \<and> consumes s (putint (unat sz)) s' \<and> length (putint (unat sz)) = unat z \<and> 56 \<le> unat sz"
proof -
  have r: "readUint z s = (Inr sz, s')" and "k' = k" and "\<not> sz < 56"
    using assms(1) by (auto simp: readLongSize_def split: prod.splits sum.splits if_splits)
  then show ?thesis using readUint_sound [OF r assms(2,3)] by (simp add: word_less_nat_alt)
qed

lemma puthead_large:
  "56 \<le> n \<Longrightarrow> length (putint n) = unat z \<Longrightarrow> t + z = b \<Longrightarrow> puthead t' t n = b # putint n" for z :: byte
  by (auto simp: puthead_def Let_def)

lemma readKind_sound:
  assumes "readKind s = ((k, sz, None), s')"
  shows "consumes s (hdr k (byteval s') sz) s' \<and> (k = KByte \<longrightarrow> sz = 0 \<and> byteval s' < 0x80)"
proof -
  obtain b s1 where b: "readByte s = (Inr b, s1)"
    using assms by (auto simp: readKind_def split: prod.splits sum.splits)
  let ?s2 = "s1\<lparr>byteval := 0\<rparr>"
  have c: "consumes s [b] ?s2" using readByte_sound [OF b] by simp
  consider "b < 0x80" | "\<not> b < 0x80" "b < 0xB8" | "\<not> b < 0xB8" "b < 0xC0"
    | "\<not> b < 0xC0" "b < 0xF8" | "\<not> b < 0xF8" by blast
  then show ?thesis
  proof cases
    case 1
    then show ?thesis using assms b c by (auto simp: readKind_def Let_def hdr_def)
  next
    case 2
    then have "k = KString" "sz = word_of_nat (unat (b - 0x80))" "s' = ?s2"
      using assms b by (auto simp: readKind_def Let_def)
    with byte_tag_small [of b "0x80"] 2 c show ?thesis
      by (simp add: hdr_def puthead_def word_less_nat_alt del: of_nat_unat)
  next
    case 3
    then have r: "readLongSize KString (b - 0xB7) ?s2 = ((k, sz, None), s')"
      using assms b by (auto simp: readKind_def Let_def word_less_nat_alt)
    have z: "unat (b - 0xB7) = unat b - 0xB7" "b - 0xB7 \<noteq> 0"
      using 3 by (auto simp: byte_sub_unat word_less_nat_alt)
    have "unat (b - 0xB7) \<le> 8" using 3 z by (simp add: word_less_nat_alt)
    with readLongSize_sound [OF r] z(2)
    have l: "k = KString" "consumes ?s2 (putint (unat sz)) s'" "length (putint (unat sz)) = unat (b - 0xB7)"
      "56 \<le> unat sz" by auto
    then show ?thesis using consumes_trans [OF c l(2)] puthead_large [of "unat sz" "b - 0xB7" "0xB7" b]
      by (simp add: hdr_def)
  next
    case 4
    then have "k = KList" "sz = word_of_nat (unat (b - 0xC0))" "s' = ?s2"
      using assms b by (auto simp: readKind_def Let_def word_less_nat_alt)
    with byte_tag_small [of b "0xC0"] 4 c show ?thesis
      by (simp add: hdr_def puthead_def word_less_nat_alt del: of_nat_unat)
  next
    case 5
    then have r: "readLongSize KList (b - 0xF7) ?s2 = ((k, sz, None), s')"
      using assms b by (auto simp: readKind_def Let_def word_less_nat_alt)
    have z: "unat (b - 0xF7) = unat b - 0xF7" "b - 0xF7 \<noteq> 0"
      using 5 by (auto simp: byte_sub_unat word_less_nat_alt)
    have "unat (b - 0xF7) \<le> 8" using z unat_byte_less [of b] by linarith
    with readLongSize_sound [OF r] z(2)
    have l: "k = KList" "consumes ?s2 (putint (unat sz)) s'" "length (putint (unat sz)) = unat (b - 0xF7)"
      "56 \<le> unat sz" by auto
    then show ?thesis using consumes_trans [OF c l(2)] puthead_large [of "unat sz" "b - 0xF7" "0xF7" b]
      by (simp add: hdr_def)
  qed
qed

subsection \<open>Soundness of the interface decoder\<close>

lemma stream_Kind_cached: "skind s = Some k \<Longrightarrow> kinderr s = None \<Longrightarrow> stream_Kind s = (Inr (k, ssize s), s)"
  by (simp add: stream_Kind_def)

lemma stream_Kind_sound:
  assumes "stream_Kind s = (Inr (k, sz), s')" "skind s = None"
  shows "consumes s (hdr k (byteval s') sz) s'" "k = KByte \<Longrightarrow> byteval s' < 0x80"
    "skind s' = Some k" "kinderr s' = None" "ssize s' = sz"
proof -
  obtain s1 where r: "readKind s = ((k, sz, None), s1)"
    and s': "s' = s1\<lparr>skind := Some k, ssize := sz, kinderr := None\<rparr>"
    using assms by (auto simp: stream_Kind_def Let_def split: prod.splits option.splits if_splits)
  from readKind_sound [OF r] s'
  show "consumes s (hdr k (byteval s') sz) s'" "k = KByte \<Longrightarrow> byteval s' < 0x80"
    "skind s' = Some k" "kinderr s' = None" "ssize s' = sz" by auto
qed

lemma hdr_bytes:
  "length b = unat sz \<Longrightarrow> \<not> (sz = 1 \<and> hd b < 128) \<Longrightarrow> encode_bytes b = hdr KString v sz @ b"
  by (auto simp: encode_bytes_def hdr_def word_less_nat_alt word_le_nat_alt word_unat_eq_iff)

lemma stream_Bytes_sound:
  assumes k: "stream_Kind s = (Inr (k, sz), s1)" "skind s = None"
    and b: "stream_Bytes s1 = (Inr b, s2)"
  shows "consumes s (encode (Str b)) s2 \<and> skind s2 = None"
proof -
  note ks = stream_Kind_sound [OF k]
  show ?thesis
  proof (cases k)
    case KByte
    then have "b = [byteval s1]" "s2 = s1\<lparr>skind := None\<rparr>"
      using b ks(3-5) by (auto simp: stream_Bytes_def stream_Kind_cached)
    then show ?thesis using ks(1,2) KByte
      by (simp add: hdr_def encode_bytes_def word_less_nat_alt word_le_nat_alt)
  next
    case KString
    then have r: "readFull sz s1 = (Inr b, s2)" and c: "\<not> (sz = 1 \<and> hd b < 128)"
      using b ks(3-5) by (auto simp: stream_Bytes_def stream_Kind_cached split: prod.splits sum.splits if_splits)
    show ?thesis using consumes_trans [OF ks(1) readFull_sound(1) [OF r]] readFull_sound(2,3) [OF r] KString
        hdr_bytes [OF readFull_sound(2) [OF r] c] by simp
  next
    case KList
    then show ?thesis using b ks(3-5) by (auto simp: stream_Bytes_def stream_Kind_cached)
  qed
qed

text \<open>Only the check at the start of \<^verbatim>\<open>Kind\<close> returns \<^verbatim>\<open>EOL\<close>, and it reads nothing.\<close>

lemma not_EOL:
  "willRead n s \<noteq> (Inl EOL, t)" "readByte s \<noteq> (Inl EOL, t)" "readFull n s \<noteq> (Inl EOL, t)"
  "readUint z s \<noteq> (Inl EOL, t)" "readLongSize k z s \<noteq> ((k', sz, Some EOL), t)"
  "readKind s \<noteq> ((k', sz, Some EOL), t)"
proof -
  show w: "willRead n s \<noteq> (Inl EOL, t)" for n s t
    by (auto simp: willRead_def willRead_limited_def Let_def split: list.splits)
  show b: "readByte s \<noteq> (Inl EOL, t)" for s t
    using w by (auto simp: readByte_def split: prod.splits sum.splits list.splits)
  show f: "readFull n s \<noteq> (Inl EOL, t)" for n s t
    using w by (auto simp: readFull_def split: prod.splits sum.splits list.splits)
  show u: "readUint z s \<noteq> (Inl EOL, t)" for z s t
    using b f by (auto simp: readUint_def split: prod.splits sum.splits)
  show l: "readLongSize k z s \<noteq> ((k', sz, Some EOL), t)" for k z s k' sz t
    using u by (auto simp: readLongSize_def split: prod.splits sum.splits if_splits)
  show "readKind s \<noteq> ((k', sz, Some EOL), t)"
    using b l by (auto simp: readKind_def Let_def split: prod.splits sum.splits if_splits)
qed

lemma stream_Kind_EOL:
  "stream_Kind s = (Inl EOL, t) \<Longrightarrow> skind s = None \<Longrightarrow> t = s \<and> listLimit s = Some 0"
  using not_EOL(6) [of s]
  by (auto simp: stream_Kind_def Let_def split: prod.splits option.splits if_splits)

lemma stream_Bytes_not_EOL:
  "skind s = Some k \<Longrightarrow> kinderr s = None \<Longrightarrow> stream_Bytes s \<noteq> (Inl EOL, t)"
  using not_EOL(3) [of "ssize s" s]
  by (auto simp: stream_Bytes_def stream_Kind_cached split: Kind.splits prod.splits sum.splits if_splits)

lemma stream_List_cached:
  "skind s = Some KList \<Longrightarrow> kinderr s = None \<Longrightarrow>
   stream_List s = (Inr (ssize s), s\<lparr>stack := ssize s # adv (ssize s) (stack s), skind := None, ssize := 0\<rparr>)"
  by (simp add: stream_List_def stream_Kind_cached adv_def)

lemma ListEnd_sound: "ListEnd s = (r, t) \<Longrightarrow> r \<noteq> Inl EOL"
  by (auto simp: ListEnd_def split: list.splits if_splits)

lemma decodeSliceElems_not_EOL: "decodeSliceElems f s \<noteq> Some (Inl EOL, t)"
  by (induction f arbitrary: s t)
    (auto split: prod.splits sum.splits option.splits if_splits)

lemma decodeInterface_EOL:
  assumes "decodeInterface f s = Some (Inl EOL, t)" "skind s = None"
  shows "t = s \<and> listLimit s = Some 0"
proof (cases f)
  case (Suc g)
  show ?thesis
  proof (cases "stream_Kind s")
    case (Pair r s1)
    show ?thesis
    proof (cases r)
      case (Inl e)
      with Pair Suc assms show ?thesis using stream_Kind_EOL [of s t] by auto
    next
      case (Inr q)
      obtain k sz where q: "q = (k, sz)" by (cases q)
      note ks = stream_Kind_sound [OF Pair [unfolded Inr q] assms(2)]
      have False
        using assms(1) Suc Pair Inr q ks(3-5) stream_Bytes_not_EOL [of s1 k t] decodeSliceElems_not_EOL [of g]
        by (auto simp: stream_List_cached split: if_splits prod.splits sum.splits option.splits
            dest!: ListEnd_sound)
      then show ?thesis ..
    qed
  qed
qed (use assms in simp)

text \<open>Entering a list, reading its elements and leaving it consumes header and payload.\<close>

lemma list_sound:
  assumes k: "stream_Kind s = (Inr (KList, sz), s1)" "skind s = None"
    and l: "stream_List s1 = (Inr sz', s2)"
    and c: "consumes s2 payload s3" and len: "length (inp s) < 2 ^ 64"
    and e: "ListEnd s3 = (Inr u, s4)"
  shows "consumes s (puthead 0xC0 0xF7 (length payload) @ payload) s4 \<and> skind s4 = None"
proof -
  note ks = stream_Kind_sound [OF k]
  have s2: "s2 = s1\<lparr>stack := sz # adv sz (stack s1), skind := None, ssize := 0\<rparr>"
    using l stream_List_cached [of s1] ks(3-5) by auto
  have st3: "stack s3 = (sz - word_of_nat (length payload)) # adv sz (stack s1)"
    using c s2 by (simp add: consumes_def adv_def)
  then have z: "sz = word_of_nat (length payload)"
    and s4: "s4 = s3\<lparr>stack := adv sz (stack s1), skind := None, ssize := 0\<rparr>"
    using e by (auto simp: ListEnd_def word_greater_zero_iff split: if_splits)
  have "length payload < 2 ^ 64" using c ks(1) s2 len by (auto simp: consumes_def)
  then have "unat sz = length payload" using z by (simp add: unat_word_of_nat_u64)
  moreover have "consumes s1 payload s4" using c s2 s4 z by (simp add: consumes_def)
  ultimately show ?thesis using consumes_trans [OF ks(1)] s4 by (simp add: hdr_def)
qed

lemma decodeInterface_sound:
  "decodeInterface f s = Some (Inr x, s') \<Longrightarrow> skind s = None \<Longrightarrow> length (inp s) < 2 ^ 64 \<Longrightarrow>
   consumes s (encode x) s' \<and> skind s' = None"
  "decodeSliceElems f s = Some (Inr xs, s') \<Longrightarrow> skind s = None \<Longrightarrow> length (inp s) < 2 ^ 64 \<Longrightarrow>
   consumes s (concat (map encode xs)) s' \<and> skind s' = None"
proof (induction f s and f s arbitrary: x s' and xs s' rule: decodeInterface_decodeSliceElems.induct)
  case (2 f s)
  obtain k sz s1 where k: "stream_Kind s = (Inr (k, sz), s1)"
    using "2.prems"(1) by (auto split: prod.splits sum.splits)
  note ks = stream_Kind_sound [OF k "2.prems"(2)]
  show ?case
  proof (cases "k = KList")
    case False
    then obtain b where b: "stream_Bytes s1 = (Inr b, s')" and x: "x = Str b"
      using "2.prems"(1) k by (auto split: prod.splits sum.splits)
    show ?thesis using stream_Bytes_sound [OF k "2.prems"(2) b] x by simp
  next
    case True
    let ?s2 = "s1\<lparr>stack := sz # adv sz (stack s1), skind := None, ssize := 0\<rparr>"
    have l: "stream_List s1 = (Inr sz, ?s2)" using stream_List_cached [of s1] ks(3-5) True by simp
    obtain xs s3 u where el: "(if sz = 0 then Some (Inr [], ?s2) else decodeSliceElems f ?s2) = Some (Inr xs, s3)"
      and e: "ListEnd s3 = (Inr u, s')" and x: "x = Lst xs"
      using "2.prems"(1) k l True by (auto split: prod.splits sum.splits option.splits)
    have "length (inp ?s2) < 2 ^ 64" using ks(1) "2.prems"(3) by (auto simp: consumes_def)
    then have "consumes ?s2 (concat (map encode xs)) s3"
    proof (cases "sz = 0")
      case True
      then show ?thesis using el by (auto simp: consumes_def)
    next
      case False
      then show ?thesis using "2.IH" [OF k [symmetric] refl refl True l [symmetric] refl False] el
          \<open>length (inp ?s2) < 2 ^ 64\<close> by auto
    qed
    from list_sound [OF k [unfolded True] "2.prems"(2) l this "2.prems"(3) e] x show ?thesis
      by (simp add: Let_def)
  qed
next
  case (4 f s)
  show ?case
  proof (cases "\<exists>s1. decodeInterface f s = Some (Inl EOL, s1)")
    case True
    then obtain s1 where i: "decodeInterface f s = Some (Inl EOL, s1)" ..
    with "4.prems" have "xs = []" "s' = s" using decodeInterface_EOL [OF i] by auto
    then show ?thesis using "4.prems"(2) by (simp add: consumes_def)
  next
    case False
    then obtain y s1 ys where i: "decodeInterface f s = Some (Inr y, s1)"
      and r: "decodeSliceElems f s1 = Some (Inr ys, s')" and xs: "xs = y # ys"
      using "4.prems"(1) by (auto split: prod.splits sum.splits option.splits if_splits)
    have 1: "consumes s (encode y) s1" "skind s1 = None"
      using "4.IH"(1) [OF i "4.prems"(2,3)] by auto
    then have "length (inp s1) < 2 ^ 64" using "4.prems"(3) by (auto simp: consumes_def)
    with "4.IH"(2) [OF i refl refl r] 1(2) consumes_trans [OF 1(1)] xs show ?thesis by simp
  qed
qed simp_all

subsection \<open>Completeness of the interface decoder\<close>

lemma readLongSize_complete:
  assumes "avail (length (putint n)) s" "inp s = putint n @ rest" "56 \<le> n" "n < 2 ^ 64"
  shows "\<exists>s'. readLongSize k (word_of_nat (length (putint n))) s = ((k, word_of_nat n, None), s')"
  using readUint_complete [OF assms(1,2) _ assms(4)] assms(3,4)
  by (auto simp: readLongSize_def word_less_nat_alt unat_word_of_nat_u64)

lemma tag_bytes:
  "n < 56 \<Longrightarrow> unat (0x80 + word_of_nat n :: byte) = 0x80 + n"
  "n < 56 \<Longrightarrow> unat (0xC0 + word_of_nat n :: byte) = 0xC0 + n"
  "n \<le> 8 \<Longrightarrow> unat (0xB7 + word_of_nat n :: byte) = 0xB7 + n"
  "n \<le> 8 \<Longrightarrow> unat (0xF7 + word_of_nat n :: byte) = 0xF7 + n"
  by (simp_all add: unat_word_ariths unat_word_of_nat_byte)

lemma readKind_small:
  assumes "readByte s = (Inr b, s1)" "n < 56"
  shows "b = 0x80 + word_of_nat n \<Longrightarrow> readKind s = ((KString, word_of_nat n, None), s1\<lparr>byteval := 0\<rparr>)"
    "b = 0xC0 + word_of_nat n \<Longrightarrow> readKind s = ((KList, word_of_nat n, None), s1\<lparr>byteval := 0\<rparr>)"
  using assms tag_bytes(1,2) [OF assms(2)]
  by (auto simp: readKind_def Let_def word_less_nat_alt unat_word_of_nat_byte simp del: of_nat_unat)

lemma readKind_long:
  assumes "readByte s = (Inr b, s1)" "1 \<le> m" "m \<le> 8"
  shows "b = 0xB7 + word_of_nat m \<Longrightarrow> readKind s = readLongSize KString (word_of_nat m) (s1\<lparr>byteval := 0\<rparr>)"
    "b = 0xF7 + word_of_nat m \<Longrightarrow> readKind s = readLongSize KList (word_of_nat m) (s1\<lparr>byteval := 0\<rparr>)"
  using assms tag_bytes(3,4) [OF assms(3)] by (auto simp: readKind_def Let_def word_less_nat_alt)

lemma readKind_complete:
  assumes "avail (length (hdr k v sz)) s" "inp s = hdr k v sz @ rest"
    and "k = KByte \<Longrightarrow> v < 0x80 \<and> sz = 0"
  shows "\<exists>s'. readKind s = ((k, sz, None), s') \<and> (k = KByte \<longrightarrow> byteval s' = v)"
proof -
  obtain b bs where h: "hdr k v sz = b # bs"
    by (cases "hdr k v sz") (auto simp: hdr_def puthead_def Let_def split: Kind.splits if_splits)
  then have i: "inp s = b # bs @ rest" using assms(2) by simp
  obtain s1 where b: "readByte s = (Inr b, s1)"
    using readByte_complete [of "length bs" s b "bs @ rest"] assms(1) h i by auto
  let ?s2 = "s1\<lparr>byteval := 0\<rparr>"
  have c: "consumes s [b] ?s2" using readByte_sound(1) [OF b] by simp
  have a2: "avail (length bs) ?s2" using avail_consumes [of "[b]" "length bs" s ?s2] c assms(1) h by simp
  have i2: "inp ?s2 = bs @ rest" using c i by (simp add: consumes_def)
  show ?thesis
  proof (cases "k = KByte")
    case True
    then show ?thesis using assms(3) b h by (auto simp: readKind_def Let_def hdr_def)
  next
    case notbyte: False
    show ?thesis
    proof (cases "unat sz < 56")
      case True
      then have "readKind s = ((k, word_of_nat (unat sz), None), ?s2)"
        using h notbyte readKind_small [OF b True] by (cases k) (auto simp: hdr_def puthead_def)
      then show ?thesis using notbyte by simp
    next
      case False
      then have "bs = putint (unat sz)"
        using h notbyte by (cases k) (auto simp: hdr_def puthead_def Let_def)
      with readLongSize_complete [of "unat sz" ?s2 rest k] a2 i2 False unat_u64_less [of sz]
      obtain s3 where "readLongSize k (word_of_nat (length (putint (unat sz)))) ?s2
          = ((k, word_of_nat (unat sz), None), s3)" by auto
      then have "readKind s = ((k, word_of_nat (unat sz), None), s3)"
        using h notbyte False readKind_long [OF b length_putint(1) length_putint(2), of "unat sz"]
        by (cases k) (auto simp: hdr_def puthead_def Let_def)
      then show ?thesis using notbyte by simp
    qed
  qed
qed

lemma stream_Kind_complete:
  assumes "avail (length (hdr k v sz) + unat sz) s" "inp s = hdr k v sz @ rest" "skind s = None"
    and "k = KByte \<Longrightarrow> v < 0x80 \<and> sz = 0"
  shows "\<exists>s'. stream_Kind s = (Inr (k, sz), s') \<and> (k = KByte \<longrightarrow> byteval s' = v)"
proof -
  have "avail (length (hdr k v sz)) s" using assms(1) by (rule avail_mono) simp
  then obtain s1 where r: "readKind s = ((k, sz, None), s1)" and v: "k = KByte \<longrightarrow> byteval s1 = v"
    using readKind_complete [of k v sz s rest] assms(2,4) by blast
  have ne: "0 < length (hdr k v sz)" by (auto simp: hdr_def puthead_def Let_def split: Kind.splits)
  have lim: "listLimit s \<noteq> Some 0" "\<And>l. listLimit s = Some l \<Longrightarrow> \<not> l < sz"
    using assms(1) ne by (auto simp: listLimit_def avail_def word_less_nat_alt split: list.splits)
  have "consumes s (hdr k v sz) s1" using readKind_sound [OF r] v by (auto simp: hdr_def split: Kind.splits)
  then have "avail (unat sz) s1" by (rule avail_consumes [OF assms(1)])
  then have "\<not> (limited s1 \<and> remaining s1 < sz)" by (auto simp: avail_def word_less_nat_alt)
  with lim r v assms(3) show ?thesis
    by (auto simp: stream_Kind_def Let_def split: option.splits)
qed

lemma encode_nonempty: "1 \<le> length (encode x)"
  by (cases x) (auto simp: encode_bytes_def puthead_def Let_def Suc_le_eq)

lemma encode_not_Nil [simp]: "encode x \<noteq> []"
  using encode_nonempty [of x] by auto

text \<open>\<open>decodes x\<close>: with enough fuel, the decoder reads the encoding of \<open>x\<close> wherever it may stand.\<close>

definition ahead :: "byte list \<Rightarrow> byte list \<Rightarrow> Stream \<Rightarrow> bool" where
  "ahead bs rest s \<longleftrightarrow> avail (length bs) s \<and> inp s = bs @ rest \<and> skind s = None \<and> length (inp s) < 2 ^ 64"

definition decodes :: "item \<Rightarrow> bool" where
  "decodes x \<longleftrightarrow>
     (\<forall>f s rest. ahead (encode x) rest s \<longrightarrow> 2 * length (encode x) < f \<longrightarrow>
        (\<exists>s'. decodeInterface f s = Some (Inr x, s')))"

lemma decodeSliceElems_complete:
  assumes "\<forall>x \<in> set xs. decodes x" "ahead (concat (map encode xs)) rest s"
    and "stack s = word_of_nat (length (concat (map encode xs))) # st"
    and "2 * length (concat (map encode xs)) + 2 \<le> f"
  shows "\<exists>s'. decodeSliceElems f s = Some (Inr xs, s')"
  using assms
proof (induction xs arbitrary: f s)
  case Nil
  then obtain g where "f = Suc (Suc g)" by (cases f; cases "f - 1") auto
  moreover have "stream_Kind s = (Inl EOL, s)"
    using Nil by (simp add: stream_Kind_def listLimit_def ahead_def)
  ultimately show ?case by auto
next
  case (Cons y ys)
  from Cons.prems(4) obtain g where f: "f = Suc g" by (cases f) auto
  have a: "avail (length (encode y) + length (concat (map encode ys))) s" "skind s = None"
    and i: "inp s = encode y @ concat (map encode ys) @ rest" "length (inp s) < 2 ^ 64"
    using Cons.prems(2) by (auto simp: ahead_def)
  have "ahead (encode y) (concat (map encode ys) @ rest) s"
    unfolding ahead_def using i a avail_mono [OF a(1)] by simp
  moreover have g: "2 * length (encode y) < g" "2 * length (concat (map encode ys)) + 2 \<le> g"
    using Cons.prems(4) f encode_nonempty [of y] by auto
  ultimately obtain s1 where d: "decodeInterface g s = Some (Inr y, s1)"
    using Cons.prems(1) unfolding decodes_def by (metis list.set_intros(1))
  have c: "consumes s (encode y) s1" "skind s1 = None"
    using decodeInterface_sound(1) [OF d a(2) i(2)] by auto
  have "ahead (concat (map encode ys)) rest s1"
    using avail_consumes [OF a(1) c(1)] c i by (auto simp: ahead_def consumes_def)
  moreover have "stack s1 = word_of_nat (length (concat (map encode ys))) # st"
    using c Cons.prems(3) by (auto simp: consumes_def adv_def)
  ultimately obtain s2 where "decodeSliceElems g s1 = Some (Inr ys, s2)"
    using Cons.IH [of s1 g] Cons.prems(1) g(2) by auto
  with d f show ?case by simp
qed

text \<open>What \<^verbatim>\<open>Kind\<close> sees at the start of an encoded string.\<close>

lemma Kind_Str_complete:
  assumes "ahead (encode (Str b)) rest s"
  shows "\<exists>k sz s1. stream_Kind s = (Inr (k, sz), s1) \<and> stream_Kind s1 = (Inr (k, sz), s1) \<and>
    (k = KByte \<and> b = [byteval s1] \<and> byteval s1 < 0x80 \<or>
     k = KString \<and> sz = word_of_nat (length b) \<and> unat sz = length b \<and> \<not> (length b = 1 \<and> hd b < 128) \<and>
       avail (length b) s1 \<and> inp s1 = b @ rest \<and> (\<exists>s2. readFull sz s1 = (Inr b, s2)))"
proof -
  have P: "avail (length (encode (Str b))) s" "inp s = encode (Str b) @ rest" "skind s = None"
    "length (inp s) < 2 ^ 64" using assms by (auto simp: ahead_def)
  define k where "k = (if length b = 1 \<and> hd b \<le> 0x7F then KByte else KString)"
  define sz :: u64 where "sz = (if k = KByte then 0 else word_of_nat (length b))"
  have lb: "length b < 2 ^ 64" using P(2,4) by (auto simp: encode_bytes_def split: if_splits)
  then have usz: "k = KString \<Longrightarrow> unat sz = length b" by (simp add: sz_def unat_word_of_nat_u64)
  have e: "encode (Str b) = hdr k (hd b) sz @ (if k = KByte then [] else b)"
    using usz by (cases b) (auto simp: k_def encode_bytes_def hdr_def split: if_splits)
  have "unat sz = length (if k = KByte then [] else b)" using usz by (auto simp: k_def sz_def)
  then have a: "avail (length (hdr k (hd b) sz) + unat sz) s" using P(1) unfolding e by simp
  have hb: "k = KByte \<Longrightarrow> hd b < 0x80" by (auto simp: k_def word_less_nat_alt word_le_nat_alt split: if_splits)
  then obtain s1 where s1: "stream_Kind s = (Inr (k, sz), s1)" "k = KByte \<longrightarrow> byteval s1 = hd b"
    using stream_Kind_complete [OF a _ P(3)] P(2) e by (auto simp: sz_def)
  note ks = stream_Kind_sound [OF s1(1) P(3)]
  have k2: "stream_Kind s1 = (Inr (k, sz), s1)" using ks by (simp add: stream_Kind_cached)
  have c: "consumes s (hdr k (hd b) sz) s1" using ks(1) s1(2) by (auto simp: hdr_def split: Kind.splits)
  show ?thesis
  proof (cases "k = KByte")
    case True
    then have "b = [hd b]" by (cases b) (auto simp: k_def split: if_splits)
    then show ?thesis using True s1 k2 hb by auto
  next
    case False
    then have k: "k = KString" and n1: "\<not> (length b = 1 \<and> hd b < 128)"
      by (auto simp: k_def word_less_nat_alt word_le_nat_alt split: if_splits)
    have av: "avail (length b) s1" "inp s1 = b @ rest"
      using avail_consumes [OF a c] usz [OF k] c P(2) e False by (auto simp: consumes_def)
    then have "\<exists>s2. readFull sz s1 = (Inr b, s2)" using readFull_complete [OF av] k by (simp add: sz_def)
    then show ?thesis using k s1 k2 n1 av usz sz_def by auto
  qed
qed

lemma decodes_Str: "decodes (Str b)"
  unfolding decodes_def
proof (intro allI impI)
  fix f s rest
  assume a: "ahead (encode (Str b)) rest s" and "2 * length (encode (Str b)) < f"
  then obtain g where f: "f = Suc g" by (cases f) auto
  have "unat sz = length b \<Longrightarrow> sz = 1 \<Longrightarrow> length b = 1" for sz :: u64 by simp
  then show "\<exists>s'. decodeInterface f s = Some (Inr (Str b), s')"
    using Kind_Str_complete [OF a] f by (fastforce simp: stream_Bytes_def)
qed

lemma decodes_Lst:
  assumes "\<forall>x \<in> set xs. decodes x"
  shows "decodes (Lst xs)"
  unfolding decodes_def
proof (intro allI impI)
  fix f s rest
  define payload where "payload = concat (map encode xs)"
  define sz :: u64 where "sz = word_of_nat (length payload)"
  assume h: "ahead (encode (Lst xs)) rest s" and f: "2 * length (encode (Lst xs)) < f"
  then have lp: "length payload < 2 ^ 64" by (auto simp: ahead_def avail_def payload_def Let_def)
  then have usz: "unat sz = length payload" by (simp add: sz_def unat_word_of_nat_u64)
  then have e: "encode (Lst xs) = hdr KList 0 sz @ payload" by (simp add: hdr_def payload_def Let_def)
  from f obtain g where g: "f = Suc g" by (cases f) auto
  have ne: "1 \<le> length (hdr KList 0 sz)" by (simp add: hdr_def puthead_def Let_def)
  have a: "avail (length (hdr KList 0 sz) + unat sz) s" "inp s = hdr KList 0 sz @ payload @ rest"
    "skind s = None" "length (inp s) < 2 ^ 64"
    using h usz unfolding e ahead_def by auto
  obtain s1 where s1: "stream_Kind s = (Inr (KList, sz), s1)" using stream_Kind_complete [OF a(1-3)] by auto
  note ks = stream_Kind_sound [OF s1 a(3)]
  let ?s2 = "s1\<lparr>stack := sz # adv sz (stack s1), skind := None, ssize := 0\<rparr>"
  have l: "stream_List s1 = (Inr sz, ?s2)" using stream_List_cached [of s1] ks(3-5) by simp
  have c: "consumes s (hdr KList 0 sz) s1" using ks(1) by (simp add: hdr_def)
  have av: "avail (length payload) s1" using avail_consumes [OF a(1) c] usz by simp
  have i1: "inp s1 = payload @ rest" using c a(2) by (simp add: consumes_def)
  moreover have "length (inp s1) < 2 ^ 64" using a(2,4) i1 by simp
  ultimately have ah: "ahead payload rest ?s2" using av usz by (simp add: ahead_def avail_def)
  have "\<exists>s3. (if sz = 0 then Some (Inr [], ?s2) else decodeSliceElems g ?s2) = Some (Inr xs, s3)"
  proof (cases "sz = 0")
    case True
    then have "payload = []" using usz by simp
    then have "xs = []" by (cases xs) (auto simp: payload_def)
    with True show ?thesis by simp
  next
    case False
    have "2 * length payload + 2 \<le> g" using f g ne unfolding e by simp
    with False decodeSliceElems_complete [OF assms, of rest ?s2 "adv sz (stack s1)" g] ah show ?thesis
      by (auto simp: payload_def sz_def)
  qed
  then obtain s3 where s3: "(if sz = 0 then Some (Inr [], ?s2) else decodeSliceElems g ?s2) = Some (Inr xs, s3)" ..
  then have "consumes ?s2 payload s3"
    using decodeInterface_sound(2) [of g ?s2 xs s3] ah
    by (auto simp: ahead_def payload_def consumes_def split: if_splits)
  then have "stack s3 = 0 # adv sz (stack s1)" by (simp add: consumes_def adv_def sz_def)
  then have "\<exists>s4. ListEnd s3 = (Inr (), s4)" by (simp add: ListEnd_def)
  with s3 l s1 g show "\<exists>s'. decodeInterface f s = Some (Inr (Lst xs), s')" by auto
qed

lemma decodeInterface_complete: "decodes x"
  by (induction x) (simp_all add: decodes_Str decodes_Lst)

subsection \<open>Termination on every input\<close>

definition potential :: "Stream \<Rightarrow> nat" where
  "potential s = 2 * length (inp s) + (if skind s = None then 0 else 2)"

lemma read_shrinks:
  "willRead n s = (r, t) \<Longrightarrow> inp t = inp s"
  "readByte s = (r', t) \<Longrightarrow> length (inp t) \<le> length (inp s)"
  "readByte s = (Inr b, t) \<Longrightarrow> length (inp t) < length (inp s)"
  "readFull n s = (r'', t) \<Longrightarrow> length (inp t) \<le> length (inp s)"
proof -
  show w: "willRead n s = (r, t) \<Longrightarrow> inp t = inp s" for n s r t
    by (auto simp: willRead_def willRead_limited_def Let_def split: list.splits if_splits)
  show "readByte s = (r', t) \<Longrightarrow> length (inp t) \<le> length (inp s)"
    by (auto simp: readByte_def split: prod.splits sum.splits list.splits dest!: w)
  show "readByte s = (Inr b, t) \<Longrightarrow> length (inp t) < length (inp s)"
    by (auto simp: readByte_def split: prod.splits sum.splits list.splits dest!: w)
  show "readFull n s = (r'', t) \<Longrightarrow> length (inp t) \<le> length (inp s)"
    by (auto simp: readFull_def split: prod.splits sum.splits if_splits dest!: w)
qed

lemma stream_Kind_potential:
  assumes "stream_Kind s = (Inr (k, sz), t)"
  shows "potential t \<le> potential s" "skind t = Some k" "kinderr t = None" "ssize t = sz"
proof -
  have "potential t \<le> potential s \<and> skind t = Some k \<and> kinderr t = None \<and> ssize t = sz"
  proof (cases "skind s")
    case None
    note ks = stream_Kind_sound [OF assms None]
    have "0 < length (hdr k (byteval t) sz)" by (auto simp: hdr_def puthead_def Let_def split: Kind.splits)
    then have "length (inp t) < length (inp s)" using ks(1) by (auto simp: consumes_def)
    then show ?thesis using ks None by (simp add: potential_def)
  next
    case Some
    then show ?thesis using assms by (auto simp: stream_Kind_def split: option.splits)
  qed
  then show "potential t \<le> potential s" "skind t = Some k" "kinderr t = None" "ssize t = sz" by auto
qed

lemma stream_Bytes_potential:
  assumes "stream_Bytes s = (Inr b, t)" "skind s = Some k" "kinderr s = None"
  shows "potential t + 2 \<le> potential s \<and> skind t = None"
  using assms readFull_sound(3) [of "ssize s" s b t]
  by (auto simp: stream_Bytes_def stream_Kind_cached potential_def split: Kind.splits prod.splits
      sum.splits if_splits dest!: read_shrinks(4))

lemma ListEnd_potential: "ListEnd s = (Inr u, t) \<Longrightarrow> potential t \<le> potential s \<and> skind t = None"
  by (auto simp: ListEnd_def potential_def split: list.splits if_splits)

lemma decodeInterface_potential:
  "decodeInterface f s = Some (Inr x, s') \<Longrightarrow> potential s' + 2 \<le> potential s \<and> skind s' = None"
  "decodeSliceElems f s = Some (Inr xs, s') \<Longrightarrow> skind s = None \<Longrightarrow> potential s' \<le> potential s"
proof (induction f s and f s arbitrary: x s' and xs s' rule: decodeInterface_decodeSliceElems.induct)
  case (2 f s)
  obtain k sz s1 where k: "stream_Kind s = (Inr (k, sz), s1)"
    using "2.prems"(1) by (auto split: prod.splits sum.splits)
  note ks = stream_Kind_potential [OF k]
  show ?case
  proof (cases "k = KList")
    case False
    then show ?thesis using "2.prems" k ks stream_Bytes_potential [of s1]
      by (fastforce split: prod.splits sum.splits)
  next
    case True
    let ?s2 = "s1\<lparr>stack := sz # adv sz (stack s1), skind := None, ssize := 0\<rparr>"
    have l: "stream_List s1 = (Inr sz, ?s2)" using stream_List_cached [of s1] ks(2-4) True by simp
    obtain ys s3 u where el: "(if sz = 0 then Some (Inr [], ?s2) else decodeSliceElems f ?s2) = Some (Inr ys, s3)"
      and e: "ListEnd s3 = (Inr u, s')"
      using "2.prems"(1) k l True by (auto split: prod.splits sum.splits option.splits)
    have "potential s3 \<le> potential ?s2"
      using "2.IH" [OF k [symmetric] refl refl True l [symmetric] refl] el by (auto split: if_splits)
    then show ?thesis using ks ListEnd_potential [OF e] by (simp add: potential_def)
  qed
next
  case (4 f s)
  show ?case
  proof (cases "\<exists>s1. decodeInterface f s = Some (Inl EOL, s1)")
    case True
    then show ?thesis using "4.prems" decodeInterface_EOL [of f s] by auto
  next
    case False
    then obtain y s1 ys where i: "decodeInterface f s = Some (Inr y, s1)"
      and r: "decodeSliceElems f s1 = Some (Inr ys, s')"
      using "4.prems"(1) by (auto split: prod.splits sum.splits option.splits if_splits)
    then show ?thesis using "4.IH"(1) [OF i] "4.IH"(2) [OF i refl refl r] by linarith
  qed
qed simp_all

lemma decodeInterface_fuel:
  "potential s < f \<Longrightarrow> decodeInterface f s \<noteq> None"
  "potential s + 1 < f \<Longrightarrow> skind s = None \<Longrightarrow> decodeSliceElems f s \<noteq> None"
proof (induction f arbitrary: s)
  case (Suc f)
  { case 1
    show ?case
    proof (cases "stream_Kind s")
      case (Pair r s1)
      show ?thesis
      proof (cases r)
        case (Inr q)
        obtain k sz where q: "q = (k, sz)" by (cases q)
        note ks = stream_Kind_potential [OF Pair [unfolded Inr q]]
        have "k = KList \<Longrightarrow> decodeSliceElems f (s1\<lparr>stack := sz # adv sz (stack s1), skind := None, ssize := 0\<rparr>) \<noteq> None"
          using Suc.IH(2) ks 1 by (simp add: potential_def)
        then show ?thesis using Pair Inr q ks(2-4)
          by (auto simp: stream_List_cached split: prod.splits sum.splits option.splits)
      qed (use Pair in simp)
    qed
  next
    case 2
    then have "decodeInterface f s \<noteq> None" using Suc.IH(1) by simp
    moreover have "decodeInterface f s = Some (Inr x, s1) \<Longrightarrow> decodeSliceElems f s1 \<noteq> None" for x s1
      using decodeInterface_potential(1) [of f s x s1] Suc.IH(2) [of s1] 2 by auto
    ultimately show ?case by (auto split: prod.splits sum.splits option.splits) }
qed simp_all

lemma stream_Reset_simps [simp]:
  "inp (stream_Reset b n) = b" "skind (stream_Reset b n) = None" "stack (stream_Reset b n) = []"
  by (simp_all add: stream_Reset_def)

subsection \<open>Whole inputs\<close>

lemma DecodeBytes_total: "\<exists>r. DecodeBytes b = Some r"
proof -
  have "potential (stream_Reset b (word_of_nat (length b))) < 2 * length b + 1"
    by (simp add: potential_def)
  from decodeInterface_fuel(1) [OF this] show ?thesis
    by (auto simp: DecodeBytes_def split: prod.splits sum.splits)
qed

lemma ahead_Reset:
  assumes "b = bs @ rest" "length b < 2 ^ 64"
  shows "ahead bs rest (stream_Reset b (word_of_nat (length b)))"
proof -
  have "remaining (stream_Reset b (word_of_nat (length b))) = word_of_nat (length b)"
    by (simp add: stream_Reset_def)
  then have "unat (remaining (stream_Reset b (word_of_nat (length b)))) = length b"
    using unat_word_of_nat_u64 [OF assms(2)] by (simp only:)
  then show ?thesis using assms by (simp add: ahead_def avail_def)
qed

lemma decodesD:
  "ahead (encode x) rest s \<Longrightarrow> 2 * length (encode x) < f \<Longrightarrow> \<exists>s'. decodeInterface f s = Some (Inr x, s')"
  using decodeInterface_complete [of x] unfolding decodes_def by blast

lemma encode_prefix_free:
  assumes "encode x @ r = encode y @ r'" "length (encode x @ r) < 2 ^ 64"
  shows "x = y"
proof -
  define b where "b = encode x @ r"
  have b: "length b < 2 ^ 64" "b = encode y @ r'" using assms by (auto simp: b_def)
  have "2 * length (encode x) < 2 * length b + 1" "2 * length (encode y) < 2 * length b + 1"
    using arg_cong [OF b(2), of length] by (auto simp: b_def)
  then show ?thesis
    using decodesD [OF ahead_Reset [OF b_def b(1)]] decodesD [OF ahead_Reset [OF b(2,1)]] by fastforce
qed

lemma DecodeBytes_encode:
  assumes "length (encode x) < 2 ^ 64"
  shows "DecodeBytes (encode x) = Some (Inr x)"
proof -
  let ?s = "stream_Reset (encode x) (word_of_nat (length (encode x)))"
  obtain s' where d: "decodeInterface (2 * length (encode x) + 1) ?s = Some (Inr x, s')"
    using decodesD [OF ahead_Reset [OF append_Nil2 [symmetric] assms]] by fastforce
  have "consumes ?s (encode x) s'" using decodeInterface_sound(1) [OF d] assms by simp
  then have "inp s' = []" by (simp add: consumes_def)
  with d show ?thesis by (simp add: DecodeBytes_def)
qed

lemma DecodeBytes_canonical:
  assumes "DecodeBytes b = Some (Inr x)" "length b < 2 ^ 64"
  shows "b = encode x"
proof -
  obtain s' where d: "decodeInterface (2 * length b + 1) (stream_Reset b (word_of_nat (length b))) = Some (Inr x, s')"
    and e: "inp s' = []"
    using assms(1) by (auto simp: DecodeBytes_def split: option.splits prod.splits sum.splits if_splits)
  from decodeInterface_sound(1) [OF d] assms(2) e show ?thesis by (simp add: consumes_def)
qed

lemma encode_inject:
  assumes "encode x = encode y" "length (encode x) < 2 ^ 64"
  shows "x = y"
proof -
  have "Some (Inr x :: rlp_error + item) = Some (Inr y)"
    using DecodeBytes_encode [OF assms(2)] DecodeBytes_encode [OF assms(2) [unfolded assms(1)]]
    unfolding assms(1) by (rule trans [OF sym])
  then show ?thesis by simp
qed

subsection \<open>Slices\<close>

lemma readSize_putint:
  assumes "56 \<le> n" "n < 2 ^ 64"
  shows "readSize (putint n @ rest) (length (putint n)) = Inr n"
proof -
  have "putint n = be_bytes n" using assms by (simp add: putint_eq)
  moreover have "hd (be_bytes n) \<noteq> 0" "be_bytes n \<noteq> []" using assms hd_be_bytes_nonzero by auto
  ultimately show ?thesis using assms by (simp add: readSize_def Let_def hd_append)
qed

definition tag_split :: "item \<Rightarrow> Kind \<times> byte list \<times> byte list" where
  "tag_split x =
     (case x of
        Str b \<Rightarrow> if length b = 1 \<and> hd b \<le> 0x7F then (KByte, [], b)
                 else (KString, puthead 0x80 0xB7 (length b), b)
      | Lst xs \<Rightarrow> (let p = concat (map encode xs) in (KList, puthead 0xC0 0xF7 (length p), p)))"

lemma tag_split_encode: "tag_split x = (k, tag, content) \<Longrightarrow> encode x = tag @ content"
  by (auto simp: tag_split_def encode_bytes_def Let_def split: item.splits if_splits)

lemma raw_readKind_tag:
  fixes b :: byte
  shows "unat b = 0x80 + n \<Longrightarrow> n < 56 \<Longrightarrow> n \<le> length bs \<Longrightarrow> \<not> (n = 1 \<and> hd bs < 128) \<Longrightarrow>
      raw_readKind (b # bs) = Inr (KString, 1, n)"
    and "unat b = 0xC0 + n \<Longrightarrow> n < 56 \<Longrightarrow> n \<le> length bs \<Longrightarrow> raw_readKind (b # bs) = Inr (KList, 1, n)"
    and "unat b = 0xB7 + m \<Longrightarrow> 1 \<le> m \<Longrightarrow> m \<le> 8 \<Longrightarrow> readSize bs m = Inr n \<Longrightarrow> m + n \<le> length bs \<Longrightarrow>
      raw_readKind (b # bs) = Inr (KString, m + 1, n)"
    and "unat b = 0xF7 + m \<Longrightarrow> 1 \<le> m \<Longrightarrow> readSize bs m = Inr n \<Longrightarrow> m + n \<le> length bs \<Longrightarrow>
      raw_readKind (b # bs) = Inr (KList, m + 1, n)"
  by (auto simp: raw_readKind_def Let_def word_less_nat_alt word_le_nat_alt unat_sub hd_conv_nth)

lemma raw_readKind_puthead:
  assumes "length content < 2 ^ 64"
  shows "\<not> (length content = 1 \<and> hd content \<le> 0x7F) \<Longrightarrow>
      raw_readKind (puthead 0x80 0xB7 (length content) @ content @ rest)
        = Inr (KString, headsize (length content), length content)"
    and "raw_readKind (puthead 0xC0 0xF7 (length content) @ content @ rest)
        = Inr (KList, headsize (length content), length content)"
proof -
  define n where "n = length content"
  note p8 = length_putint [of n]
  have hs: "headsize n = (if n < 56 then 1 else length (putint n) + 1)"
    using assms by (simp add: headsize_def n_def intsize_putint)
  have rs: "56 \<le> n \<Longrightarrow> readSize (putint n @ content @ rest) (length (putint n)) = Inr n"
    using readSize_putint assms by (simp add: n_def)
  { assume nb: "\<not> (length content = 1 \<and> hd content \<le> 0x7F)"
    have "\<not> (n = 1 \<and> hd (content @ rest) < 128)"
      using nb by (cases content) (auto simp: n_def word_less_nat_alt word_le_nat_alt)
    then show "raw_readKind (puthead 0x80 0xB7 (length content) @ content @ rest)
        = Inr (KString, headsize (length content), length content)"
      using raw_readKind_tag(1) [OF tag_bytes(1), of n "content @ rest"]
        raw_readKind_tag(3) [OF tag_bytes(3) [OF p8(2)] p8 rs] hs
      unfolding n_def [symmetric] by (simp add: puthead_def Let_def n_def) }
  show "raw_readKind (puthead 0xC0 0xF7 (length content) @ content @ rest)
        = Inr (KList, headsize (length content), length content)"
    using raw_readKind_tag(2) [OF tag_bytes(2), of n "content @ rest"]
      raw_readKind_tag(4) [OF tag_bytes(4) [OF p8(2)] p8(1) rs] hs
    unfolding n_def [symmetric] by (simp add: puthead_def Let_def n_def)
qed

lemma raw_readKind_encode:
  assumes "tag_split x = (k, tag, content)" "length (encode x) < 2 ^ 64"
  shows "raw_readKind (encode x @ rest) = Inr (k, length tag, length content)"
proof -
  note e = tag_split_encode [OF assms(1)]
  then have lc: "length content < 2 ^ 64" using assms(2) by simp
  show ?thesis
  proof (cases k)
    case KByte
    then obtain b where "content = [b]" "b \<le> 0x7F" "tag = []"
      using assms(1) by (cases content)
        (auto simp: tag_split_def Let_def length_Suc_conv split: item.splits if_splits)
    with KByte e show ?thesis
      by (auto simp: raw_readKind_def word_le_nat_alt word_less_nat_alt)
  next
    case KString
    then have "tag = puthead 0x80 0xB7 (length content)" "\<not> (length content = 1 \<and> hd content \<le> 0x7F)"
      using assms(1) by (auto simp: tag_split_def Let_def split: item.splits if_splits)
    with raw_readKind_puthead(1) [OF lc] e KString length_puthead [OF lc] show ?thesis by simp
  next
    case KList
    then have "tag = puthead 0xC0 0xF7 (length content)"
      using assms(1) by (auto simp: tag_split_def Let_def split: item.splits if_splits)
    with raw_readKind_puthead(2) [OF lc] e KList length_puthead [OF lc] show ?thesis by simp
  qed
qed

lemma Split_encode_aux:
  assumes "tag_split x = (k, tag, content)" "length (encode x) < 2 ^ 64"
  shows "Split (encode x @ rest) = Inr (k, content, rest)"
  using raw_readKind_encode [OF assms, of rest] tag_split_encode [OF assms(1)] by (simp add: Split_def)

lemma CountValues_from_encode:
  assumes "\<forall>x \<in> set xs. length (encode x) < 2 ^ 64"
  shows "CountValues_from i (concat (map encode xs)) = Inr (i + length xs)"
  using assms
proof (induction xs arbitrary: i)
  case Nil
  then show ?case by (simp add: CountValues_from.simps)
next
  case (Cons x xs)
  obtain k tag content where t: "tag_split x = (k, tag, content)" by (metis prod_cases3)
  note r = raw_readKind_encode [OF t, of "concat (map encode xs)"] tag_split_encode [OF t]
  with Cons encode_not_Nil [of x] show ?case by (subst CountValues_from.simps) auto
qed

subsection \<open>Properties\<close>

text \<open>
  C2: Round trip of the RLP package.  For every value whose encoding is shorter than $2^{64}$ bytes,
  decoding what \<^verbatim>\<open>EncodeToBytes\<close> writes (with its buffer of string data and deferred list heads) into an
  \<^verbatim>\<open>interface{}\<close> returns the value, with no error and no byte left over.
\<close>

theorem rlp_roundtrip:
  assumes "length (encode x) < 2 ^ 64"
  shows "DecodeBytes (EncodeToBytes x) = Some (Inr x)"
  using EncodeToBytes_encode [OF assms] DecodeBytes_encode [OF assms] by simp

theorem rlp_roundtrip_witness:
  "DecodeBytes (EncodeToBytes (Lst [Str [0x7F], Str [], Lst [Str [0x80, 2], Lst []]]))
     = Some (Inr (Lst [Str [0x7F], Str [], Lst [Str [0x80, 2], Lst []]]))"
  by (rule rlp_roundtrip) (simp add: encode_bytes_def puthead_def)

text \<open>
  C5: Canonicity.  An input (shorter than $2^{64}$ bytes) that \<^verbatim>\<open>DecodeBytes\<close> accepts is exactly what the
  encoder writes for the decoded value: sizes with leading zeros, long forms of short values, single
  bytes behind a tag and trailing bytes are all rejected.  This holds although \<^verbatim>\<open>List\<close> can wrap the limit of the
  enclosing list around.
\<close>

theorem rlp_canonical:
  assumes "DecodeBytes b = Some (Inr x)" "length b < 2 ^ 64"
  shows "EncodeToBytes x = b"
  using DecodeBytes_canonical [OF assms] EncodeToBytes_encode [of x] assms(2) by simp

theorem rlp_canonical_witness:
  "EncodeToBytes (Lst [Str [0x81], Lst []]) = [0xC3, 0x81, 0x81, 0xC0]"
proof (rule rlp_canonical)
  show "DecodeBytes [0xC3, 0x81, 0x81, 0xC0] = Some (Inr (Lst [Str [0x81], Lst []]))" by code_simp
qed simp

text \<open>
  C16: The decoder ends on every input: \<^verbatim>\<open>DecodeBytes\<close> returns a value or an error for any byte string
  (recursion depth at most twice its length plus one), including inputs whose declared sizes lie.
\<close>

theorem rlp_decode_terminates: "\<exists>r. DecodeBytes b = Some r"
  by (rule DecodeBytes_total)

text \<open>
  C15: The encoder buffer implements the recursive format.  The bytes \<^verbatim>\<open>makeBytes\<close> assembles from the
  string data and the recorded list heads are the recursive encoding, and the size it announces
  (data plus head sizes) is the length of that encoding.
\<close>

theorem rlp_buffer_refines:
  assumes "length (encode x) < 2 ^ 64"
  shows "EncodeToBytes x = encode x \<and> enc_size (enc_item x enc_reset) = length (encode x)"
  using EncodeToBytes_encode [OF assms] encode_buffer_correct(2) [OF assms] by simp

theorem rlp_buffer_refines_witness:
  "EncodeToBytes (Lst [Str [1], Lst [Str [0x80]]]) = encode (Lst [Str [1], Lst [Str [0x80]]])
   \<and> enc_size (enc_item (Lst [Str [1], Lst [Str [0x80]]]) enc_reset) = length (encode (Lst [Str [1], Lst [Str [0x80]]]))"
  by (rule rlp_buffer_refines) (simp add: encode_bytes_def puthead_def)

text \<open>
  C23: Slicing.  On a concatenation of encodings \<^verbatim>\<open>CountValues\<close> returns how many there are, and \<^verbatim>\<open>Split\<close>
  cuts the first value off: content and rest put behind the canonical tag give the input back.
\<close>

theorem rlp_split_count:
  assumes "\<forall>y \<in> set (x # xs). length (encode y) < 2 ^ 64"
  shows "CountValues (concat (map encode (x # xs))) = Inr (Suc (length xs)) \<and>
    (\<exists>k tag content. Split (concat (map encode (x # xs))) = Inr (k, content, concat (map encode xs)) \<and>
       encode x = tag @ content \<and> (k = KList \<longleftrightarrow> (\<exists>ys. x = Lst ys \<and> content = concat (map encode ys))) \<and>
       (k \<noteq> KList \<longleftrightarrow> x = Str content))"
proof -
  obtain k tag content where t: "tag_split x = (k, tag, content)" by (metis prod_cases3)
  have "Split (concat (map encode (x # xs))) = Inr (k, content, concat (map encode xs))"
    using Split_encode_aux [OF t, of "concat (map encode xs)"] assms by simp
  moreover have "(k = KList \<longleftrightarrow> (\<exists>ys. x = Lst ys \<and> content = concat (map encode ys)))"
    "(k \<noteq> KList \<longleftrightarrow> x = Str content)"
    using t by (auto simp: tag_split_def Let_def split: item.splits if_splits)
  ultimately show ?thesis
    using tag_split_encode [OF t] CountValues_from_encode [OF assms, of 0] by (auto simp: CountValues_def)
qed

theorem rlp_split_count_witness:
  "CountValues (concat (map encode [Str [0x90], Lst [Str [2]]])) = Inr 2"
  using rlp_split_count [of "Str [0x90]" "[Lst [Str [2]]]", THEN conjunct1] by (simp add: encode_bytes_def puthead_def)


end
