(* ===== verification/RLP_Struct.thy ===== *)
theory RLP_Struct
  imports RLP_Correct
begin

text \<open>
  Contracts of the typed RLP decoders.  A codec is an encoding into RLP items together with a
  decoder on streams; \<open>rlp_codec\<close> asks that the decoder accepts every encoding and nothing else.  The
  field decoders of a struct satisfy \<open>rlp_fields\<close>, and a struct is a codec when its fields are.  The
  locales are interpreted on the decoders of \<^verbatim>\<open>uint64\<close>, \<^verbatim>\<open>[]byte\<close>, \<^verbatim>\<open>*big.Int\<close> and the fixed-size byte arrays
  here, and on the structs of the chain in \<open>Chain_Types\<close>.
\<close>

definition reads :: "(Stream \<Rightarrow> 'a sres) \<Rightarrow> byte list \<Rightarrow> 'a \<Rightarrow> bool" where
  "reads dec bs x \<longleftrightarrow> (\<forall>rest s. ahead bs rest s \<longrightarrow> (\<exists>s'. dec s = (Inr x, s')))"

definition consumed :: "Stream \<Rightarrow> byte list \<Rightarrow> Stream \<Rightarrow> bool" where
  "consumed s bs s' \<longleftrightarrow> consumes s bs s' \<and> skind s' = None"

locale rlp_codec =
  fixes enc :: "'a \<Rightarrow> item" and dec :: "Stream \<Rightarrow> 'a sres"
  assumes complete: "reads dec (encode (enc x)) x"
    and sound: "dec s = (Inr x, s') \<Longrightarrow> skind s = None \<Longrightarrow> length (inp s) < 2 ^ 64 \<Longrightarrow>
      consumed s (encode (enc x)) s'"
begin

lemma DecodeBytes_to_encode:
  assumes "length (encode (enc x)) < 2 ^ 64"
  shows "DecodeBytes_to dec (EncodeToBytes (enc x)) = Inr x"
proof -
  let ?b = "encode (enc x)"
  let ?s = "stream_Reset ?b (word_of_nat (length ?b))"
  have "ahead ?b [] ?s" using assms by (intro ahead_Reset) auto
  then obtain s' where d: "dec ?s = (Inr x, s')" using complete [of x] by (auto simp: reads_def)
  have "inp s' = []" using sound [OF d] assms by (simp add: consumed_def consumes_def)
  with d show ?thesis by (simp add: DecodeBytes_to_def EncodeToBytes_encode [OF assms])
qed

lemma DecodeBytes_to_canonical:
  assumes "DecodeBytes_to dec b = Inr x" "length b < 2 ^ 64"
  shows "b = encode (enc x)"
proof -
  obtain s' where d: "dec (stream_Reset b (word_of_nat (length b))) = (Inr x, s')" and e: "inp s' = []"
    using assms(1) by (auto simp: DecodeBytes_to_def split: prod.splits sum.splits if_splits)
  show ?thesis using sound [OF d] assms(2) e by (simp add: consumed_def consumes_def)
qed

lemma DecodeBytes_to_sound:
  assumes "DecodeBytes_to dec b = Inr x" "length b < 2 ^ 64"
  shows "b = EncodeToBytes (enc x)"
  using DecodeBytes_to_canonical [OF assms] assms(2) by (simp add: EncodeToBytes_encode)

lemma enc_inject:
  assumes "EncodeToBytes (enc x) = EncodeToBytes (enc y)"
    and "length (encode (enc x)) < 2 ^ 64" "length (encode (enc y)) < 2 ^ 64"
  shows "x = y"
proof -
  have "Inr x = (Inr y :: rlp_error + 'a)"
    using DecodeBytes_to_encode [OF assms(2)] DecodeBytes_to_encode [OF assms(3)] unfolding assms(1)
    by (rule trans [OF sym])
  then show ?thesis by simp
qed

end

locale rlp_fields =
  fixes encs :: "'a \<Rightarrow> item list" and dec :: "Stream \<Rightarrow> 'a sres"
  assumes complete: "reads dec (concat (map encode (encs x))) x"
    and sound: "dec s = (Inr x, s') \<Longrightarrow> skind s = None \<Longrightarrow> length (inp s) < 2 ^ 64 \<Longrightarrow>
      consumed s (concat (map encode (encs x))) s'"

subsection \<open>Composition\<close>

lemma aheadD: "ahead bs rest s \<Longrightarrow> skind s = None" "ahead bs rest s \<Longrightarrow> length (inp s) < 2 ^ 64"
  unfolding ahead_def by blast+

lemma ahead_consumed:
  assumes "ahead (a @ b) rest s" "consumed s a s'"
  shows "ahead b rest s'"
  using assms avail_consumes [of a "length b" s s'] by (auto simp: ahead_def consumed_def consumes_def)

lemma ahead_prefix: "ahead (a @ b) rest s \<Longrightarrow> ahead a (b @ rest) s"
  by (auto simp: ahead_def intro: avail_mono)

lemma consumed_trans: "consumed s a t \<Longrightarrow> consumed t b u \<Longrightarrow> consumed s (a @ b) u"
  using consumes_trans by (auto simp: consumed_def)

lemma consumed_length: "consumed s a t \<Longrightarrow> length (inp s) < n \<Longrightarrow> length (inp t) < n"
  by (auto simp: consumed_def consumes_def)

lemma fields_end: "rlp_fields (\<lambda>u. []) structEnd"
  by unfold_locales (auto simp: reads_def structEnd_def consumed_def consumes_def)

lemma fields_field:
  assumes c: "rlp_codec e d" and f: "rlp_fields es ds"
  shows "rlp_fields (\<lambda>(x, y). e x # es y) (structField d ds)"
proof
  fix p :: "'a \<times> 'b"
  obtain x y where p: "p = (x, y)" by (cases p)
  show "reads (structField d ds) (concat (map encode (case p of (x, y) \<Rightarrow> e x # es y))) p"
    unfolding reads_def
  proof (intro allI impI)
    fix rest s assume "ahead (concat (map encode (case p of (x, y) \<Rightarrow> e x # es y))) rest s"
    then have a: "ahead (encode (e x) @ concat (map encode (es y))) rest s" using p by simp
    then obtain s1 where d: "d s = (Inr x, s1)"
      using rlp_codec.complete [OF c, of x] ahead_prefix by (fastforce simp: reads_def)
    have "consumed s (encode (e x)) s1" by (rule rlp_codec.sound [OF c d aheadD [OF a]])
    from ahead_consumed [OF a this] obtain s2 where "ds s1 = (Inr y, s2)"
      using rlp_fields.complete [OF f, of y] by (auto simp: reads_def)
    with d p show "\<exists>s'. structField d ds s = (Inr p, s')" by (simp add: structField_def)
  qed
next
  fix s s' and p :: "'a \<times> 'b"
  assume r: "structField d ds s = (Inr p, s')" and s: "skind s = None" "length (inp s) < 2 ^ 64"
  obtain x y s1 where p: "p = (x, y)" and d: "d s = (Inr x, s1)" and ds: "ds s1 = (Inr y, s')"
    using r by (auto simp: structField_def split: prod.splits sum.splits)
  have 1: "consumed s (encode (e x)) s1" by (rule rlp_codec.sound [OF c d s])
  then have "skind s1 = None" by (simp add: consumed_def)
  from rlp_fields.sound [OF f ds this consumed_length [OF 1 s(2)]] consumed_trans [OF 1] p
  show "consumed s (concat (map encode (case p of (x, y) \<Rightarrow> e x # es y))) s'" by simp
qed

text \<open>A struct: entering the list, its fields, leaving it.\<close>

lemma wrapped_Inr: "wrapped r = (Inr x, s) \<longleftrightarrow> r = (Inr x, s)"
  by (cases r) (auto simp: wrapped_def split: sum.splits)

lemma list_complete:
  assumes a: "ahead (puthead 0xC0 0xF7 (length payload) @ payload) rest s"
    and r: "reads dec payload x"
    and snd: "\<And>t t'. dec t = (Inr x, t') \<Longrightarrow> skind t = None \<Longrightarrow> length (inp t) < 2 ^ 64 \<Longrightarrow> consumed t payload t'"
  shows "\<exists>s'. decodeStruct dec s = (Inr x, s')"
proof -
  define sz :: u64 where "sz = word_of_nat (length payload)"
  have "length payload < 2 ^ 64" using a by (auto simp: ahead_def)
  then have usz: "unat sz = length payload" by (simp add: sz_def unat_word_of_nat_u64)
  then have A: "avail (length (hdr KList 0 sz) + unat sz) s" "inp s = hdr KList 0 sz @ payload @ rest"
    "skind s = None" "length (inp s) < 2 ^ 64"
    using a by (auto simp: ahead_def hdr_def)
  obtain s1 where s1: "stream_Kind s = (Inr (KList, sz), s1)" using stream_Kind_complete [OF A(1-3)] by auto
  note ks = stream_Kind_sound [OF s1 A(3)]
  let ?s2 = "s1\<lparr>stack := sz # adv sz (stack s1), skind := None, ssize := 0\<rparr>"
  have l: "stream_List s = (Inr sz, ?s2)" using s1 by (simp add: stream_List_def adv_def)
  have c: "consumes s (hdr KList 0 sz) s1" using ks(1) by (simp add: hdr_def)
  have i1: "inp s1 = payload @ rest" using c A(2) by (simp add: consumes_def)
  have ah: "ahead payload rest ?s2"
    using avail_consumes [OF A(1) c] usz i1 A(2,4) by (simp add: ahead_def avail_def)
  then obtain s3 where s3: "dec ?s2 = (Inr x, s3)" using r unfolding reads_def by blast
  have "consumed ?s2 payload s3" by (rule snd [OF s3 aheadD [OF ah]])
  then have "stack s3 = 0 # adv sz (stack s1)" by (simp add: consumed_def consumes_def adv_def sz_def)
  then show ?thesis using l s3 by (simp add: decodeStruct_def ListEnd_def wrapped_def)
qed

lemma stream_List_Kind:
  "stream_List s = (Inr n, s2) \<Longrightarrow> \<exists>s1. stream_Kind s = (Inr (KList, n), s1)"
  by (auto simp: stream_List_def Let_def split: prod.splits sum.splits if_splits)

lemma stream_Kind_idem: "stream_Kind s = (Inr q, s1) \<Longrightarrow> stream_Kind s1 = (Inr q, s1)"
  using stream_Kind_potential(2-4) [of s "fst q" "snd q" s1] by (simp add: stream_Kind_cached)

lemma codec_struct:
  assumes f: "rlp_fields es ds"
  shows "rlp_codec (\<lambda>x. Lst (es x)) (decodeStruct ds)"
proof
  fix x
  show "reads (decodeStruct ds) (encode (Lst (es x))) x"
    unfolding reads_def
    using list_complete [OF _ rlp_fields.complete [OF f] rlp_fields.sound [OF f]] by (simp add: Let_def)
next
  fix s s' x
  assume r: "decodeStruct ds s = (Inr x, s')" and s: "skind s = None" "length (inp s) < 2 ^ 64"
  obtain n s2 s3 u where l: "stream_List s = (Inr n, s2)" and d: "ds s2 = (Inr x, s3)"
    and e: "ListEnd s3 = (Inr u, s')"
    using r by (auto simp: decodeStruct_def wrapped_Inr split: prod.splits sum.splits)
  obtain s1 where k: "stream_Kind s = (Inr (KList, n), s1)" using stream_List_Kind [OF l] by blast
  have l1: "stream_List s1 = (Inr n, s2)" using l k stream_Kind_idem [OF k] by (simp add: stream_List_def)
  have s2: "skind s2 = None" "inp s2 = inp s1" using l k by (auto simp: stream_List_def Let_def)
  have "length (inp s2) < 2 ^ 64" using stream_Kind_sound(1) [OF k s(1)] s(2) s2(2) by (auto simp: consumes_def)
  from rlp_fields.sound [OF f d s2(1) this]
  have "consumes s2 (concat (map encode (es x))) s3" by (simp add: consumed_def)
  from list_sound [OF k s(1) l1 this s(2) e] show "consumed s (encode (Lst (es x))) s'"
    by (simp add: consumed_def Let_def)
qed

lemma codec_as:
  assumes c: "rlp_codec e d" and fg: "\<And>y. f (g y) = y" and gf: "\<And>x. g (f x) = x"
  shows "rlp_codec (\<lambda>y. e (g y)) (decode_as f d)"
proof
  fix y
  show "reads (decode_as f d) (encode (e (g y))) y"
    using rlp_codec.complete [OF c, of "g y"] fg by (fastforce simp: reads_def decode_as_def)
next
  fix s s' y
  assume "decode_as f d s = (Inr y, s')" and s: "skind s = None" "length (inp s) < 2 ^ 64"
  then obtain x where "d s = (Inr x, s')" "y = f x"
    by (auto simp: decode_as_def split: prod.splits sum.splits)
  with rlp_codec.sound [OF c _ s] gf show "consumed s (encode (e (g y))) s'" by simp
qed

subsection \<open>Byte strings and integers\<close>

lemma reads_wrapped: "reads dec bs x \<Longrightarrow> reads (\<lambda>s. wrapped (dec s)) bs x"
  unfolding reads_def wrapped_Inr .

lemma stream_Bytes_consumed:
  assumes "stream_Bytes s = (Inr b, s')" "skind s = None"
  shows "consumed s (encode (Str b)) s'"
proof -
  obtain k sz s1 where k: "stream_Kind s = (Inr (k, sz), s1)"
    using assms(1) by (auto simp: stream_Bytes_def split: prod.splits sum.splits)
  have "stream_Bytes s1 = (Inr b, s')" using assms(1) k stream_Kind_idem [OF k] by (simp add: stream_Bytes_def)
  from stream_Bytes_sound [OF k assms(2) this] show ?thesis by (simp add: consumed_def)
qed

lemma word_one_length: "unat (sz :: u64) = length b \<Longrightarrow> sz = 1 \<longleftrightarrow> length b = 1"
  by (auto simp: word_unat_eq_iff)

interpretation slice_codec: rlp_codec Str decodeByteSlice
proof
  fix b
  have "reads stream_Bytes (encode (Str b)) b"
    unfolding reads_def
  proof (intro allI impI)
    fix rest s assume "ahead (encode (Str b)) rest s"
    from Kind_Str_complete [OF this] show "\<exists>s'. stream_Bytes s = (Inr b, s')"
      using word_one_length by (fastforce simp: stream_Bytes_def)
  qed
  then show "reads decodeByteSlice (encode (Str b)) b"
    using reads_wrapped by (simp add: decodeByteSlice_def [abs_def])
next
  fix s s' and b :: "byte list"
  assume "decodeByteSlice s = (Inr b, s')" "skind s = None"
  then show "consumed s (encode (Str b)) s'"
    using stream_Bytes_consumed by (simp add: decodeByteSlice_def wrapped_Inr)
qed

lemma encode_byte: "v < 0x80 \<Longrightarrow> v \<noteq> 0 \<Longrightarrow> encode (rlp_uint (unat v)) = [v]" for v :: byte
proof -
  assume v: "v < 0x80" "v \<noteq> 0"
  then have "be_bytes (unat v) = [v]" using be_bytes_be_val [of "[v]"] by simp
  then show ?thesis using v by (simp add: rlp_uint_def encode_bytes_def word_less_nat_alt word_le_nat_alt)
qed

lemma stream_uint_sound:
  assumes "stream_uint 64 s = (Inr v, s')" "skind s = None"
  shows "consumed s (encode (rlp_uint (unat v))) s'"
proof -
  obtain k sz s1 where k: "stream_Kind s = (Inr (k, sz), s1)"
    using assms(1) by (auto simp: stream_uint_def split: prod.splits sum.splits)
  note ks = stream_Kind_sound [OF k assms(2)]
  show ?thesis
  proof (cases k)
    case KByte
    then have "v = word_of_nat (unat (byteval s1))" "byteval s1 \<noteq> 0" "s' = s1\<lparr>skind := None\<rparr>"
      using assms(1) k by (auto simp: stream_uint_def split: if_splits)
    then show ?thesis using ks(1,2) KByte encode_byte [of "byteval s1"] unat_word_of_byte [of "byteval s1"]
      by (simp add: consumed_def hdr_def del: of_nat_unat)
  next
    case KList
    then show ?thesis using assms(1) k by (simp add: stream_uint_def)
  next
    case KString
    then have r: "readUint (word_of_nat (unat sz)) s1 = (Inr v, s')" and sz8: "unat sz \<le> 8"
      and big: "sz > 0 \<Longrightarrow> \<not> v < 128"
      using assms(1) k by (auto simp: stream_uint_def word_less_nat_alt split: prod.splits sum.splits if_splits)
    have z: "unat (word_of_nat (unat sz) :: byte) = unat sz" using sz8 by (simp add: unat_word_of_nat_byte del: of_nat_unat)
    show ?thesis
    proof (cases "sz = 0")
      case True
      then have "v = 0" "s' = s1\<lparr>skind := None\<rparr>" using r by (auto simp: readUint_def)
      then show ?thesis using ks(1) KString True
        by (simp add: consumed_def hdr_def puthead_def rlp_uint_def encode_bytes_def)
    next
      case False
      then have nz: "(word_of_nat (unat sz) :: byte) \<noteq> 0" using z by (metis unsigned_0 word_unat_eq_iff)
      from readUint_sound [OF r nz] z sz8
      have c: "consumes s1 (putint (unat v)) s'" "length (putint (unat v)) = unat sz" "skind s' = None"
        by auto
      have "\<not> v < 128" using big False word_greater_zero_iff by blast
      then have v: "128 \<le> unat v" by (simp add: word_less_nat_alt)
      then have p: "putint (unat v) = be_bytes (unat v)" using unat_u64_less [of v] by (simp add: putint_eq)
      have "\<not> (length (be_bytes (unat v)) = 1 \<and> hd (be_bytes (unat v)) < 128)"
        using v be_val_be_bytes [of "unat v"]
        by (cases "be_bytes (unat v)") (auto simp: word_less_nat_alt)
      then have "encode_bytes (be_bytes (unat v)) = hdr KString (byteval s1) sz @ be_bytes (unat v)"
        using hdr_bytes [of "be_bytes (unat v)" sz] c(2) p word_one_length [of sz "be_bytes (unat v)"] by simp
      then show ?thesis using consumes_trans [OF ks(1)] c KString p by (auto simp: consumed_def rlp_uint_def)
    qed
  qed
qed

lemma stream_uint_complete: "reads (stream_uint 64) (encode (rlp_uint (unat v))) v"
  unfolding reads_def
proof (intro allI impI)
  fix rest s
  define b where "b = be_bytes (unat v)"
  assume "ahead (encode (rlp_uint (unat v))) rest s"
  then have a: "ahead (encode (Str b)) rest s" by (simp add: rlp_uint_def b_def)
  have val: "be_val b = unat v" and nz: "b \<noteq> [] \<Longrightarrow> hd b \<noteq> 0"
    using hd_be_bytes_nonzero [of "unat v"] by (auto simp: b_def)
  have len: "length b \<le> 8" unfolding b_def using unat_u64_less [of v] by (intro length_be_bytes_le) simp
  from Kind_Str_complete [OF a] obtain k sz s1 where k: "stream_Kind s = (Inr (k, sz), s1)"
    and "k = KByte \<and> b = [byteval s1] \<or>
      k = KString \<and> sz = word_of_nat (length b) \<and> unat sz = length b \<and> \<not> (length b = 1 \<and> hd b < 128) \<and>
      avail (length b) s1 \<and> inp s1 = b @ rest" by blast
  then show "\<exists>s'. stream_uint 64 s = (Inr v, s')"
  proof (elim disjE conjE)
    assume b: "k = KByte" "b = [byteval s1]"
    then have "unat (byteval s1) = unat v" using val by simp
    then have "word_of_nat (unat (byteval s1)) = v" by (simp only:) simp
    then show ?thesis using b k nz by (simp add: stream_uint_def)
  next
    assume s: "k = KString" "sz = word_of_nat (length b)" "unat sz = length b"
      "\<not> (length b = 1 \<and> hd b < 128)" "avail (length b) s1" "inp s1 = b @ rest"
    have small: "\<not> sz > word_of_nat (64 div 8)" using s(3) len by (simp add: word_less_nat_alt)
    show ?thesis
    proof (cases "unat v = 0")
      case True
      then have "sz = 0" "v = 0" using s(2) by (auto simp: b_def unat_eq_zero)
      then show ?thesis using k s(1) by (simp add: stream_uint_def readUint_def)
    next
      case False
      then have p: "putint (unat v) = b" using unat_u64_less [of v] by (simp add: putint_eq b_def)
      have "128 \<le> unat v"
      proof (cases "length b = 1")
        case True
        then obtain c where c: "b = [c]" by (cases b) auto
        have "\<not> hd b < 128" using s(4) True by blast
        then show ?thesis using c val by (simp add: word_less_nat_alt)
      next
        case nl: False
        show ?thesis
        proof (rule ccontr)
          assume "\<not> 128 \<le> unat v"
          then have "length b \<le> 1" unfolding b_def by (intro length_be_bytes_le) simp
          with nl False show False by (auto simp: b_def le_Suc_eq)
        qed
      qed
      moreover obtain s2 where "readUint (word_of_nat (length b)) s1 = (Inr (word_of_nat (unat v)), s2)"
        using readUint_complete [of "unat v" s1 rest] s(5,6) False unat_u64_less [of v] unfolding p by auto
      ultimately show ?thesis using k s(1,3) small
        by (simp add: stream_uint_def word_less_nat_alt)
    qed
  qed
qed

interpretation uint_codec: rlp_codec "\<lambda>v :: u64. rlp_uint (unat v)" decodeUint
proof
  fix v :: u64
  show "reads decodeUint (encode (rlp_uint (unat v))) v"
    using reads_wrapped [OF stream_uint_complete] by (simp add: decodeUint_def [abs_def])
next
  fix s s' and v :: u64
  assume "decodeUint s = (Inr v, s')" "skind s = None"
  then show "consumed s (encode (rlp_uint (unat v))) s'"
    using stream_uint_sound by (simp add: decodeUint_def wrapped_Inr)
qed

lemma decodeBigInt_complete: "reads decodeBigInt (encode (rlp_uint n)) n"
  unfolding reads_def
proof (intro allI impI)
  fix rest s
  define b where "b = be_bytes n"
  have val: "be_val b = n" and nz: "b \<noteq> [] \<Longrightarrow> hd b \<noteq> 0"
    using hd_be_bytes_nonzero [of n] by (auto simp: b_def)
  assume "ahead (encode (rlp_uint n)) rest s"
  then have a: "ahead (encode (Str b)) rest s" by (simp add: rlp_uint_def b_def)
  from Kind_Str_complete [OF a] obtain k sz s1 where k: "stream_Kind s = (Inr (k, sz), s1)"
    and "k = KByte \<and> b = [byteval s1] \<or>
      k = KString \<and> unat sz = length b \<and> \<not> (length b = 1 \<and> hd b < 128) \<and>
      (\<exists>s2. readFull sz s1 = (Inr b, s2))" by blast
  then show "\<exists>s'. decodeBigInt s = (Inr n, s')"
  proof (elim disjE conjE exE)
    assume "k = KByte" "b = [byteval s1]"
    then show ?thesis using k nz val by (simp add: decodeBigInt_def)
  next
    fix s2
    assume s: "k = KString" "unat sz = length b" "\<not> (length b = 1 \<and> hd b < 128)" "readFull sz s1 = (Inr b, s2)"
    then have "sz = 0 \<longleftrightarrow> b = []" by (metis length_0_conv unat_eq_zero)
    then show ?thesis using s k nz val word_one_length [OF s(2)] by (auto simp: decodeBigInt_def)
  qed
qed

lemma decodeBigInt_sound:
  assumes "decodeBigInt s = (Inr n, s')" "skind s = None"
  shows "consumed s (encode (rlp_uint n)) s'"
proof -
  obtain k sz s1 where k: "stream_Kind s = (Inr (k, sz), s1)"
    using assms(1) by (auto simp: decodeBigInt_def split: prod.splits sum.splits)
  note ks = stream_Kind_sound [OF k assms(2)]
  show ?thesis
  proof (cases "k = KString \<and> sz = 0")
    case True
    then have "n = 0" "s' = s1\<lparr>skind := None\<rparr>" using assms(1) k by (auto simp: decodeBigInt_def)
    then show ?thesis using ks(1) True
      by (simp add: consumed_def hdr_def puthead_def rlp_uint_def encode_bytes_def)
  next
    case False
    then have "\<exists>b. stream_Bytes s = (Inr b, s') \<and> (b = [] \<or> hd b \<noteq> 0) \<and> n = be_val b"
      using assms(1) k
      by (cases k) (auto simp: decodeBigInt_def stream_Bytes_def split: prod.splits sum.splits if_splits)
    then obtain b where b: "stream_Bytes s = (Inr b, s')" "b = [] \<or> hd b \<noteq> 0" "n = be_val b" by blast
    from stream_Bytes_consumed [OF b(1) assms(2)] be_bytes_be_val [OF b(2)] b(3) show ?thesis
      by (simp add: rlp_uint_def)
  qed
qed

interpretation big_codec: rlp_codec rlp_uint decodeBigIntPtr
proof
  fix n
  show "reads decodeBigIntPtr (encode (rlp_uint n)) n"
    using reads_wrapped [OF decodeBigInt_complete] by (simp add: decodeBigIntPtr_def [abs_def])
next
  fix s s' n
  assume "decodeBigIntPtr s = (Inr n, s')" "skind s = None"
  then show "consumed s (encode (rlp_uint n)) s'"
    using decodeBigInt_sound by (simp add: decodeBigIntPtr_def wrapped_Inr)
qed

subsection \<open>Fixed-size byte arrays\<close>

text \<open>A \<^verbatim>\<open>[n]byte\<close> array, read as the big-endian word it stores.\<close>

definition decodeArrayWord :: "nat \<Rightarrow> Stream \<Rightarrow> 'a::len word sres" where
  "decodeArrayWord n = decode_as (\<lambda>b. word_of_nat (be_val b)) (decodeByteArray n)"

definition array_item :: "nat \<Rightarrow> 'a::len word \<Rightarrow> item" where
  "array_item n w = Str (be_fixed n (unat w))"

lemma decodeByteArray_complete:
  assumes "length b = n" "2 \<le> n" "n < 2 ^ 64" "ahead (encode (Str b)) rest s"
  shows "\<exists>s'. decodeByteArray n s = (Inr b, s')"
proof -
  from Kind_Str_complete [OF assms(4)] assms(1,2) obtain sz s1 s2 where
    "stream_Kind s = (Inr (KString, sz), s1)" "sz = word_of_nat n" "unat sz = n" "readFull sz s1 = (Inr b, s2)"
    by fastforce
  with assms(2) show ?thesis by (auto simp: decodeByteArray_def)
qed

lemma decodeByteArray_sound:
  assumes "decodeByteArray n s = (Inr b, s')" "2 \<le> n" "n < 2 ^ 64" "skind s = None"
  shows "consumed s (encode (Str b)) s' \<and> length b = n"
proof -
  obtain sz s1 where k: "stream_Kind s = (Inr (KString, sz), s1)" and sz: "sz = word_of_nat n"
    and r: "readFull sz s1 = (Inr b, s')" and c: "\<not> (sz = 1 \<and> hd b < 128)"
    using assms(1,2)
    by (auto simp: decodeByteArray_def not_less split: prod.splits sum.splits Kind.splits if_splits)
  have "unat sz = n" using sz assms(3) by (simp add: unat_word_of_nat_u64)
  then have "length b = n" using readFull_sound(2) [OF r] by simp
  moreover have "stream_Bytes s = (Inr b, s')" using k r c by (auto simp: stream_Bytes_def)
  ultimately show ?thesis using stream_Bytes_consumed assms(4) by blast
qed

lemma codec_array:
  assumes len: "LENGTH('a::len) = 8 * n" and n: "2 \<le> n" "n < 2 ^ 64"
  shows "rlp_codec (array_item n :: 'a word \<Rightarrow> item) (decodeArrayWord n)"
proof
  have pow: "(2 :: nat) ^ LENGTH('a) = 256 ^ n" by (simp add: len power_mult)
  have wback: "be_val (be_fixed n (unat w)) = unat w" for w :: "'a word"
    using unsigned_less [where ?'a = nat, of w] by (simp add: pow)
  fix w :: "'a word"
  show "reads (decodeArrayWord n) (encode (array_item n w)) w"
    unfolding reads_def array_item_def
  proof (intro allI impI)
    fix rest s assume "ahead (encode (Str (be_fixed n (unat w)))) rest s"
    from decodeByteArray_complete [OF _ n this] show "\<exists>s'. decodeArrayWord n s = (Inr w, s')"
      using wback [of w] by (auto simp: decodeArrayWord_def decode_as_def)
  qed
next
  have pow: "(2 :: nat) ^ LENGTH('a) = 256 ^ n" by (simp add: len power_mult)
  fix s s' and w :: "'a word"
  assume "decodeArrayWord n s = (Inr w, s')" and s: "skind s = None"
  then obtain b where b: "decodeByteArray n s = (Inr b, s')" and w: "w = word_of_nat (be_val b)"
    by (auto simp: decodeArrayWord_def decode_as_def split: prod.splits sum.splits)
  note c = decodeByteArray_sound [OF b n s]
  then have "unat w = be_val b" using w be_val_less [of b] pow by (simp add: unat_of_nat)
  then have "be_fixed n (unat w) = b" using c be_fixed_be_val [of b] by simp
  with c show "consumed s (encode (array_item n w)) s'" by (simp add: array_item_def)
qed

interpretation address_codec: rlp_codec "array_item 20 :: Address \<Rightarrow> item" "decodeArrayWord 20"
  by (rule codec_array) simp_all

interpretation hash_codec: rlp_codec "array_item 32 :: Hash \<Rightarrow> item" "decodeArrayWord 32"
  by (rule codec_array) simp_all

interpretation nonce_codec: rlp_codec "array_item 8 :: u64 \<Rightarrow> item" "decodeArrayWord 8"
  by (rule codec_array) simp_all

interpretation bloom_codec: rlp_codec "array_item 256 :: 2048 word \<Rightarrow> item" "decodeArrayWord 256"
  by (rule codec_array) simp_all

text \<open>A pointer to an array with tag "nil": the nil pointer is the empty string.\<close>

definition nilptr_item :: "('a \<Rightarrow> item) \<Rightarrow> 'a option \<Rightarrow> item" where
  "nilptr_item e p = (case p of None \<Rightarrow> Str [] | Some x \<Rightarrow> e x)"

lemma decodeArrayWord_peek: "stream_Kind s = (Inr q, s1) \<Longrightarrow> decodeArrayWord n s1 = decodeArrayWord n s"
  using stream_Kind_idem [of s q s1] by (simp add: decodeArrayWord_def decode_as_def decodeByteArray_def)

lemma codec_nilptr_array:
  assumes len: "LENGTH('a::len) = 8 * n" and n: "2 \<le> n" "n < 2 ^ 64"
  shows "rlp_codec (nilptr_item (array_item n :: 'a word \<Rightarrow> item)) (decodeNilPtr KString (decodeArrayWord n))"
proof
  note c = codec_array [OF assms]
  fix p :: "'a word option"
  show "reads (decodeNilPtr KString (decodeArrayWord n)) (encode (nilptr_item (array_item n) p)) p"
    unfolding reads_def
  proof (intro allI impI)
    fix rest s assume a: "ahead (encode (nilptr_item (array_item n) p)) rest s"
    show "\<exists>s'. decodeNilPtr KString (decodeArrayWord n) s = (Inr p, s')"
    proof (cases p)
      case None
      then show ?thesis using Kind_Str_complete [of "[]" rest s] a by (auto simp: nilptr_item_def decodeNilPtr_def)
    next
      case (Some w)
      then have aw: "ahead (encode (Str (be_fixed n (unat w)))) rest s" using a by (simp add: nilptr_item_def array_item_def)
      obtain s' where d: "decodeArrayWord n s = (Inr w, s')"
        using rlp_codec.complete [OF c, of w] aw by (auto simp: reads_def array_item_def)
      have "be_fixed n (unat w) \<noteq> [v]" for v using n by (auto dest: arg_cong [where f = length])
      then obtain sz s1 where k: "stream_Kind s = (Inr (KString, sz), s1)" "unat sz = n"
        using Kind_Str_complete [OF aw] n by auto
      then have "sz \<noteq> 0" using n by auto
      moreover have "decodeArrayWord n s1 = (Inr w, s')" unfolding decodeArrayWord_peek [OF k(1)] by (rule d)
      ultimately show ?thesis using k Some by (simp add: decodeNilPtr_def)
    qed
  qed
next
  note c = codec_array [OF assms]
  fix s s' and p :: "'a word option"
  assume r: "decodeNilPtr KString (decodeArrayWord n) s = (Inr p, s')"
    and s: "skind s = None" "length (inp s) < 2 ^ 64"
  obtain k sz s1 where k: "stream_Kind s = (Inr (k, sz), s1)"
    using r by (auto simp: decodeNilPtr_def split: prod.splits sum.splits)
  show "consumed s (encode (nilptr_item (array_item n) p)) s'"
  proof (cases "k \<noteq> KByte \<and> sz = 0")
    case True
    then have "k = KString" "p = None" "s' = s1\<lparr>skind := None\<rparr>"
      using r k by (auto simp: decodeNilPtr_def split: if_splits)
    then show ?thesis using stream_Kind_sound(1) [OF k s(1)] True
      by (simp add: consumed_def hdr_def puthead_def nilptr_item_def encode_bytes_def)
  next
    case False
    then obtain w where w: "p = Some w" "decodeArrayWord n s1 = (Inr w, s')"
      using r k by (auto simp: decodeNilPtr_def split: prod.splits sum.splits if_splits)
    from rlp_codec.sound [OF c w(2) [unfolded decodeArrayWord_peek [OF k]] s] w(1) show ?thesis
      by (simp add: nilptr_item_def)
  qed
qed

interpretation nil_address_codec: rlp_codec "nilptr_item (array_item 20 :: Address \<Rightarrow> item)" "decodeNilPtr KString (decodeArrayWord 20)"
  by (rule codec_nilptr_array) simp_all

end
