(* ===== verification/Chain_Types.thy ===== *)
theory Chain_Types
  imports RLP_Struct
begin

text \<open>
  The data of the chain (\<^verbatim>\<open>src/core/types\<close>): the chain rules and the OTPRN (the one-time pseudo random number
  a fairnode signs for a league), headers, votes and blocks, with their RLP layouts and hashes.

  Go strings are byte lists; \<^verbatim>\<open>*big.Int\<close> fields are natural numbers (a decoded value always has them,
  and RLP has no negative numbers); \<^verbatim>\<open>[20]byte\<close> is \<open>Address\<close>, \<^verbatim>\<open>BlockNonce\<close> is the \<open>u64\<close> it stores big-endian.
  Keccak-256 and public key recovery are parameters: \<open>keccak\<close>, and \<open>recover h sig\<close> for \<^verbatim>\<open>crypto.SigToPub\<close>
  followed by \<^verbatim>\<open>crypto.PubkeyToAddress\<close> (\<open>None\<close> when recovery fails).
\<close>

type_synonym hash_fun = "byte list \<Rightarrow> Hash"
type_synonym recover_fun = "Hash \<Rightarrow> byte list \<Rightarrow> Address option"

definition rlpHash :: "hash_fun \<Rightarrow> item \<Rightarrow> Hash" where
  "rlpHash keccak x = keccak (EncodeToBytes x)"

text \<open>\<^verbatim>\<open>ValidationSignHash\<close>: the signature on a hash was made by the given address.\<close>

datatype sig_error = ErrSigToPub | ErrNotMatchedAddress

definition ValidationSignHash :: "recover_fun \<Rightarrow> byte list \<Rightarrow> Hash \<Rightarrow> Address \<Rightarrow> sig_error + unit" where
  "ValidationSignHash recover sign h sAddr =
     (case recover h sign of
        None \<Rightarrow> Inl ErrSigToPub
      | Some addr \<Rightarrow> if addr \<noteq> sAddr then Inl ErrNotMatchedAddress else Inr ())"

subsection \<open>Chain rules and OTPRN\<close>

record Price =
  JoinTxPrice :: "byte list"
  Price_GasPrice :: u64
  Price_GasLimit :: u64

record ChainConfig =
  MinMiner :: u64
  BlockNumber :: u64
  FnFee :: "byte list"
  Mminer :: u64
  Epoch :: u64
  NodeVersion :: "byte list"
  cc_Price :: Price
  cc_Sign :: "byte list"

record Otprn =
  Rand :: Address
  FnAddr :: Address
  Cminer :: u64
  otp_Data :: ChainConfig
  otp_Sign :: "byte list"

definition price_item :: "Price \<Rightarrow> item" where
  "price_item p = Lst [Str (JoinTxPrice p), rlp_uint (unat (Price_GasPrice p)), rlp_uint (unat (Price_GasLimit p))]"

definition config_item :: "ChainConfig \<Rightarrow> item" where
  "config_item c =
     Lst [rlp_uint (unat (MinMiner c)), rlp_uint (unat (BlockNumber c)), Str (FnFee c), rlp_uint (unat (Mminer c)),
          rlp_uint (unat (Epoch c)), Str (NodeVersion c), price_item (cc_Price c), Str (cc_Sign c)]"

definition otprn_item :: "Otprn \<Rightarrow> item" where
  "otprn_item otp =
     Lst [array_item 20 (Rand otp), array_item 20 (FnAddr otp), rlp_uint (unat (Cminer otp)), config_item (otp_Data otp),
          Str (otp_Sign otp)]"

definition decodePrice :: "Stream \<Rightarrow> Price sres" where
  "decodePrice =
     decode_as (\<lambda>(a, b, c, _). \<lparr>JoinTxPrice = a, Price_GasPrice = b, Price_GasLimit = c\<rparr>)
       (decodeStruct (structField decodeByteSlice (structField decodeUint (structField decodeUint structEnd))))"

definition decodeConfig :: "Stream \<Rightarrow> ChainConfig sres" where
  "decodeConfig =
     decode_as (\<lambda>(a, b, c, d, e, f, g, h, _).
         \<lparr>MinMiner = a, BlockNumber = b, FnFee = c, Mminer = d, Epoch = e, NodeVersion = f, cc_Price = g, cc_Sign = h\<rparr>)
       (decodeStruct
         (structField decodeUint (structField decodeUint (structField decodeByteSlice (structField decodeUint
         (structField decodeUint (structField decodeByteSlice (structField decodePrice (structField decodeByteSlice
          structEnd)))))))))"

definition decodeOtprn_struct :: "Stream \<Rightarrow> Otprn sres" where
  "decodeOtprn_struct =
     decode_as (\<lambda>(a, b, c, d, e, _). \<lparr>Rand = a, FnAddr = b, Cminer = c, otp_Data = d, otp_Sign = e\<rparr>)
       (decodeStruct
         (structField (decodeArrayWord 20) (structField (decodeArrayWord 20) (structField decodeUint
         (structField decodeConfig (structField decodeByteSlice structEnd))))))"

definition EncodeOtprn :: "Otprn \<Rightarrow> byte list" where
  "EncodeOtprn otp = EncodeToBytes (otprn_item otp)"

definition DecodeOtprn :: "byte list \<Rightarrow> rlp_error + Otprn" where
  "DecodeOtprn b = DecodeBytes_to decodeOtprn_struct b"

definition ChainConfig_Hash :: "hash_fun \<Rightarrow> ChainConfig \<Rightarrow> Hash" where
  "ChainConfig_Hash keccak c =
     rlpHash keccak
       (Lst [rlp_uint (unat (MinMiner c)), rlp_uint (unat (BlockNumber c)), price_item (cc_Price c), Str (FnFee c),
             rlp_uint (unat (Mminer c)), rlp_uint (unat (Epoch c)), Str (NodeVersion c)])"

definition HashOtprn :: "hash_fun \<Rightarrow> Otprn \<Rightarrow> Hash" where
  "HashOtprn keccak otp =
     rlpHash keccak
       (Lst [array_item 20 (Rand otp), rlp_uint (unat (Cminer otp)), config_item (otp_Data otp), array_item 20 (FnAddr otp)])"

text \<open>\<^verbatim>\<open>NewOtprn\<close> with the random bytes as an argument; \<open>sign\<close> is \<^verbatim>\<open>crypto.Sign\<close> with the fairnode's key.\<close>

definition NewOtprn :: "Address \<Rightarrow> u64 \<Rightarrow> Address \<Rightarrow> ChainConfig \<Rightarrow> Otprn" where
  "NewOtprn rand cMiner fnAddr data =
     \<lparr>Rand = rand, FnAddr = fnAddr, Cminer = cMiner, otp_Data = data, otp_Sign = []\<rparr>"

definition SignOtprn :: "hash_fun \<Rightarrow> (Hash \<Rightarrow> byte list option) \<Rightarrow> Otprn \<Rightarrow> Otprn option" where
  "SignOtprn keccak sign otp =
     (case sign (HashOtprn keccak otp) of
        None \<Rightarrow> None
      | Some sg \<Rightarrow> Some (otp\<lparr>otp_Sign := sg\<rparr>))"

definition ValidateSignature :: "hash_fun \<Rightarrow> recover_fun \<Rightarrow> Otprn \<Rightarrow> sig_error + unit" where
  "ValidateSignature keccak recover otp =
     (case recover (HashOtprn keccak otp) (otp_Sign otp) of
        None \<Rightarrow> Inl ErrSigToPub
      | Some addr \<Rightarrow> if addr = FnAddr otp then Inr () else Inl ErrNotMatchedAddress)"

subsection \<open>Headers and votes\<close>

record Header =
  ParentHash :: Hash
  Coinbase :: Address
  Root :: Hash
  TxHash :: Hash
  VoteHash :: Hash
  ReceiptHash :: Hash
  Bloom :: "2048 word"
  Difficulty :: nat
  Number :: nat
  GasLimit :: u64
  GasUsed :: u64
  Time :: nat
  Extra :: "byte list"
  Nonce :: u64
  hd_Otprn :: "byte list"
  FairnodeSign :: "byte list"

definition header_item :: "Header \<Rightarrow> item" where
  "header_item h =
     Lst [array_item 32 (ParentHash h), array_item 20 (Coinbase h), array_item 32 (Root h), array_item 32 (TxHash h),
          array_item 32 (VoteHash h), array_item 32 (ReceiptHash h), array_item 256 (Bloom h),
          rlp_uint (Difficulty h), rlp_uint (Number h), rlp_uint (unat (GasLimit h)), rlp_uint (unat (GasUsed h)),
          rlp_uint (Time h), Str (Extra h), array_item 8 (Nonce h), Str (hd_Otprn h), Str (FairnodeSign h)]"

definition decodeHeader :: "Stream \<Rightarrow> Header sres" where
  "decodeHeader =
     decode_as (\<lambda>(a, b, c, d, e, f, g, h, i, j, k, l, m, n, p, q, _).
         \<lparr>ParentHash = a, Coinbase = b, Root = c, TxHash = d, VoteHash = e, ReceiptHash = f, Bloom = g,
          Difficulty = h, Number = i, GasLimit = j, GasUsed = k, Time = l, Extra = m, Nonce = n, hd_Otprn = p,
          FairnodeSign = q\<rparr>)
       (decodeStruct
         (structField (decodeArrayWord 32) (structField (decodeArrayWord 20) (structField (decodeArrayWord 32)
         (structField (decodeArrayWord 32) (structField (decodeArrayWord 32) (structField (decodeArrayWord 32)
         (structField (decodeArrayWord 256) (structField decodeBigIntPtr (structField decodeBigIntPtr
         (structField decodeUint (structField decodeUint (structField decodeBigIntPtr (structField decodeByteSlice
         (structField (decodeArrayWord 8) (structField decodeByteSlice (structField decodeByteSlice
          structEnd)))))))))))))))))"

text \<open>The hash of a header leaves out \<open>VoteHash\<close> and \<open>FairnodeSign\<close>, which the fairnode adds later.\<close>

definition hash_item :: "Header \<Rightarrow> item" where
  "hash_item h =
     Lst [array_item 32 (ParentHash h), array_item 20 (Coinbase h), array_item 32 (Root h), array_item 32 (TxHash h),
          array_item 32 (ReceiptHash h), array_item 256 (Bloom h), rlp_uint (Difficulty h), rlp_uint (Number h),
          rlp_uint (unat (GasLimit h)), rlp_uint (unat (GasUsed h)), rlp_uint (Time h), Str (Extra h),
          array_item 8 (Nonce h), Str (hd_Otprn h)]"

definition Header_Hash :: "hash_fun \<Rightarrow> Header \<Rightarrow> Hash" where
  "Header_Hash keccak h = rlpHash keccak (hash_item h)"

definition Header_Byte :: "Header \<Rightarrow> byte list" where
  "Header_Byte h = EncodeToBytes (header_item h)"

record Voter =
  vt_Header :: "byte list"
  vt_Voter :: Address
  VoteSign :: "byte list"

definition voter_item :: "Voter \<Rightarrow> item" where
  "voter_item v = Lst [Str (vt_Header v), array_item 20 (vt_Voter v), Str (VoteSign v)]"

subsection \<open>Status of a league\<close>

datatype FnStatus =
    PENDING | SAVE_OTPRN | MAKE_LEAGUE | MAKE_JOIN_TX | MAKE_BLOCK | LEAGUE_BROADCASTING | VOTE_START | VOTE_COMPLETE
  | MAKE_PENDING_LEAGUE | SEND_BLOCK | SEND_BLOCK_WAIT | REQ_FAIRNODE_SIGN | FINALIZE | REJECT | VOTE_COUNTING

text \<open>The codes of \<^verbatim>\<open>proto.ProcessStatus\<close>, by name.\<close>

datatype ProcessStatus =
    PS_WAIT | PS_MAKE_LEAGUE | PS_MAKE_JOIN_TX | PS_MAKE_BLOCK | PS_LEAGUE_BROADCASTING | PS_VOTE_START
  | PS_VOTE_COMPLETE | PS_SEND_BLOCK | PS_SEND_BLOCK_WAIT | PS_REQ_FAIRNODE_SIGN | PS_FINALIZE | PS_REJECT
  | PS_VOTE_COUNTING

fun StatusToProto :: "FnStatus \<Rightarrow> ProcessStatus" where
  "StatusToProto PENDING = PS_WAIT"
| "StatusToProto MAKE_LEAGUE = PS_MAKE_LEAGUE"
| "StatusToProto MAKE_JOIN_TX = PS_MAKE_JOIN_TX"
| "StatusToProto MAKE_BLOCK = PS_MAKE_BLOCK"
| "StatusToProto LEAGUE_BROADCASTING = PS_LEAGUE_BROADCASTING"
| "StatusToProto VOTE_START = PS_VOTE_START"
| "StatusToProto VOTE_COMPLETE = PS_VOTE_COMPLETE"
| "StatusToProto SEND_BLOCK = PS_SEND_BLOCK"
| "StatusToProto SEND_BLOCK_WAIT = PS_SEND_BLOCK_WAIT"
| "StatusToProto REQ_FAIRNODE_SIGN = PS_REQ_FAIRNODE_SIGN"
| "StatusToProto FINALIZE = PS_FINALIZE"
| "StatusToProto REJECT = PS_REJECT"
| "StatusToProto VOTE_COUNTING = PS_VOTE_COUNTING"
| "StatusToProto _ = PS_WAIT"

fun ProtoToStatus :: "ProcessStatus \<Rightarrow> FnStatus" where
  "ProtoToStatus PS_WAIT = PENDING"
| "ProtoToStatus PS_MAKE_LEAGUE = MAKE_LEAGUE"
| "ProtoToStatus PS_MAKE_JOIN_TX = MAKE_JOIN_TX"
| "ProtoToStatus PS_MAKE_BLOCK = MAKE_BLOCK"
| "ProtoToStatus PS_LEAGUE_BROADCASTING = LEAGUE_BROADCASTING"
| "ProtoToStatus PS_VOTE_START = VOTE_START"
| "ProtoToStatus PS_VOTE_COMPLETE = VOTE_COMPLETE"
| "ProtoToStatus PS_SEND_BLOCK = SEND_BLOCK"
| "ProtoToStatus PS_SEND_BLOCK_WAIT = SEND_BLOCK_WAIT"
| "ProtoToStatus PS_REQ_FAIRNODE_SIGN = REQ_FAIRNODE_SIGN"
| "ProtoToStatus PS_FINALIZE = FINALIZE"
| "ProtoToStatus PS_REJECT = REJECT"
| "ProtoToStatus PS_VOTE_COUNTING = VOTE_COUNTING"

lemma ProtoToStatus_StatusToProto:
  "ProtoToStatus (StatusToProto s) = (if s = SAVE_OTPRN \<or> s = MAKE_PENDING_LEAGUE then PENDING else s)"
  by (cases s) simp_all

lemma StatusToProto_ProtoToStatus [simp]: "StatusToProto (ProtoToStatus p) = p"
  by (cases p) simp_all

subsection \<open>Codecs\<close>

lemmas field_codecs =
  slice_codec.rlp_codec_axioms uint_codec.rlp_codec_axioms big_codec.rlp_codec_axioms
  address_codec.rlp_codec_axioms hash_codec.rlp_codec_axioms nonce_codec.rlp_codec_axioms
  bloom_codec.rlp_codec_axioms nil_address_codec.rlp_codec_axioms

lemma codec_struct_as:
  assumes "rlp_fields es ds" "\<And>y. f (g y) = y" "\<And>x. g (f x) = x" "\<And>y. item y = Lst (es (g y))"
  shows "rlp_codec item (decode_as f (decodeStruct ds))"
proof -
  have "rlp_codec (\<lambda>y. Lst (es (g y))) (decode_as f (decodeStruct ds))"
    by (rule codec_as [OF codec_struct [OF assms(1)] assms(2,3)])
  moreover have "item = (\<lambda>y. Lst (es (g y)))" using assms(4) by blast
  ultimately show ?thesis by simp
qed

interpretation price_fields: rlp_fields
  "\<lambda>(a, b, c, u :: unit). [Str a, rlp_uint (unat (b :: u64)), rlp_uint (unat (c :: u64))]"
  "structField decodeByteSlice (structField decodeUint (structField decodeUint structEnd))"
proof -
  have "rlp_fields (\<lambda>(a, p). Str a # (case p of (b :: u64, q) \<Rightarrow> rlp_uint (unat b) # (case q of (c :: u64, u :: unit) \<Rightarrow> [rlp_uint (unat c)])))
      (structField decodeByteSlice (structField decodeUint (structField decodeUint structEnd)))"
    by (rule fields_field fields_end field_codecs)+
  then show "rlp_fields (\<lambda>(a, b, c, u :: unit). [Str a, rlp_uint (unat (b :: u64)), rlp_uint (unat (c :: u64))])
      (structField decodeByteSlice (structField decodeUint (structField decodeUint structEnd)))"
    by (simp add: case_prod_beta')
qed

interpretation price_codec: rlp_codec price_item decodePrice
  unfolding decodePrice_def
  by (rule codec_struct_as [OF price_fields.rlp_fields_axioms, where g = "\<lambda>p. (JoinTxPrice p, Price_GasPrice p, Price_GasLimit p, ())"])
    (auto simp: price_item_def)

interpretation config_codec: rlp_codec config_item decodeConfig
  unfolding decodeConfig_def
  by (rule codec_struct_as [where g = "\<lambda>c. (MinMiner c, BlockNumber c, FnFee c, Mminer c, Epoch c, NodeVersion c, cc_Price c, cc_Sign c, ())"])
    (rule fields_field fields_end field_codecs price_codec.rlp_codec_axioms | auto simp: config_item_def)+

interpretation otprn_codec: rlp_codec otprn_item decodeOtprn_struct
  unfolding decodeOtprn_struct_def
  by (rule codec_struct_as [where g = "\<lambda>p. (Rand p, FnAddr p, Cminer p, otp_Data p, otp_Sign p, ())"])
    (rule fields_field fields_end field_codecs config_codec.rlp_codec_axioms | auto simp: otprn_item_def)+

interpretation header_codec: rlp_codec header_item decodeHeader
  unfolding decodeHeader_def
  by (rule codec_struct_as [where g = "\<lambda>h. (ParentHash h, Coinbase h, Root h, TxHash h, VoteHash h, ReceiptHash h, Bloom h,
      Difficulty h, Number h, GasLimit h, GasUsed h, Time h, Extra h, Nonce h, hd_Otprn h, FairnodeSign h, ())"])
    (rule fields_field fields_end field_codecs | auto simp: header_item_def)+

lemma array_item_inject:
  assumes "LENGTH('a::len) = 8 * n"
  shows "array_item n w = array_item n w' \<longleftrightarrow> w = (w' :: 'a word)"
proof -
  have pow: "(2 :: nat) ^ LENGTH('a) = 256 ^ n" by (simp add: assms power_mult)
  have "be_val (be_fixed n (unat w)) = unat w" for w :: "'a word"
    using unsigned_less [where ?'a = nat, of w] by (simp add: pow)
  then show ?thesis unfolding array_item_def by (metis item.inject(1) word_unat_eq_iff)
qed

lemma item_injects [simp]:
  "array_item 32 a = array_item 32 a' \<longleftrightarrow> a = (a' :: Hash)"
  "array_item 20 b = array_item 20 b' \<longleftrightarrow> b = (b' :: Address)"
  "array_item 8 c = array_item 8 c' \<longleftrightarrow> c = (c' :: u64)"
  "array_item 256 d = array_item 256 d' \<longleftrightarrow> d = (d' :: 2048 word)"
  "rlp_uint m = rlp_uint n \<longleftrightarrow> m = n"
  "price_item p = price_item p' \<longleftrightarrow> p = p'"
  by (auto simp: array_item_inject rlp_uint_def price_item_def word_unat_eq_iff)

lemma config_item_inject [simp]: "config_item c = config_item c' \<longleftrightarrow> c = c'"
  by (auto simp: config_item_def word_unat_eq_iff)

text \<open>What a hash commits to, for a hash function without collisions on the two encodings.\<close>

definition collision_free :: "hash_fun \<Rightarrow> item \<Rightarrow> item \<Rightarrow> bool" where
  "collision_free keccak x y \<longleftrightarrow>
     (keccak (EncodeToBytes x) = keccak (EncodeToBytes y) \<longrightarrow> EncodeToBytes x = EncodeToBytes y)"

lemma rlpHash_inject:
  assumes "rlpHash keccak x = rlpHash keccak y" "collision_free keccak x y"
    and "length (encode x) < 2 ^ 64" "length (encode y) < 2 ^ 64"
  shows "x = y"
proof -
  have "encode x = encode y"
    using assms by (simp add: rlpHash_def collision_free_def EncodeToBytes_encode)
  then show ?thesis using assms(3) by (rule encode_inject)
qed

lemma Header_Hash_commits:
  assumes "hash_item h = hash_item h'"
  shows "h' = h\<lparr>VoteHash := VoteHash h', FairnodeSign := FairnodeSign h'\<rparr>"
  using assms by (simp add: hash_item_def word_unat_eq_iff)

end
