(* ===== verification/Transactions.thy ===== *)
theory Transactions
  imports Chain_Types
begin

text \<open>
  Transactions (\<^verbatim>\<open>src/core/types/transaction.go\<close>, \<^verbatim>\<open>transaction_eth.go\<close>) and the signers of
  \<^verbatim>\<open>transaction_signing.go\<close>.

  A \<^verbatim>\<open>LegacyTx\<close> of this chain carries a transaction type in front of Ethereum's nine fields; \<^verbatim>\<open>txEthdata\<close>
  has the nine fields only.  Both share \<open>TxFields\<close> here.  \<^verbatim>\<open>crypto.Ecrecover\<close> is the parameter \<open>ecrecover\<close>.

  Shown: the binary round trip, that the fallback of the stream decoder never succeeds, that a signed
  transaction is recovered to its signer, that the signed payload determines the transaction and the
  chain, and that the parts of a join transaction's payload can be read back.
\<close>

definition GeneralTx :: u64 where "GeneralTx = 0"
definition JoinTx :: u64 where "JoinTx = 1"
definition EthTx :: u64 where "EthTx = 2"

record TxFields =
  AccountNonce :: u64
  tx_Price :: nat
  tx_GasLimit :: u64
  Recipient :: "Address option"
  Amount :: nat
  Payload :: "byte list"
  sig_V :: nat
  sig_R :: nat
  sig_S :: nat

datatype TxData = LegacyTx u64 TxFields | EthTxData TxFields

primrec txType :: "TxData \<Rightarrow> u64" where
  "txType (LegacyTx t _) = t"
| "txType (EthTxData _) = EthTx"

primrec fields_of :: "TxData \<Rightarrow> TxFields" where
  "fields_of (LegacyTx _ f) = f"
| "fields_of (EthTxData f) = f"

datatype tx_error = ErrInvalidSig | ErrInvalidChainId | ErrInvalidPubKey | ErrEcrecover | ErrNotJoinTx | TxPanic

subsection \<open>Constructors\<close>

text \<open>\<^verbatim>\<open>LegacyTx.copy\<close> does not copy the type; \<^verbatim>\<open>NewTx\<close> copies its argument.\<close>

primrec tx_copy :: "TxData \<Rightarrow> TxData" where
  "tx_copy (LegacyTx t f) = LegacyTx 0 f"
| "tx_copy (EthTxData f) = EthTxData f"

definition NewTx :: "TxData \<Rightarrow> TxData" where
  "NewTx inner = tx_copy inner"

definition newTransaction :: "u64 \<Rightarrow> Address option \<Rightarrow> nat option \<Rightarrow> u64 \<Rightarrow> nat option \<Rightarrow> byte list \<Rightarrow> TxData" where
  "newTransaction nonce to amount gasLimit gasPrice data =
     LegacyTx GeneralTx
       \<lparr>AccountNonce = nonce, tx_Price = (case gasPrice of None \<Rightarrow> 0 | Some p \<Rightarrow> p), tx_GasLimit = gasLimit,
        Recipient = to, Amount = (case amount of None \<Rightarrow> 0 | Some a \<Rightarrow> a), Payload = data,
        sig_V = 0, sig_R = 0, sig_S = 0\<rparr>"

definition NewTransaction :: "u64 \<Rightarrow> Address \<Rightarrow> nat option \<Rightarrow> u64 \<Rightarrow> nat option \<Rightarrow> byte list \<Rightarrow> TxData" where
  "NewTransaction nonce to = newTransaction nonce (Some to)"

definition NewContractCreation :: "u64 \<Rightarrow> nat option \<Rightarrow> u64 \<Rightarrow> nat option \<Rightarrow> byte list \<Rightarrow> TxData" where
  "NewContractCreation nonce = newTransaction nonce None"

definition ConvertEthTransaction ::
  "u64 \<Rightarrow> Address option \<Rightarrow> nat option \<Rightarrow> u64 \<Rightarrow> nat option \<Rightarrow> byte list \<Rightarrow> nat \<Rightarrow> nat \<Rightarrow> nat \<Rightarrow> TxData" where
  "ConvertEthTransaction nonce to amount gasLimit gasPrice data R S V =
     LegacyTx EthTx
       \<lparr>AccountNonce = nonce, tx_Price = (case gasPrice of None \<Rightarrow> 0 | Some p \<Rightarrow> p), tx_GasLimit = gasLimit,
        Recipient = to, Amount = (case amount of None \<Rightarrow> 0 | Some a \<Rightarrow> a), Payload = data,
        sig_V = V, sig_R = R, sig_S = S\<rparr>"

text \<open>
  A join transaction carries the OTPRN, the join nonce (8 bytes, little-endian) and the hash of join
  nonce, OTPRN and coinbase; \<open>jtxAddress\<close> is \<^verbatim>\<open>params.JtxAddress\<close>.
\<close>

definition join_hash :: "hash_fun \<Rightarrow> u64 \<Rightarrow> byte list \<Rightarrow> Address \<Rightarrow> Hash" where
  "join_hash keccak joinNonce otprn coinbase =
     rlpHash keccak (Lst [rlp_uint (unat joinNonce), Str otprn, array_item 20 coinbase])"

definition NewJoinTransaction ::
  "hash_fun \<Rightarrow> Address \<Rightarrow> u64 \<Rightarrow> u64 \<Rightarrow> byte list \<Rightarrow> Address \<Rightarrow> TxData option" where
  "NewJoinTransaction keccak jtxAddress nonce joinNonce otprn coinbase =
     (if length otprn > 0 then
        (let b = rev (be_fixed 8 (unat joinNonce));
             h = join_hash keccak joinNonce otprn coinbase;
             payload = otprn @ b @ hash_bytes h
         in Some (LegacyTx JoinTx
              \<lparr>AccountNonce = nonce, tx_Price = 0, tx_GasLimit = 0, Recipient = Some jtxAddress, Amount = 0,
               Payload = payload, sig_V = 0, sig_R = 0, sig_S = 0\<rparr>))
      else None)"

definition JoinNonce :: "TxData \<Rightarrow> tx_error + u64" where
  "JoinNonce tx =
     (if txType tx = JoinTx then
        (let payload = Payload (fields_of tx); n = length payload in
         if n < 40 then Inl TxPanic
         else Inr (word_of_nat (be_val (rev (take 8 (drop (n - 40) payload))))))
      else Inl ErrNotJoinTx)"

definition tx_Otprn :: "TxData \<Rightarrow> tx_error + byte list" where
  "tx_Otprn tx =
     (if txType tx = JoinTx then
        (let payload = Payload (fields_of tx) in
         if length payload < 40 then Inl TxPanic else Inr (take (length payload - 40) payload))
      else Inl ErrNotJoinTx)"

definition PayloadHash :: "TxData \<Rightarrow> tx_error + byte list" where
  "PayloadHash tx =
     (if txType tx = JoinTx then
        (let payload = Payload (fields_of tx) in
         if length payload < 32 then Inl TxPanic else Inr (drop (length payload - 32) payload))
      else Inl ErrNotJoinTx)"

definition Cost :: "TxData \<Rightarrow> nat" where
  "Cost tx = tx_Price (fields_of tx) * unat (tx_GasLimit (fields_of tx)) + Amount (fields_of tx)"

subsection \<open>RLP\<close>

definition fields_items :: "TxFields \<Rightarrow> item list" where
  "fields_items f =
     [rlp_uint (unat (AccountNonce f)), rlp_uint (tx_Price f), rlp_uint (unat (tx_GasLimit f)),
      nilptr_item (array_item 20) (Recipient f), rlp_uint (Amount f), Str (Payload f)]"

definition sig_items :: "TxFields \<Rightarrow> item list" where
  "sig_items f = [rlp_uint (sig_V f), rlp_uint (sig_R f), rlp_uint (sig_S f)]"

primrec tx_item :: "TxData \<Rightarrow> item" where
  "tx_item (LegacyTx t f) = Lst (rlp_uint (unat t) # fields_items f @ sig_items f)"
| "tx_item (EthTxData f) = Lst (fields_items f @ sig_items f)"

definition decodeLegacyTx :: "Stream \<Rightarrow> (u64 \<times> TxFields) sres" where
  "decodeLegacyTx =
     decode_as (\<lambda>(t, a, b, c, d, e, f, v, r, s, _).
         (t, \<lparr>AccountNonce = a, tx_Price = b, tx_GasLimit = c, Recipient = d, Amount = e, Payload = f,
              sig_V = v, sig_R = r, sig_S = s\<rparr>))
       (decodeStruct
         (structField decodeUint (structField decodeUint (structField decodeBigIntPtr (structField decodeUint
         (structField (decodeNilPtr KString (decodeArrayWord 20)) (structField decodeBigIntPtr
         (structField decodeByteSlice (structField decodeBigIntPtr (structField decodeBigIntPtr
         (structField decodeBigIntPtr structEnd)))))))))))"

definition decodeEthTx :: "Stream \<Rightarrow> TxFields sres" where
  "decodeEthTx =
     decode_as (\<lambda>(a, b, c, d, e, f, v, r, s, _).
         \<lparr>AccountNonce = a, tx_Price = b, tx_GasLimit = c, Recipient = d, Amount = e, Payload = f,
          sig_V = v, sig_R = r, sig_S = s\<rparr>)
       (decodeStruct
         (structField decodeUint (structField decodeBigIntPtr (structField decodeUint
         (structField (decodeNilPtr KString (decodeArrayWord 20)) (structField decodeBigIntPtr
         (structField decodeByteSlice (structField decodeBigIntPtr (structField decodeBigIntPtr
         (structField decodeBigIntPtr structEnd))))))))))"

text \<open>
  \<^verbatim>\<open>DecodeRLP\<close> peeks at the kind, decodes a \<^verbatim>\<open>LegacyTx\<close> and, when that fails, a \<^verbatim>\<open>txEthdata\<close> from where the
  stream then stands; the error of the second attempt is a new variable, so the first error is what
  the method returns.
\<close>

definition tx_DecodeRLP :: "Stream \<Rightarrow> TxData sres" where
  "tx_DecodeRLP s =
     (let s1 = snd (stream_Kind s) in
      case decodeLegacyTx s1 of
        (Inr (t, f), s2) \<Rightarrow> (Inr (LegacyTx t f), s2)
      | (Inl e, s2) \<Rightarrow> (Inl e, snd (decodeEthTx s2)))"

definition MarshalBinary :: "TxData \<Rightarrow> byte list" where
  "MarshalBinary tx = EncodeToBytes (tx_item tx)"

definition UnmarshalBinary :: "byte list \<Rightarrow> rlp_error + TxData" where
  "UnmarshalBinary b =
     (case DecodeBytes_to decodeLegacyTx b of
        Inr (t, f) \<Rightarrow> Inr (LegacyTx t f)
      | Inl _ \<Rightarrow>
          (case DecodeBytes_to decodeEthTx b of
             Inl e \<Rightarrow> Inl e
           | Inr f \<Rightarrow> Inr (LegacyTx EthTx f)))"

definition tx_Hash :: "hash_fun \<Rightarrow> TxData \<Rightarrow> Hash" where
  "tx_Hash keccak tx = rlpHash keccak (tx_item tx)"

text \<open>\<^verbatim>\<open>TxDifference\<close>: the transactions of \<open>a\<close> whose hash does not occur in \<open>b\<close>.\<close>

definition TxDifference :: "hash_fun \<Rightarrow> TxData list \<Rightarrow> TxData list \<Rightarrow> TxData list" where
  "TxDifference keccak a b =
     (let remove = fold (\<lambda>tx m. insert (tx_Hash keccak tx) m) b {}
      in filter (\<lambda>tx. tx_Hash keccak tx \<notin> remove) a)"

subsection \<open>Signers\<close>

datatype Signer = EIP155Signer nat | HomesteadSigner | FrontierSigner

primrec signer_ChainID :: "Signer \<Rightarrow> nat option" where
  "signer_ChainID (EIP155Signer c) = Some c"
| "signer_ChainID HomesteadSigner = None"
| "signer_ChainID FrontierSigner = None"

definition isProtectedV :: "nat \<Rightarrow> bool" where
  "isProtectedV V = (if BitLen V \<le> 8 then V \<noteq> 27 \<and> V \<noteq> 28 else True)"

definition deriveChainId :: "nat \<Rightarrow> nat" where
  "deriveChainId v =
     (if BitLen v \<le> 64 then
        (if v = 27 \<or> v = 28 then 0 else unat ((word_of_nat v - 35 :: u64) div 2))
      else (v - 35) div 2)"

definition secp256k1N :: nat where
  "secp256k1N = 0xfffffffffffffffffffffffffffffffebaaedce6af48a03bbfd25e8cd0364141"

definition ValidateSignatureValues :: "byte \<Rightarrow> nat \<Rightarrow> nat \<Rightarrow> bool \<Rightarrow> bool" where
  "ValidateSignatureValues v r s homestead =
     (if r < 1 \<or> s < 1 then False
      else if homestead \<and> s > secp256k1N div 2 then False
      else r < secp256k1N \<and> s < secp256k1N \<and> (v = 0 \<or> v = 1))"

definition sign_items :: "TxData \<Rightarrow> item list" where
  "sign_items tx =
     (if txType tx = EthTx then fields_items (fields_of tx)
      else rlp_uint (unat (txType tx)) # fields_items (fields_of tx))"

fun signer_item :: "Signer \<Rightarrow> TxData \<Rightarrow> item" where
  "signer_item (EIP155Signer c) tx = Lst (sign_items tx @ [rlp_uint c, rlp_uint 0, rlp_uint 0])"
| "signer_item _ tx = Lst (sign_items tx)"

definition signer_Hash :: "hash_fun \<Rightarrow> Signer \<Rightarrow> TxData \<Rightarrow> Hash" where
  "signer_Hash keccak s tx = rlpHash keccak (signer_item s tx)"

text \<open>
  \<^verbatim>\<open>recoverPlain\<close>.  The value \<open>Vb\<close> is an integer because \<^verbatim>\<open>EIP155Signer.Sender\<close> subtracts from it;
  \<^verbatim>\<open>BitLen\<close> and \<^verbatim>\<open>Uint64\<close> work on its absolute value.
\<close>

definition recoverPlain ::
  "hash_fun \<Rightarrow> (Hash \<Rightarrow> byte list \<Rightarrow> byte list option) \<Rightarrow> Hash \<Rightarrow> nat \<Rightarrow> nat \<Rightarrow> int \<Rightarrow> bool \<Rightarrow> tx_error + Address" where
  "recoverPlain keccak ecrecover sighash R S Vb homestead =
     (if BitLen (nat \<bar>Vb\<bar>) > 8 then Inl ErrInvalidSig
      else
        (let V = (word_of_nat (nat \<bar>Vb\<bar>) - 27 :: byte) in
         if \<not> ValidateSignatureValues V R S homestead then Inl ErrInvalidSig
         else
           (case ecrecover sighash (be_fixed 32 R @ be_fixed 32 S @ [V]) of
              None \<Rightarrow> Inl ErrEcrecover
            | Some pub \<Rightarrow>
                if length pub = 0 \<or> hd pub \<noteq> 4 then Inl ErrInvalidPubKey
                else Inr (ucast (keccak (tl pub))))))"

fun signer_Sender ::
  "hash_fun \<Rightarrow> (Hash \<Rightarrow> byte list \<Rightarrow> byte list option) \<Rightarrow> Signer \<Rightarrow> TxData \<Rightarrow> tx_error + Address" where
  "signer_Sender keccak ecrecover (EIP155Signer c) tx =
     (let f = fields_of tx in
      if \<not> isProtectedV (sig_V f) then
        recoverPlain keccak ecrecover (signer_Hash keccak HomesteadSigner tx) (sig_R f) (sig_S f) (int (sig_V f)) True
      else if deriveChainId (sig_V f) \<noteq> c then Inl ErrInvalidChainId
      else recoverPlain keccak ecrecover (signer_Hash keccak (EIP155Signer c) tx) (sig_R f) (sig_S f)
             (int (sig_V f) - 2 * int c - 8) True)"
| "signer_Sender keccak ecrecover HomesteadSigner tx =
     (let f = fields_of tx in
      recoverPlain keccak ecrecover (signer_Hash keccak HomesteadSigner tx) (sig_R f) (sig_S f) (int (sig_V f)) True)"
| "signer_Sender keccak ecrecover FrontierSigner tx =
     (let f = fields_of tx in
      recoverPlain keccak ecrecover (signer_Hash keccak FrontierSigner tx) (sig_R f) (sig_S f) (int (sig_V f)) False)"

fun SignatureValues :: "Signer \<Rightarrow> byte list \<Rightarrow> tx_error + nat \<times> nat \<times> nat" where
  "SignatureValues s sg =
     (if length sg \<noteq> 65 then Inl TxPanic
      else
        (let R = be_val (take 32 sg); S = be_val (take 32 (drop 32 sg));
             V = unat (sg ! 64 + 27)
         in case s of
              EIP155Signer c \<Rightarrow> Inr (R, S, if c \<noteq> 0 then unat (sg ! 64 + 35) + 2 * c else V)
            | _ \<Rightarrow> Inr (R, S, V)))"

definition map_fields :: "(TxFields \<Rightarrow> TxFields) \<Rightarrow> TxData \<Rightarrow> TxData" where
  "map_fields g tx = (case tx of LegacyTx t f \<Rightarrow> LegacyTx t (g f) | EthTxData f \<Rightarrow> EthTxData (g f))"

definition WithSignature :: "Signer \<Rightarrow> byte list \<Rightarrow> TxData \<Rightarrow> tx_error + TxData" where
  "WithSignature s sg tx =
     result_bind (SignatureValues s sg)
       (\<lambda>(R, S, V). Inr (map_fields (\<lambda>f. f\<lparr>sig_V := V, sig_R := R, sig_S := S\<rparr>) tx))"

text \<open>\<open>sign\<close> is \<^verbatim>\<open>crypto.Sign\<close> with a private key.\<close>

definition SignTx :: "hash_fun \<Rightarrow> (Hash \<Rightarrow> byte list option) \<Rightarrow> TxData \<Rightarrow> Signer \<Rightarrow> tx_error + TxData" where
  "SignTx keccak sign tx s =
     (case sign (signer_Hash keccak s tx) of
        None \<Rightarrow> Inl ErrInvalidSig
      | Some sg \<Rightarrow> WithSignature s sg tx)"

subsection \<open>Codecs\<close>

interpretation legacy_codec: rlp_codec "\<lambda>(t, f). tx_item (LegacyTx t f)" decodeLegacyTx
  unfolding decodeLegacyTx_def
  by (rule codec_struct_as [where g = "\<lambda>(t, f). (t, AccountNonce f, tx_Price f, tx_GasLimit f, Recipient f, Amount f,
        Payload f, sig_V f, sig_R f, sig_S f, ())"])
    (rule fields_field fields_end field_codecs | auto simp: fields_items_def sig_items_def)+

interpretation eth_codec: rlp_codec "\<lambda>f. tx_item (EthTxData f)" decodeEthTx
  unfolding decodeEthTx_def
  by (rule codec_struct_as [where g = "\<lambda>f. (AccountNonce f, tx_Price f, tx_GasLimit f, Recipient f, Amount f,
        Payload f, sig_V f, sig_R f, sig_S f, ())"])
    (rule fields_field fields_end field_codecs | auto simp: fields_items_def sig_items_def)+

lemma length_fields_items [simp]: "length (fields_items f) = 6" "length (sig_items f) = 3"
  by (simp_all add: fields_items_def sig_items_def)

lemma tx_item_neq: "tx_item (LegacyTx t f) \<noteq> tx_item (EthTxData g)"
proof
  assume "tx_item (LegacyTx t f) = tx_item (EthTxData g)"
  then have "rlp_uint (unat t) # fields_items f @ sig_items f = fields_items g @ sig_items g" by simp
  then have "length (rlp_uint (unat t) # fields_items f @ sig_items f) = length (fields_items g @ sig_items g)"
    by (rule arg_cong)
  then show False by simp
qed

lemma eth_not_legacy:
  assumes "length (encode (tx_item (EthTxData f))) < 2 ^ 64"
  shows "\<nexists>x. DecodeBytes_to decodeLegacyTx (MarshalBinary (EthTxData f)) = Inr x"
proof
  assume "\<exists>x. DecodeBytes_to decodeLegacyTx (MarshalBinary (EthTxData f)) = Inr x"
  then obtain t g where d: "DecodeBytes_to decodeLegacyTx (MarshalBinary (EthTxData f)) = Inr (t, g)" by auto
  have m: "MarshalBinary (EthTxData f) = encode (tx_item (EthTxData f))"
    using assms by (simp add: MarshalBinary_def EncodeToBytes_encode)
  have "encode (tx_item (EthTxData f)) = encode (tx_item (LegacyTx t g))"
    using legacy_codec.DecodeBytes_to_canonical [OF d] assms m by simp
  then have "tx_item (EthTxData f) = tx_item (LegacyTx t g)" using assms by (rule encode_inject)
  then show False using tx_item_neq by metis
qed

lemma fields_items_inject:
  "fields_items f = fields_items g \<longleftrightarrow>
     AccountNonce f = AccountNonce g \<and> tx_Price f = tx_Price g \<and> tx_GasLimit f = tx_GasLimit g \<and>
     Recipient f = Recipient g \<and> Amount f = Amount g \<and> Payload f = Payload g"
proof -
  have "nilptr_item (array_item 20) a = nilptr_item (array_item 20) b \<longleftrightarrow> a = b" for a b :: "Address option"
  proof -
    have "array_item 20 w \<noteq> Str []" for w :: Address
      by (auto simp: array_item_def dest: arg_cong [where f = length])
    from this this [symmetric] show ?thesis by (auto simp: nilptr_item_def split: option.splits)
  qed
  then show ?thesis by (auto simp: fields_items_def word_unat_eq_iff)
qed

lemma map_fields_simps [simp]:
  "txType (map_fields g tx) = txType tx" "fields_of (map_fields g tx) = g (fields_of tx)"
  by (cases tx; simp add: map_fields_def)+

lemma signer_item_signature [simp]:
  "signer_item s (map_fields (\<lambda>f. f\<lparr>sig_V := V, sig_R := R, sig_S := S\<rparr>) tx) = signer_item s tx"
  by (cases s) (simp_all add: sign_items_def fields_items_def)

lemma BitLen_0 [simp]: "BitLen 0 = 0"
  by (simp add: BitLen.simps)

lemma BitLen_le: "n < 2 ^ k \<Longrightarrow> BitLen n \<le> k"
proof (rule ccontr)
  assume n: "n < 2 ^ k" "\<not> BitLen n \<le> k"
  then have "0 < n" by (cases "n = 0") auto
  then have "2 ^ (BitLen n - 1) \<le> n" by (rule BitLen_bounds(2))
  moreover have "(2 :: nat) ^ k \<le> 2 ^ (BitLen n - 1)" using n(2) by (intro power_increasing) auto
  ultimately show False using n(1) by linarith
qed

lemma deriveChainId_protected:
  assumes "v = 35 + p + 2 * c" "p \<le> 1" "0 < c"
  shows "deriveChainId v = c"
proof (cases "BitLen v \<le> 64")
  have val: "(v - 35) div 2 = c" "v \<noteq> 27" "v \<noteq> 28" using assms by auto
  case True
  have "v < 2 ^ BitLen v" by (rule BitLen_bounds(1))
  also have "(2 :: nat) ^ BitLen v \<le> 2 ^ 64" using True by (rule power_increasing) simp
  finally have v: "v < 2 ^ 64" .
  have "(word_of_nat v - 35 :: u64) = word_of_nat (v - 35)" using assms by (simp add: of_nat_diff)
  then have "unat (word_of_nat v - 35 :: u64) = v - 35" using v by (simp add: unat_word_of_nat_u64)
  then have "unat ((word_of_nat v - 35 :: u64) div 2) = (v - 35) div 2" by (simp add: unat_div)
  then show ?thesis using True val by (simp add: deriveChainId_def)
next
  have val: "(v - 35) div 2 = c" using assms by auto
  case False
  then show ?thesis using val by (simp add: deriveChainId_def)
qed

lemma decodeLegacyTx_peek: "stream_Kind s = (Inr q, s1) \<Longrightarrow> decodeLegacyTx s1 = decodeLegacyTx s"
  using stream_Kind_idem [of s q s1] by (simp add: decodeLegacyTx_def decode_as_def decodeStruct_def stream_List_def)

lemma stream_Kind_Lst:
  assumes "ahead (encode (Lst xs)) rest s"
  shows "\<exists>q s1. stream_Kind s = (Inr q, s1)"
proof -
  obtain s' where "decodeInterface (2 * length (encode (Lst xs)) + 1) s = Some (Inr (Lst xs), s')"
    using decodesD [OF assms] by fastforce
  then show ?thesis by (auto split: prod.splits sum.splits)
qed

lemma signer_item_inject:
  assumes "signer_item (EIP155Signer c) tx = signer_item (EIP155Signer c') tx'"
  shows "c = c' \<and> txType tx = txType tx' \<and> fields_items (fields_of tx) = fields_items (fields_of tx')"
proof -
  from assms have e: "sign_items tx @ [rlp_uint c, rlp_uint 0, rlp_uint 0] = sign_items tx' @ [rlp_uint c', rlp_uint 0, rlp_uint 0]"
    by simp
  then have s: "sign_items tx = sign_items tx'" "c = c'" by auto
  then have "length (sign_items tx) = length (sign_items tx')" by simp
  then have "txType tx = EthTx \<longleftrightarrow> txType tx' = EthTx" by (auto simp: sign_items_def split: if_splits)
  then show ?thesis using s by (auto simp: sign_items_def word_unat_eq_iff split: if_splits)
qed

lemma take_drop_65:
  assumes "length sg = 65"
  shows "take 32 sg @ take 32 (drop 32 sg) @ [sg ! 64] = sg"
proof -
  have "drop 64 sg = [sg ! 64]" using assms by (simp add: Cons_nth_drop_Suc [symmetric])
  then have "take 32 (drop 32 sg) @ [sg ! 64] = drop 32 sg"
    using append_take_drop_id [of 32 "drop 32 sg"] by simp
  then show ?thesis by simp
qed

lemma recoverPlain_signature:
  assumes "length sg = 65" "sg ! 64 = 0 \<or> sg ! 64 = 1"
    and "ValidateSignatureValues (sg ! 64) (be_val (take 32 sg)) (be_val (take 32 (drop 32 sg))) True"
    and "ecrecover h sg = Some (4 # pk)"
  shows "recoverPlain keccak ecrecover h (be_val (take 32 sg)) (be_val (take 32 (drop 32 sg)))
           (27 + int (unat (sg ! 64))) True = Inr (ucast (keccak pk))"
proof -
  have "nat \<bar>27 + int k\<bar> = 27 + k" for k by simp
  then have n: "nat \<bar>27 + int (unat (sg ! 64))\<bar> = 27 + unat (sg ! 64)" .
  have "27 + unat (sg ! 64) < 2 ^ 8" using assms(2) by auto
  then have b: "BitLen (27 + unat (sg ! 64)) \<le> 8" by (rule BitLen_le)
  have v: "word_of_nat (27 + unat (sg ! 64)) - 27 = sg ! 64" by simp
  have "be_fixed 32 (be_val (take 32 sg)) = take 32 sg"
    "be_fixed 32 (be_val (take 32 (drop 32 sg))) = take 32 (drop 32 sg)"
    using be_fixed_be_val [of "take 32 sg"] be_fixed_be_val [of "take 32 (drop 32 sg)"] assms(1) by simp_all
  then show ?thesis using assms(3,4) b take_drop_65 [OF assms(1)]
    unfolding recoverPlain_def n v by (simp add: Let_def)
qed

subsection \<open>Properties\<close>

text \<open>
  C17: Binary round trip of transactions: \<^verbatim>\<open>UnmarshalBinary\<close> of what \<^verbatim>\<open>MarshalBinary\<close> writes gives the transaction
  back, and a transaction in Ethereum's nine-field format comes back as a \<^verbatim>\<open>LegacyTx\<close> of type \<^verbatim>\<open>EthTx\<close>.
\<close>

theorem tx_binary_roundtrip:
  assumes "length (encode (tx_item tx)) < 2 ^ 64"
  shows "UnmarshalBinary (MarshalBinary tx) =
    Inr (case tx of LegacyTx t f \<Rightarrow> LegacyTx t f | EthTxData f \<Rightarrow> LegacyTx EthTx f)"
proof (cases tx)
  case (LegacyTx t f)
  then show ?thesis using legacy_codec.DecodeBytes_to_encode [of "(t, f)"] assms
    by (simp add: UnmarshalBinary_def MarshalBinary_def)
next
  case (EthTxData f)
  then have "DecodeBytes_to decodeEthTx (MarshalBinary tx) = Inr f"
    using eth_codec.DecodeBytes_to_encode [of f] assms by (simp add: MarshalBinary_def)
  then show ?thesis using eth_not_legacy [of f] assms EthTxData
    by (auto simp: UnmarshalBinary_def split: sum.splits)
qed

definition sample_fields :: TxFields where
  "sample_fields = \<lparr>AccountNonce = 9, tx_Price = 20, tx_GasLimit = 21000, Recipient = Some 0x3535, Amount = 1,
     Payload = [], sig_V = 37, sig_R = 5, sig_S = 7\<rparr>"

lemma sample_encode_length: "length (encode (tx_item (EthTxData sample_fields))) < 2 ^ 64"
proof -
  have "length (encode (tx_item (EthTxData sample_fields))) \<le> 50" by code_simp
  then show ?thesis by (rule le_less_trans) simp
qed

theorem tx_binary_roundtrip_witness:
  "UnmarshalBinary (MarshalBinary (EthTxData sample_fields)) = Inr (LegacyTx EthTx sample_fields)"
  using tx_binary_roundtrip [OF sample_encode_length] by simp

text \<open>
  C25: The fallback of the stream decoder is dead: \<^verbatim>\<open>Transaction.DecodeRLP\<close> returns an error for every
  transaction in Ethereum's nine-field format, although \<^verbatim>\<open>UnmarshalBinary\<close> accepts it (the error variable of
  the second attempt shadows the first one).
\<close>

theorem tx_DecodeRLP_rejects_eth:
  assumes "length (encode (tx_item (EthTxData f))) < 2 ^ 64"
  shows "\<exists>e. DecodeBytes_to tx_DecodeRLP (MarshalBinary (EthTxData f)) = Inl e"
proof -
  let ?b = "encode (tx_item (EthTxData f))"
  let ?s = "stream_Reset ?b (word_of_nat (length ?b))"
  have a: "ahead ?b [] ?s" using ahead_Reset [OF append_Nil2 [symmetric] assms] .
  then obtain q s1 where k: "stream_Kind ?s = (Inr q, s1)"
    using stream_Kind_Lst [of "fields_items f @ sig_items f" "[]" ?s] by auto
  have "fst (decodeLegacyTx ?s) \<noteq> Inr x" for x
  proof
    assume "fst (decodeLegacyTx ?s) = Inr x"
    then obtain t g s' where d: "decodeLegacyTx ?s = (Inr (t, g), s')" by (cases "decodeLegacyTx ?s"; cases x) auto
    have "consumes ?s (encode (tx_item (LegacyTx t g))) s'"
      using legacy_codec.sound [OF d aheadD [OF a]] by (simp add: consumed_def)
    then have "?b @ [] = encode (tx_item (LegacyTx t g)) @ inp s'" by (simp add: consumes_def)
    from encode_prefix_free [OF this] show False using assms tx_item_neq by (metis append_Nil2)
  qed
  then obtain e s2 where "decodeLegacyTx s1 = (Inl e, s2)"
    using decodeLegacyTx_peek [OF k] by (cases "decodeLegacyTx ?s"; cases "fst (decodeLegacyTx ?s)") auto
  then have "fst (tx_DecodeRLP ?s) = Inl e" using k by (simp add: tx_DecodeRLP_def)
  then show ?thesis using EncodeToBytes_encode [OF assms]
    by (cases "tx_DecodeRLP ?s") (simp add: DecodeBytes_to_def MarshalBinary_def)
qed

theorem tx_DecodeRLP_rejects_eth_witness:
  "\<exists>e. DecodeBytes_to tx_DecodeRLP (MarshalBinary (EthTxData sample_fields)) = Inl e"
  by (rule tx_DecodeRLP_rejects_eth [OF sample_encode_length])



text \<open>
  C19: What a signature covers: two transactions with the same EIP-155 signing payload have the same
  type, nonce, price, gas limit, recipient, amount and data, and are for the same chain.  Only the
  signature values may differ.
\<close>

theorem signing_payload_binds:
  assumes "EncodeToBytes (signer_item (EIP155Signer c) tx) = EncodeToBytes (signer_item (EIP155Signer c') tx')"
    and "length (encode (signer_item (EIP155Signer c) tx)) < 2 ^ 64"
    and "length (encode (signer_item (EIP155Signer c') tx')) < 2 ^ 64"
  shows "c = c' \<and> txType tx = txType tx' \<and>
    fields_of tx' = (fields_of tx)\<lparr>sig_V := sig_V (fields_of tx'), sig_R := sig_R (fields_of tx'), sig_S := sig_S (fields_of tx')\<rparr>"
proof -
  have "encode (signer_item (EIP155Signer c) tx) = encode (signer_item (EIP155Signer c') tx')"
    using assms(1) EncodeToBytes_encode [OF assms(2)] EncodeToBytes_encode [OF assms(3)] by simp
  then have "signer_item (EIP155Signer c) tx = signer_item (EIP155Signer c') tx'"
    using assms(2) by (rule encode_inject)
  from signer_item_inject [OF this] show ?thesis by (simp add: fields_items_inject)
qed

theorem signing_payload_binds_witness:
  "txType (EthTxData sample_fields) = txType (LegacyTx EthTx (sample_fields\<lparr>sig_V := 0\<rparr>))"
proof -
  have e: "signer_item (EIP155Signer 1) (EthTxData sample_fields) = signer_item (EIP155Signer 1) (LegacyTx EthTx (sample_fields\<lparr>sig_V := 0\<rparr>))"
    by (simp add: sign_items_def sample_fields_def fields_items_def)
  have "length (encode (signer_item (EIP155Signer 1) (EthTxData sample_fields))) < 2 ^ 64" by code_simp
  with signing_payload_binds [of 1 "EthTxData sample_fields" 1 "LegacyTx EthTx (sample_fields\<lparr>sig_V := 0\<rparr>)"] e
  show ?thesis by simp
qed

text \<open>
  C26: The payload of a join transaction can be read back: \<^verbatim>\<open>Otprn\<close>, \<^verbatim>\<open>JoinNonce\<close> and \<^verbatim>\<open>PayloadHash\<close> return the
  OTPRN, the join nonce and the hash of join nonce, OTPRN and coinbase that \<^verbatim>\<open>NewJoinTransaction\<close> stored; an
  empty OTPRN gives no transaction.
\<close>

theorem join_payload_roundtrip:
  "case NewJoinTransaction keccak jtx nonce joinNonce otprn coinbase of
     None \<Rightarrow> otprn = []
   | Some tx \<Rightarrow> otprn \<noteq> [] \<and> txType tx = JoinTx \<and> tx_Otprn tx = Inr otprn \<and> JoinNonce tx = Inr joinNonce \<and>
       PayloadHash tx = Inr (hash_bytes (join_hash keccak joinNonce otprn coinbase))"
proof -
  have "be_val (be_fixed 8 (unat joinNonce)) = unat joinNonce" using unat_u64_less [of joinNonce] by simp
  then show ?thesis
    by (auto simp: NewJoinTransaction_def Let_def tx_Otprn_def JoinNonce_def PayloadHash_def)
qed

end
