(* ===== verification/Selection.thy ===== *)
theory Selection
  imports Prelude "HOL-Library.Multiset"
begin

text \<open>
  Choosing the best of several candidates by comparing them one after the other.  Both the miners
  (\<^verbatim>\<open>Deb.SelectWinningBlock\<close>) and the fairnode (\<^verbatim>\<open>verify.ValidationFinalBlockHash\<close>) do this; the locale holds
  what they need of the comparison, and the lemmas that do not depend on the candidates.
\<close>

definition keep_best :: "('a \<Rightarrow> 'a \<Rightarrow> bool) \<Rightarrow> 'a \<Rightarrow> 'a \<Rightarrow> 'a" where
  "keep_best beats x cur = (if beats x cur then x else cur)"

lemma fold_keep_best_mem: "fold (keep_best beats) xs cur \<in> set (cur # xs)"
proof (induction xs arbitrary: cur)
  case (Cons x xs)
  have "keep_best beats x cur = x \<or> keep_best beats x cur = cur" by (simp add: keep_best_def)
  with Cons.IH [of "keep_best beats x cur"] show ?case by auto
qed simp

locale comparison =
  fixes beats :: "'a \<Rightarrow> 'a \<Rightarrow> bool"
  assumes irrefl: "\<not> beats x x"
    and trans: "beats x y \<Longrightarrow> beats y z \<Longrightarrow> beats x z"
    and neg_trans: "\<not> beats x y \<Longrightarrow> \<not> beats y z \<Longrightarrow> \<not> beats x z"
begin

lemma asym: "beats x y \<Longrightarrow> \<not> beats y x"
  using irrefl trans by blast

lemma fold_keep_best_mono: "\<not> beats y cur \<Longrightarrow> \<not> beats y (fold (keep_best beats) xs cur)"
proof (induction xs arbitrary: cur)
  case (Cons x xs)
  have "\<not> beats y (keep_best beats x cur)"
  proof (cases "beats x cur")
    case True
    then have "\<not> beats cur x" by (rule asym)
    with Cons.prems have "\<not> beats y x" by (rule neg_trans)
    with True show ?thesis by (simp add: keep_best_def)
  next
    case False
    with Cons.prems show ?thesis by (simp add: keep_best_def)
  qed
  then show ?case using Cons.IH by simp
qed simp

lemma fold_keep_best_max:
  assumes "y \<in> set (cur # xs)"
  shows "\<not> beats y (fold (keep_best beats) xs cur)"
  using assms
proof (induction xs arbitrary: cur)
  case Nil
  then show ?case using irrefl by simp
next
  case (Cons x xs)
  show ?case
  proof (cases "y \<in> set xs")
    case True
    then show ?thesis using Cons.IH by simp
  next
    case False
    with Cons.prems have "y = cur \<or> y = x" by auto
    then have "\<not> beats y (keep_best beats x cur)"
      using irrefl [of x] irrefl [of cur] asym [of x cur] by (auto simp: keep_best_def)
    then show ?thesis using fold_keep_best_mono by simp
  qed
qed

text \<open>When no two different candidates tie, the order of the comparisons does not matter.\<close>

lemma fold_keep_best_order:
  assumes "mset (a # xs) = mset (b # ys)"
    and "\<And>x y. x \<in> set (a # xs) \<Longrightarrow> y \<in> set (a # xs) \<Longrightarrow> x \<noteq> y \<Longrightarrow> beats x y \<or> beats y x"
  shows "fold (keep_best beats) xs a = fold (keep_best beats) ys b"
proof (rule ccontr)
  let ?l = "fold (keep_best beats) xs a" and ?r = "fold (keep_best beats) ys b"
  assume ne: "?l \<noteq> ?r"
  have sets: "set (a # xs) = set (b # ys)" using assms(1) by (metis set_mset_mset)
  have "?l \<in> set (a # xs)" "?r \<in> set (b # ys)" by (rule fold_keep_best_mem)+
  then have "\<not> beats ?l ?r" "\<not> beats ?r ?l" "?l \<in> set (a # xs)" "?r \<in> set (a # xs)"
    using sets fold_keep_best_max by blast+
  with ne assms(2) show False by blast
qed

end

end
