(* ===== verification/Deb.thy ===== *)
theory Deb
  imports Transactions Selection
begin

text \<open>
  The proof-of-deb consensus engine (\<^verbatim>\<open>src/consensus/deb\<close>): the difficulty of a block from its join nonce,
  the choice between two blocks, the checks on headers and league blocks, and the preparation of a
  new header.

  Parameters: \<open>keccak\<close>; \<open>recover\<close> for signatures; \<open>now\<close>, the Unix time; \<open>getHeader\<close>, the chain's lookup by
  hash and number; \<open>testAddr\<close>, \<^verbatim>\<open>params.TestFairnodeAddr\<close>.  Balances and rewards (\<^verbatim>\<open>Finalize\<close>,
  \<^verbatim>\<open>ChangeJoinNonceAndReword\<close>) are not modelled here: they compute with \<^verbatim>\<open>big.Float\<close>.
\<close>

subsection \<open>Difficulty\<close>

text \<open>\<^verbatim>\<open>strconv.Itoa\<close> on non-negative numbers.\<close>

fun itoa :: "nat \<Rightarrow> byte list" where
  "itoa n = (if n < 10 then [word_of_nat (48 + n)] else itoa (n div 10) @ [word_of_nat (48 + n mod 10)])"

declare itoa.simps [simp del]

definition csprng :: "hash_fun \<Rightarrow> nat \<Rightarrow> Hash \<Rightarrow> Address \<Rightarrow> Hash \<Rightarrow> int" where
  "csprng keccak n otprn coinbase pBlockHash =
     (let bn = itoa n @ hash_bytes otprn @ hash_bytes pBlockHash @ address_bytes coinbase
      in sint (ucast (keccak bn) :: u64))"

definition MakeRand :: "hash_fun \<Rightarrow> u64 \<Rightarrow> Hash \<Rightarrow> Address \<Rightarrow> Hash \<Rightarrow> int" where
  "MakeRand keccak joinNonce otprn coinbase pBlockHash =
     (let cnt = (if sint joinNonce > 1000 then 1000 else sint joinNonce);
          rand = fold (\<lambda>i rand. let newRand = csprng keccak i otprn coinbase pBlockHash in
                         if newRand > rand then newRand else rand)
                   [0..<nat (cnt + 1)] 0
      in if rand < 0 then - rand else rand)"

text \<open>The addition is on \<^verbatim>\<open>int64\<close> and wraps.\<close>

definition calcDifficultyDeb :: "hash_fun \<Rightarrow> u64 \<Rightarrow> byte list \<Rightarrow> Address \<Rightarrow> Hash \<Rightarrow> int" where
  "calcDifficultyDeb keccak joinNonce otprn coinbase parentHash =
     sint (word_of_int (MakeRand keccak joinNonce (BytesToHash otprn) coinbase parentHash + 1) :: u64)"

subsection \<open>The engine\<close>

record Deb =
  coinbase :: Address
  otprn :: "Otprn option"

definition SetCoinbase :: "Address \<Rightarrow> Deb \<Rightarrow> Deb" where
  "SetCoinbase a c = c\<lparr>coinbase := a\<rparr>"

datatype deb_error =
    errExtraTooLong | errGasLimit | errGasUsed | ErrFutureBlock | errDecodeOtprn rlp_error | errOtprnSign sig_error
  | errInvalidDifficulty | errForkHash | ErrUnknownAncestor | errUnknownBlock | errEmptyFairnodeSign
  | errFairnodeSign sig_error | errNotMatchBlockNumber | ertNotMatchOtprn | errNotExistJoinTransaction
  | errGetState | errNilOtprn | DebPanic

text \<open>The header's number and difficulty are set; \<open>eip150\<close> is the fork's block number and hash.\<close>

definition VerifyForkHashes :: "hash_fun \<Rightarrow> (nat \<times> Hash) option \<Rightarrow> Header \<Rightarrow> deb_error + unit" where
  "VerifyForkHashes keccak eip150 header =
     (case eip150 of
        None \<Rightarrow> Inr ()
      | Some (blk, h) \<Rightarrow>
          if blk = Number header \<and> h \<noteq> 0 \<and> h \<noteq> Header_Hash keccak header then Inl errForkHash else Inr ())"

definition fairnode_hash :: "hash_fun \<Rightarrow> Header \<Rightarrow> Hash" where
  "fairnode_hash keccak header =
     rlpHash keccak (Lst [array_item 32 (Header_Hash keccak header), array_item 32 (VoteHash header)])"

definition VerifyFairnodeSign :: "hash_fun \<Rightarrow> recover_fun \<Rightarrow> Header \<Rightarrow> deb_error + unit" where
  "VerifyFairnodeSign keccak recover header =
     (case DecodeOtprn (hd_Otprn header) of
        Inl e \<Rightarrow> Inl (errDecodeOtprn e)
      | Inr otp \<Rightarrow>
          (case ValidationSignHash recover (FairnodeSign header) (fairnode_hash keccak header) (FnAddr otp) of
             Inl e \<Rightarrow> Inl (errFairnodeSign e)
           | Inr _ \<Rightarrow> Inr ()))"

definition verifySeal :: "hash_fun \<Rightarrow> recover_fun \<Rightarrow> Header \<Rightarrow> deb_error + unit" where
  "verifySeal keccak recover header =
     (let number = (word_of_nat (Number header) :: u64) in
      if number = 0 then Inl errUnknownBlock
      else if FairnodeSign header = [] then Inl errEmptyFairnodeSign
      else VerifyFairnodeSign keccak recover header)"

definition verifyCascadingFields ::
  "hash_fun \<Rightarrow> recover_fun \<Rightarrow> (Hash \<Rightarrow> u64 \<Rightarrow> Header option) \<Rightarrow> Header \<Rightarrow> Header list \<Rightarrow> bool \<Rightarrow> deb_error + unit" where
  "verifyCascadingFields keccak recover getHeader header parents seal =
     (let number = (word_of_nat (Number header) :: u64) in
      if number = 0 then Inr ()
      else
        (let parent = (if length parents > 0 then Some (last parents)
                       else getHeader (ParentHash header) (number - 1))
         in case parent of
              None \<Rightarrow> Inl ErrUnknownAncestor
            | Some p \<Rightarrow>
                if word_of_nat (Number p) \<noteq> number - 1 \<or> Header_Hash keccak p \<noteq> ParentHash header
                then Inl ErrUnknownAncestor
                else if \<not> seal then Inr ()
                else verifySeal keccak recover header))"

definition MaximumExtraDataSize :: nat where "MaximumExtraDataSize = 32"
definition MaxGasLimit :: u64 where "MaxGasLimit = 0x7fffffffffffffff"

definition verifyHeader ::
  "hash_fun \<Rightarrow> recover_fun \<Rightarrow> Address \<Rightarrow> (nat \<times> Hash) option \<Rightarrow> (Hash \<Rightarrow> u64 \<Rightarrow> Header option) \<Rightarrow> nat \<Rightarrow> Deb \<Rightarrow>
   Header \<Rightarrow> Header list \<Rightarrow> bool \<Rightarrow> deb_error + unit" where
  "verifyHeader keccak recover testAddr eip150 getHeader now c header parents seal =
     (if length (Extra header) > MaximumExtraDataSize then Inl errExtraTooLong
      else if GasLimit header > MaxGasLimit then Inl errGasLimit
      else if GasUsed header > GasLimit header then Inl errGasUsed
      else if coinbase c \<noteq> Coinbase header \<and> Time header > now + 5 then Inl ErrFutureBlock
      else if coinbase c = Coinbase header \<and> Time header > now then Inl ErrFutureBlock
      else
        (case DecodeOtprn (hd_Otprn header) of
           Inl e \<Rightarrow> Inl (errDecodeOtprn e)
         | Inr otp \<Rightarrow>
             (case ValidateSignature keccak recover otp of
                Inl e \<Rightarrow> Inl (errOtprnSign e)
              | Inr _ \<Rightarrow>
                  if (word_of_nat (Number header) :: u64) > 0 \<and> FnAddr otp \<noteq> testAddr \<and>
                     int (Difficulty header) \<noteq>
                       calcDifficultyDeb keccak (Nonce header) (hd_Otprn header) (Coinbase header) (ParentHash header)
                  then Inl errInvalidDifficulty
                  else
                    result_bind (VerifyForkHashes keccak eip150 header)
                      (\<lambda>_. verifyCascadingFields keccak recover getHeader header parents seal))))"

text \<open>\<^verbatim>\<open>VerifyHeaders\<close>: every header against the ones before it in the batch, sealed.\<close>

definition VerifyHeaders ::
  "hash_fun \<Rightarrow> recover_fun \<Rightarrow> Address \<Rightarrow> (nat \<times> Hash) option \<Rightarrow> (Hash \<Rightarrow> u64 \<Rightarrow> Header option) \<Rightarrow> nat \<Rightarrow> Deb \<Rightarrow>
   Header list \<Rightarrow> (deb_error + unit) list" where
  "VerifyHeaders keccak recover testAddr eip150 getHeader now c headers =
     map (\<lambda>i. verifyHeader keccak recover testAddr eip150 getHeader now c (headers ! i) (take i headers) True)
       [0..<length headers]"

subsection \<open>Blocks\<close>

record Block =
  header :: Header
  transactions :: "TxData list"
  voters :: "Voter list"

definition SelectWinningBlock :: "Block option \<Rightarrow> Block \<Rightarrow> Block" where
  "SelectWinningBlock pblock rblock =
     (case pblock of
        None \<Rightarrow> rblock
      | Some p \<Rightarrow>
          if Difficulty (header rblock) > Difficulty (header p) then rblock
          else if Difficulty (header rblock) = Difficulty (header p) then
            (if Nonce (header rblock) > Nonce (header p) then rblock
             else if Nonce (header rblock) = Nonce (header p) then
               (if (word_of_nat (Number (header rblock)) :: u64) mod 2 = 0 then
                  (if Coinbase (header rblock) > Coinbase (header p) then rblock else p)
                else
                  (if Coinbase (header rblock) < Coinbase (header p) then rblock else p))
             else p)
          else p)"

fun find_join :: "byte list \<Rightarrow> TxData list \<Rightarrow> deb_error + unit" where
  "find_join h [] = Inl errNotExistJoinTransaction"
| "find_join h (tx # txs) =
     (if txType tx = JoinTx then
        (case PayloadHash tx of
           Inl _ \<Rightarrow> Inl DebPanic
         | Inr phash \<Rightarrow> if h = phash then Inr () else find_join h txs)
      else find_join h txs)"

definition validationBlockInJoinTx :: "hash_fun \<Rightarrow> Header \<Rightarrow> TxData list \<Rightarrow> deb_error + unit" where
  "validationBlockInJoinTx keccak head txs =
     find_join
       (hash_bytes (rlpHash keccak (Lst [rlp_uint (unat (Nonce head)), Str (hd_Otprn head), array_item 20 (Coinbase head)])))
       txs"

text \<open>A nil OTPRN encodes as the empty list.\<close>

definition encode_otprn_ptr :: "Otprn option \<Rightarrow> byte list" where
  "encode_otprn_ptr p = (case p of None \<Rightarrow> [0xC0] | Some otp \<Rightarrow> EncodeOtprn otp)"

definition ValidationLeagueBlock :: "hash_fun \<Rightarrow> nat \<Rightarrow> Deb \<Rightarrow> Block \<Rightarrow> deb_error + unit" where
  "ValidationLeagueBlock keccak currentNumber c block =
     (if (word_of_nat currentNumber :: u64) + 1 \<noteq> word_of_nat (Number (header block)) then Inl errNotMatchBlockNumber
      else if encode_otprn_ptr (otprn c) \<noteq> hd_Otprn (header block) then Inl ertNotMatchOtprn
      else validationBlockInJoinTx keccak (header block) (transactions block))"

text \<open>
  \<open>stateAt\<close> gives the join nonces of the state with a given root.  The difficulty is positive unless
  \<open>MakeRand\<close> is $2^{63}-1$ (\<open>calcDifficultyDeb_eq\<close>), so storing it as a natural number loses nothing else.
\<close>

definition Prepare ::
  "hash_fun \<Rightarrow> (Hash \<Rightarrow> u64 \<Rightarrow> Header option) \<Rightarrow> (Hash \<Rightarrow> (Address \<Rightarrow> u64) option) \<Rightarrow> nat \<Rightarrow> Deb \<Rightarrow> Header \<Rightarrow>
   deb_error + Header" where
  "Prepare keccak getHeader stateAt now c head =
     (let number = (word_of_nat (Number head) :: u64) in
      case getHeader (ParentHash head) (number - 1) of
        None \<Rightarrow> Inl ErrUnknownAncestor
      | Some parent \<Rightarrow>
          (case stateAt (Root parent) of
             None \<Rightarrow> Inl errGetState
           | Some joinNonce \<Rightarrow>
               (case otprn c of
                  None \<Rightarrow> Inl errNilOtprn
                | Some otp \<Rightarrow>
                    (let bOtprn = EncodeOtprn otp;
                         nonce = joinNonce (Coinbase head)
                     in Inr (head\<lparr>GasLimit := Price_GasLimit (cc_Price (otp_Data otp)), hd_Otprn := bOtprn,
                                 Nonce := nonce, Time := now,
                                 Difficulty := nat (calcDifficultyDeb keccak nonce bOtprn (Coinbase head) (ParentHash head))\<rparr>)))))"

definition CalcDifficulty :: "hash_fun \<Rightarrow> Header \<Rightarrow> Header \<Rightarrow> int" where
  "CalcDifficulty keccak cHeader parent =
     (if (word_of_nat (Number cHeader) :: u64) > 0
      then calcDifficultyDeb keccak (Nonce cHeader) (hd_Otprn cHeader) (Coinbase cHeader) (Header_Hash keccak parent)
      else 0)"

definition deb_Seal :: "Block \<Rightarrow> deb_error + Block" where
  "deb_Seal block =
     (if (word_of_nat (Number (header block)) :: u64) = 0 then Inl errUnknownBlock else Inr block)"

subsection \<open>Facts about the difficulty\<close>

definition rounds :: "u64 \<Rightarrow> nat" where
  "rounds joinNonce = nat (min (sint joinNonce) 1000 + 1)"

lemma fold_max_eq: "fold (\<lambda>i r. let x = f i in if x > r then x else r) [0..<n] (z :: int) = Max (insert z (f ` {0..<n}))"
proof (induction n)
  case (Suc n)
  define m where "m = Max (insert z (f ` {0..<n}))"
  have "insert z (f ` {0..<Suc n}) = insert (f n) (insert z (f ` {0..<n}))" by (auto simp: atLeastLessThanSuc)
  then have "Max (insert z (f ` {0..<Suc n})) = max (f n) m" unfolding m_def by (simp only:) (rule Max_insert, auto)
  moreover have "fold (\<lambda>i r. let x = f i in if x > r then x else r) [0..<n] z = m" using Suc m_def by simp
  ultimately show ?case by (simp add: Let_def max_def)
qed simp

lemma MakeRand_eq:
  "MakeRand keccak j otp cb ph = Max (insert 0 ((\<lambda>i. csprng keccak i otp cb ph) ` {0..<rounds j}))"
proof -
  let ?M = "Max (insert 0 ((\<lambda>i. csprng keccak i otp cb ph) ` {0..<rounds j}))"
  have "(if sint j > 1000 then 1000 else sint j) = min (sint j) 1000" by auto
  then have "MakeRand keccak j otp cb ph = (if ?M < 0 then - ?M else ?M)"
    unfolding MakeRand_def fold_max_eq [symmetric] rounds_def by (simp add: Let_def)
  moreover have "0 \<le> ?M" by (rule Max_ge) auto
  ultimately show ?thesis by simp
qed

lemma csprng_bound: "csprng keccak i otp cb ph < 2 ^ 63"
  using sint_lt [of "ucast (keccak (itoa i @ hash_bytes otp @ hash_bytes ph @ address_bytes cb)) :: u64"]
  by (simp add: csprng_def Let_def)

lemma MakeRand_bounds: "0 \<le> MakeRand keccak j otp cb ph" "MakeRand keccak j otp cb ph < 2 ^ 63"
proof -
  show "0 \<le> MakeRand keccak j otp cb ph" unfolding MakeRand_eq by (rule Max_ge) auto
  show "MakeRand keccak j otp cb ph < 2 ^ 63" unfolding MakeRand_eq using csprng_bound by (subst Max_less_iff) auto
qed

lemma rounds_mono: "sint j \<le> sint j' \<Longrightarrow> rounds j \<le> rounds j'"
  unfolding rounds_def by (intro nat_mono) auto

lemma MakeRand_mono:
  assumes "sint j \<le> sint j'"
  shows "MakeRand keccak j otp cb ph \<le> MakeRand keccak j' otp cb ph"
  unfolding MakeRand_eq using rounds_mono [OF assms] by (intro Max_mono) auto

lemma MakeRand_cap:
  assumes "1000 \<le> sint j" "1000 \<le> sint j'"
  shows "MakeRand keccak j otp cb ph = MakeRand keccak j' otp cb ph"
proof -
  have "rounds j = rounds j'" using assms by (simp add: rounds_def)
  then show ?thesis unfolding MakeRand_eq by simp
qed

lemma calcDifficultyDeb_eq:
  "calcDifficultyDeb keccak j b cb ph =
     (let r = MakeRand keccak j (BytesToHash b) cb ph in if r = 2 ^ 63 - 1 then - (2 ^ 63) else r + 1)"
proof -
  define r where "r = MakeRand keccak j (BytesToHash b) cb ph"
  have r: "0 \<le> r" "r < 2 ^ 63" unfolding r_def by (rule MakeRand_bounds)+
  have "sint (word_of_int x :: u64) = signed_take_bit 63 x" for x
    by (simp add: sint_sbintrunc')
  then have "sint (word_of_int (r + 1) :: u64) = signed_take_bit 63 (r + 1)" .
  also have "\<dots> = (if r = 2 ^ 63 - 1 then - (2 ^ 63) else r + 1)"
  proof (cases "r = 2 ^ 63 - 1")
    case False
    then have "r + 1 < 2 ^ 63" using r(2) by simp
    then show ?thesis using r False by (simp add: signed_take_bit_int_eq_self)
  qed simp
  finally show ?thesis by (simp add: calcDifficultyDeb_def r_def Let_def)
qed

subsection \<open>Choosing a block\<close>

definition block_beats :: "bool \<Rightarrow> Block \<Rightarrow> Block \<Rightarrow> bool" where
  "block_beats ev r p \<longleftrightarrow>
     Difficulty (header r) > Difficulty (header p) \<or>
     Difficulty (header r) = Difficulty (header p) \<and>
       (Nonce (header r) > Nonce (header p) \<or>
        Nonce (header r) = Nonce (header p) \<and>
          (if ev then Coinbase (header r) > Coinbase (header p) else Coinbase (header r) < Coinbase (header p)))"

interpretation even_blocks: comparison "block_beats True"
  by unfold_locales (auto simp: block_beats_def)

interpretation odd_blocks: comparison "block_beats False"
  by unfold_locales (auto simp: block_beats_def)

lemma block_comparison: "comparison (block_beats ev)"
  by (cases ev) (simp_all add: even_blocks.comparison_axioms odd_blocks.comparison_axioms)

definition even_number :: "nat \<Rightarrow> bool" where
  "even_number n \<longleftrightarrow> (word_of_nat n :: u64) mod 2 = 0"

lemma SelectWinningBlock_keep_best:
  "SelectWinningBlock (Some p) r = keep_best (block_beats (even_number (Number (header r)))) r p"
  by (auto simp: SelectWinningBlock_def keep_best_def block_beats_def even_number_def)

text \<open>The miner keeps the best block it has received so far in \<^verbatim>\<open>possibleWinning\<close>.\<close>

definition receive_blocks :: "Block list \<Rightarrow> Block option" where
  "receive_blocks bs = fold (\<lambda>r p. Some (SelectWinningBlock p r)) bs None"

lemma receive_blocks_fold:
  assumes "\<forall>b \<in> set (b # bs). Number (header b) = n"
  shows "receive_blocks (b # bs) = Some (fold (keep_best (block_beats (even_number n))) bs b)"
proof -
  have "\<forall>b \<in> set bs. Number (header b) = n \<Longrightarrow>
      fold (\<lambda>r p. Some (SelectWinningBlock p r)) bs (Some q) = Some (fold (keep_best (block_beats (even_number n))) bs q)" for q
    by (induction bs arbitrary: q) (simp_all add: SelectWinningBlock_keep_best)
  then show ?thesis using assms by (simp add: receive_blocks_def SelectWinningBlock_def)
qed

subsection \<open>Properties\<close>



text \<open>
  C33: The difficulty wraps: when the random value is $2^{63}-1$, adding one in \<^verbatim>\<open>int64\<close> makes the
  difficulty $-2^{63}$; in every other case it is the random value plus one and positive.
\<close>

theorem difficulty_positive_unless_wrapped:
  "(calcDifficultyDeb keccak j b cb ph > 0 \<longleftrightarrow> MakeRand keccak j (BytesToHash b) cb ph \<noteq> 2 ^ 63 - 1) \<and>
   (calcDifficultyDeb keccak j b cb ph = - (2 ^ 63) \<or>
    calcDifficultyDeb keccak j b cb ph = MakeRand keccak j (BytesToHash b) cb ph + 1)"
  using MakeRand_bounds(1) [of keccak j "BytesToHash b" cb ph]
  by (simp add: calcDifficultyDeb_eq Let_def)

text \<open>
  C28: The winning block.  After receiving any non-empty sequence of blocks of one height, the block
  kept is one of them and none of them is better (higher difficulty, then higher nonce, then larger
  coinbase at even and smaller coinbase at odd heights); if no two of them tie, any other order of
  arrival gives the same block.
\<close>

theorem winning_block_is_best:
  assumes "bs \<noteq> []" "\<forall>b \<in> set bs. Number (header b) = n"
  shows "\<exists>w \<in> set bs. receive_blocks bs = Some w \<and> (\<forall>b \<in> set bs. \<not> block_beats (even_number n) b w) \<and>
    (\<forall>cs. mset cs = mset bs \<longrightarrow>
      (\<forall>x \<in> set bs. \<forall>y \<in> set bs. x \<noteq> y \<longrightarrow> block_beats (even_number n) x y \<or> block_beats (even_number n) y x) \<longrightarrow>
      receive_blocks cs = Some w)"
proof -
  let ?beats = "block_beats (even_number n)"
  obtain a as where bs: "bs = a # as" using assms(1) by (cases bs) auto
  let ?w = "fold (keep_best ?beats) as a"
  have w: "receive_blocks bs = Some ?w" using receive_blocks_fold assms(2) by (simp add: bs)
  have "receive_blocks cs = Some ?w"
    if m: "mset cs = mset bs" and nt: "\<forall>x \<in> set bs. \<forall>y \<in> set bs. x \<noteq> y \<longrightarrow> ?beats x y \<or> ?beats y x" for cs
  proof -
    have sets: "set cs = set bs" using m by (metis set_mset_mset)
    obtain c cs' where cs: "cs = c # cs'" using m bs by (cases cs) auto
    have "receive_blocks cs = Some (fold (keep_best ?beats) cs' c)"
      unfolding cs by (rule receive_blocks_fold) (use assms(2) sets cs in simp)
    moreover have "fold (keep_best ?beats) as a = fold (keep_best ?beats) cs' c"
      using comparison.fold_keep_best_order [OF block_comparison, of a as c cs' "even_number n"] m nt bs cs by metis
    ultimately show ?thesis by simp
  qed
  moreover have "?w \<in> set bs" using fold_keep_best_mem [of ?beats as a] by (simp add: bs)
  moreover have "\<forall>b \<in> set bs. \<not> ?beats b ?w"
    using comparison.fold_keep_best_max [OF block_comparison, of _ a as "even_number n"] by (simp add: bs)
  ultimately show ?thesis using w by blast
qed

definition zero_header :: Header where
  "zero_header = \<lparr>ParentHash = 0, Coinbase = 0, Root = 0, TxHash = 0, VoteHash = 0, ReceiptHash = 0, Bloom = 0,
     Difficulty = 1, Number = 1, GasLimit = 0, GasUsed = 0, Time = 0, Extra = [], Nonce = 0, hd_Otprn = [],
     FairnodeSign = []\<rparr>"

theorem winning_block_is_best_witness:
  "receive_blocks [\<lparr>header = zero_header\<lparr>Coinbase := 9\<rparr>, transactions = [], voters = []\<rparr>,
                   \<lparr>header = zero_header\<lparr>Coinbase := 4\<rparr>, transactions = [], voters = []\<rparr>]
     = Some \<lparr>header = zero_header\<lparr>Coinbase := 4\<rparr>, transactions = [], voters = []\<rparr> \<and>
   (\<exists>w. receive_blocks [\<lparr>header = zero_header\<lparr>Coinbase := 9\<rparr>, transactions = [], voters = []\<rparr>,
                   \<lparr>header = zero_header\<lparr>Coinbase := 4\<rparr>, transactions = [], voters = []\<rparr>] = Some w \<and>
     \<not> block_beats False \<lparr>header = zero_header\<lparr>Coinbase := 9\<rparr>, transactions = [], voters = []\<rparr> w)"
proof -
  let ?a = "\<lparr>header = zero_header\<lparr>Coinbase := 9\<rparr>, transactions = [], voters = []\<rparr>"
  let ?b = "\<lparr>header = zero_header\<lparr>Coinbase := 4\<rparr>, transactions = [], voters = []\<rparr>"
  have "receive_blocks [?a, ?b] = Some ?b" by code_simp
  moreover have "even_number 1 = False" by code_simp
  ultimately show ?thesis using winning_block_is_best [of "[?a, ?b]" 1] by (auto simp: zero_header_def)
qed

lemma ValidationSignHash_ok: "ValidationSignHash recover sg h a = Inr u \<longleftrightarrow> recover h sg = Some a"
  by (auto simp: ValidationSignHash_def split: option.splits)

lemma ValidateSignature_ok:
  "ValidateSignature keccak recover otp = Inr u \<longleftrightarrow> recover (HashOtprn keccak otp) (otp_Sign otp) = Some (FnAddr otp)"
  by (auto simp: ValidateSignature_def split: option.splits)

lemma VerifyFairnodeSign_ok:
  "VerifyFairnodeSign keccak recover h = Inr u \<longleftrightarrow>
     (\<exists>otp. DecodeOtprn (hd_Otprn h) = Inr otp \<and> recover (fairnode_hash keccak h) (FairnodeSign h) = Some (FnAddr otp))"
  by (auto simp: VerifyFairnodeSign_def ValidationSignHash_def split: sum.splits option.splits if_splits)

lemma verifyCascadingFields_ok:
  assumes "verifyCascadingFields keccak recover getHeader h parents seal = Inr u" "(word_of_nat (Number h) :: u64) \<noteq> 0"
  shows "\<exists>p. (if parents = [] then getHeader (ParentHash h) (word_of_nat (Number h) - 1) else Some (last parents)) = Some p \<and>
    word_of_nat (Number p) = (word_of_nat (Number h) :: u64) - 1 \<and> Header_Hash keccak p = ParentHash h \<and>
    (seal \<longrightarrow> verifySeal keccak recover h = Inr ())"
  using assms by (auto simp: verifyCascadingFields_def Let_def split: option.splits if_splits)


definition sample_otprn :: Otprn where
  "sample_otprn = \<lparr>Rand = 1, FnAddr = 7, Cminer = 3,
     otp_Data = \<lparr>MinMiner = 1, BlockNumber = 0, FnFee = [], Mminer = 2, Epoch = 10, NodeVersion = [],
       cc_Price = \<lparr>JoinTxPrice = [], Price_GasPrice = 0, Price_GasLimit = 5000\<rparr>, cc_Sign = []\<rparr>,
     otp_Sign = [5]\<rparr>"

definition sample_header :: Header where
  "sample_header = zero_header\<lparr>hd_Otprn := EncodeOtprn sample_otprn, FairnodeSign := [9]\<rparr>"

lemma sample_otprn_decode: "DecodeOtprn (EncodeOtprn sample_otprn) = Inr sample_otprn"
proof -
  have "length (encode (otprn_item sample_otprn)) < 2 ^ 64" by code_simp
  then show ?thesis unfolding DecodeOtprn_def EncodeOtprn_def by (rule otprn_codec.DecodeBytes_to_encode)
qed




lemma find_join_iff:
  assumes "\<forall>tx \<in> set txs. txType tx = JoinTx \<longrightarrow> 32 \<le> length (Payload (fields_of tx))"
  shows "find_join h txs = Inr () \<longleftrightarrow> (\<exists>tx \<in> set txs. txType tx = JoinTx \<and> PayloadHash tx = Inr h)"
  using assms by (induction txs) (auto simp: PayloadHash_def Let_def)



end
