(* ===== verification/Verify.thy ===== *)
theory Verify
  imports Deb
begin

unbundle bit_operations_syntax

text \<open>
  The checks of the fairnode (\<^verbatim>\<open>src/fairnode/verify/verify.go\<close>): the difficulty of a voted header, the block
  that wins a vote, and whether a miner is drawn for a league.

  The votes are counted in a Go map from block hash to header and count, here an association list; the
  order in which Go ranges over the map is unspecified and therefore the parameter \<open>iter\<close> (a
  rearrangement of the entries).  \<open>None\<close> is the nil dereference when no vote could be decoded.
\<close>

definition ValidationDifficulty :: "hash_fun \<Rightarrow> Header \<Rightarrow> bool" where
  "ValidationDifficulty keccak h \<longleftrightarrow>
     calcDifficultyDeb keccak (Nonce h) (hd_Otprn h) (Coinbase h) (ParentHash h) = int (Difficulty h)"

record voteRes =
  vr_Header :: Header
  Count :: nat

fun count_vote :: "Hash \<Rightarrow> Header \<Rightarrow> (Hash \<times> voteRes) list \<Rightarrow> (Hash \<times> voteRes) list" where
  "count_vote k h [] = [(k, \<lparr>vr_Header = h, Count = 1\<rparr>)]"
| "count_vote k h ((k', m) # ms) =
     (if k' = k then (k', m\<lparr>Count := Count m + 1\<rparr>) # ms else (k', m) # count_vote k h ms)"

definition add_vote :: "hash_fun \<Rightarrow> Voter \<Rightarrow> (Hash \<times> voteRes) list \<Rightarrow> (Hash \<times> voteRes) list" where
  "add_vote keccak vote result =
     (case DecodeBytes_to decodeHeader (vt_Header vote) of
        Inl _ \<Rightarrow> result
      | Inr h \<Rightarrow> count_vote (Header_Hash keccak h) h result)"

definition voteResult :: "hash_fun \<Rightarrow> Voter list \<Rightarrow> (Hash \<times> voteRes) list" where
  "voteResult keccak vs = fold (add_vote keccak) vs []"

text \<open>One round of the loop over the results; both branches on the parity compare the same way.\<close>

definition better_vote :: "voteRes \<Rightarrow> voteRes \<Rightarrow> voteRes" where
  "better_vote vs cur =
     (if Count cur < Count vs then vs
      else if Count cur = Count vs then
        (if Difficulty (vr_Header cur) > Difficulty (vr_Header vs) then cur
         else if Difficulty (vr_Header cur) = Difficulty (vr_Header vs) then
           (if Nonce (vr_Header cur) < Nonce (vr_Header vs) then vs
            else if Nonce (vr_Header cur) = Nonce (vr_Header vs) then
              (if (word_of_nat (Number (vr_Header vs)) :: u64) mod 2 = 0 then
                 (if Coinbase (vr_Header cur) < Coinbase (vr_Header vs) then vs else cur)
               else
                 (if Coinbase (vr_Header cur) < Coinbase (vr_Header vs) then vs else cur))
            else cur)
         else vs)
      else cur)"

definition top_vote :: "voteRes list \<Rightarrow> voteRes option" where
  "top_vote rs = fold (\<lambda>vs cur. case cur of None \<Rightarrow> Some vs | Some c \<Rightarrow> Some (better_vote vs c)) rs None"

definition ValidationFinalBlockHash ::
  "hash_fun \<Rightarrow> ((Hash \<times> voteRes) list \<Rightarrow> (Hash \<times> voteRes) list) \<Rightarrow> Voter list \<Rightarrow> Hash option" where
  "ValidationFinalBlockHash keccak iter vs =
     (if length vs \<le> 0 then Some 0
      else map_option (\<lambda>r. Header_Hash keccak (vr_Header r)) (top_vote (map snd (iter (voteResult keccak vs)))))"

subsection \<open>Drawing the members of a league\<close>

definition makeSeed :: "Address \<Rightarrow> Address \<Rightarrow> int" where
  "makeSeed rand addr = sum_list (map2 (\<lambda>a b. uint (a XOR b)) (address_bytes rand) (address_bytes addr))"

text \<open>
  \<open>int63 seed\<close> is the first value of \<^verbatim>\<open>math/rand\<close> with that seed.  The quotient is computed in \<^verbatim>\<open>float64\<close> and
  rounded up, which is the exact ceiling for counts below $2^{53}$.  \<open>None\<close> is the division by zero of
  \<^verbatim>\<open>big.Int.Mod\<close>.
\<close>

definition IsJoinOK :: "(int \<Rightarrow> nat) \<Rightarrow> Otprn \<Rightarrow> Address \<Rightarrow> bool option" where
  "IsJoinOK int63 otp addr =
     (let cMiner = Cminer otp; mMiner = Mminer (otp_Data otp) in
      if mMiner > 0 then
        (let dv = (unat cMiner + unat mMiner - 1) div unat mMiner;
             rnd = int63 (makeSeed (Rand otp) addr)
         in if cMiner = 0 then None
            else
              (let randMod = nat (int rnd mod \<bar>sint cMiner\<bar>);
                   rand = randMod + 1
               in if dv > 0 then Some (rand mod dv = 0) else Some True))
      else Some False)"

subsection \<open>Counting\<close>

definition voted :: "Voter \<Rightarrow> Header option" where
  "voted v = (case DecodeBytes_to decodeHeader (vt_Header v) of Inl _ \<Rightarrow> None | Inr h \<Rightarrow> Some h)"

definition votes_for :: "hash_fun \<Rightarrow> Hash \<Rightarrow> Voter list \<Rightarrow> nat" where
  "votes_for keccak k vs = length (filter (\<lambda>v. map_option (Header_Hash keccak) (voted v) = Some k) vs)"

definition tally_ok :: "hash_fun \<Rightarrow> Voter list \<Rightarrow> (Hash \<times> voteRes) list \<Rightarrow> bool" where
  "tally_ok keccak vs rs \<longleftrightarrow>
     distinct (map fst rs) \<and>
     (\<forall>k. (case map_of rs k of
            None \<Rightarrow> votes_for keccak k vs = 0
          | Some r \<Rightarrow> 0 < Count r \<and> Count r = votes_for keccak k vs \<and> Header_Hash keccak (vr_Header r) = k))"

lemma keys_count_vote:
  "map fst (count_vote k h rs) = (if k \<in> set (map fst rs) then map fst rs else map fst rs @ [k])"
  by (induction k h rs rule: count_vote.induct) auto

lemma distinct_count_vote: "distinct (map fst rs) \<Longrightarrow> distinct (map fst (count_vote k h rs))"
  by (simp add: keys_count_vote del: set_map)

lemma map_of_count_vote:
  "map_of (count_vote k h rs) k' =
     (if k' = k then Some (case map_of rs k of None \<Rightarrow> \<lparr>vr_Header = h, Count = 1\<rparr> | Some r \<Rightarrow> r\<lparr>Count := Count r + 1\<rparr>)
      else map_of rs k')"
  by (induction rs) (auto split: option.splits)

lemma votes_for_snoc:
  "votes_for keccak k (vs @ [v]) = votes_for keccak k vs + (if map_option (Header_Hash keccak) (voted v) = Some k then 1 else 0)"
  by (simp add: votes_for_def)

lemma tally_ok_step:
  assumes "tally_ok keccak vs rs"
  shows "tally_ok keccak (vs @ [v]) (add_vote keccak v rs)"
proof (cases "DecodeBytes_to decodeHeader (vt_Header v)")
  case Inl
  then have eq: "votes_for keccak k (vs @ [v]) = votes_for keccak k vs" for k
    by (simp add: votes_for_snoc voted_def)
  from assms Inl show ?thesis unfolding tally_ok_def eq by (simp add: add_vote_def)
next
  case (Inr h)
  then have v: "voted v = Some h" and a: "add_vote keccak v rs = count_vote (Header_Hash keccak h) h rs"
    by (simp_all add: voted_def add_vote_def)
  have each: "case map_of rs k of None \<Rightarrow> votes_for keccak k vs = 0
      | Some r \<Rightarrow> 0 < Count r \<and> Count r = votes_for keccak k vs \<and> Header_Hash keccak (vr_Header r) = k" for k
    using assms unfolding tally_ok_def by blast
  have "case map_of (count_vote (Header_Hash keccak h) h rs) k of None \<Rightarrow> votes_for keccak k (vs @ [v]) = 0
      | Some r \<Rightarrow> 0 < Count r \<and> Count r = votes_for keccak k (vs @ [v]) \<and> Header_Hash keccak (vr_Header r) = k" for k
    using each [of k] v by (auto simp: map_of_count_vote votes_for_snoc split: option.splits)
  then show ?thesis using distinct_count_vote assms unfolding a tally_ok_def by blast
qed

lemma tally_ok: "tally_ok keccak vs (voteResult keccak vs)"
proof (induction vs rule: rev_induct)
  case Nil
  then show ?case by (simp add: tally_ok_def voteResult_def votes_for_def)
next
  case (snoc v vs)
  then show ?case using tally_ok_step by (simp add: voteResult_def)
qed

subsection \<open>Comparing\<close>

definition vote_beats :: "voteRes \<Rightarrow> voteRes \<Rightarrow> bool" where
  "vote_beats a b \<longleftrightarrow>
     Count a > Count b \<or> Count a = Count b \<and>
       (Difficulty (vr_Header a) > Difficulty (vr_Header b) \<or> Difficulty (vr_Header a) = Difficulty (vr_Header b) \<and>
         (Nonce (vr_Header a) > Nonce (vr_Header b) \<or> Nonce (vr_Header a) = Nonce (vr_Header b) \<and>
           Coinbase (vr_Header a) > Coinbase (vr_Header b)))"

interpretation votes_cmp: comparison vote_beats
  by unfold_locales (auto simp: vote_beats_def)

lemma better_vote_keep_best: "better_vote = keep_best vote_beats"
  by (intro ext) (auto simp: better_vote_def keep_best_def vote_beats_def)

lemma top_vote_fold: "top_vote (r # rs) = Some (fold (keep_best vote_beats) rs r)"
proof -
  have "fold (\<lambda>vs cur. case cur of None \<Rightarrow> Some vs | Some c \<Rightarrow> Some (better_vote vs c)) rs (Some q)
      = Some (fold (keep_best vote_beats) rs q)" for q
    by (induction rs arbitrary: q) (simp_all add: better_vote_keep_best)
  then show ?thesis by (simp add: top_vote_def)
qed

lemma top_vote_best:
  assumes "top_vote rs = Some w"
  shows "w \<in> set rs \<and> (\<forall>r \<in> set rs. \<not> vote_beats r w)"
proof (cases rs)
  case Nil
  then show ?thesis using assms by (simp add: top_vote_def)
next
  case (Cons r rs')
  then have "w = fold (keep_best vote_beats) rs' r" using assms by (simp add: top_vote_fold)
  with Cons fold_keep_best_mem [of vote_beats rs' r] votes_cmp.fold_keep_best_max [of _ r rs'] show ?thesis by blast
qed

lemma top_vote_None: "top_vote rs = None \<longleftrightarrow> rs = []"
  by (cases rs) (simp_all add: top_vote_fold, simp add: top_vote_def)

lemma top_vote_order:
  assumes "mset rs = mset rs'" "\<And>x y. x \<in> set rs \<Longrightarrow> y \<in> set rs \<Longrightarrow> x \<noteq> y \<Longrightarrow> vote_beats x y \<or> vote_beats y x"
  shows "top_vote rs = top_vote rs'"
proof (cases rs)
  case Nil
  then show ?thesis using assms(1) by simp
next
  case (Cons r as)
  then obtain r' as' where rs': "rs' = r' # as'" using assms(1) by (cases rs') auto
  show ?thesis
    using votes_cmp.fold_keep_best_order [of r as r' as'] assms Cons rs' by (simp add: top_vote_fold)
qed

lemma voteResult_entry:
  assumes "(k, r) \<in> set (voteResult keccak vs)"
  shows "0 < Count r" "Count r = votes_for keccak k vs" "Header_Hash keccak (vr_Header r) = k"
proof -
  have "map_of (voteResult keccak vs) k = Some r"
    using assms tally_ok [of keccak vs] by (simp add: tally_ok_def)
  moreover have "case map_of (voteResult keccak vs) k of None \<Rightarrow> votes_for keccak k vs = 0
      | Some r \<Rightarrow> 0 < Count r \<and> Count r = votes_for keccak k vs \<and> Header_Hash keccak (vr_Header r) = k"
    using tally_ok [of keccak vs] unfolding tally_ok_def by blast
  ultimately show "0 < Count r" "Count r = votes_for keccak k vs" "Header_Hash keccak (vr_Header r) = k" by simp_all
qed

lemma voteResult_complete:
  assumes "0 < votes_for keccak k vs"
  obtains r where "(k, r) \<in> set (voteResult keccak vs)"
proof (cases "map_of (voteResult keccak vs) k")
  case None
  then show ?thesis using tally_ok [of keccak vs] assms unfolding tally_ok_def by (auto split: option.splits dest: spec [of _ k])
next
  case (Some r)
  then show ?thesis using map_of_SomeD that by fast
qed

lemma final_hash_winner:
  assumes "mset (iter (voteResult keccak vs)) = mset (voteResult keccak vs)"
    and "v \<in> set vs" "voted v = Some h"
  shows "\<exists>w. ValidationFinalBlockHash keccak iter vs = Some (Header_Hash keccak w) \<and>
    0 < votes_for keccak (Header_Hash keccak w) vs \<and>
    (\<forall>k. votes_for keccak k vs \<le> votes_for keccak (Header_Hash keccak w) vs) \<and>
    (\<forall>k r. (k, r) \<in> set (voteResult keccak vs) \<longrightarrow> votes_for keccak k vs = votes_for keccak (Header_Hash keccak w) vs \<longrightarrow>
       Difficulty (vr_Header r) \<le> Difficulty w)"
proof -
  let ?rs = "iter (voteResult keccak vs)"
  have sets: "set ?rs = set (voteResult keccak vs)" using assms(1) by (metis set_mset_mset)
  have "0 < votes_for keccak (Header_Hash keccak h) vs"
    using assms(2,3) by (auto simp: votes_for_def filter_empty_conv)
  then obtain r0 where "(Header_Hash keccak h, r0) \<in> set (voteResult keccak vs)" by (rule voteResult_complete)
  then have "?rs \<noteq> []" using sets by (metis empty_iff empty_set)
  then obtain w where w: "top_vote (map snd ?rs) = Some w" using top_vote_None [of "map snd ?rs"] by auto
  note best = top_vote_best [OF w]
  then obtain kw where kw: "(kw, w) \<in> set (voteResult keccak vs)" using sets by auto
  note ew = voteResult_entry [OF kw]
  have max: "\<not> vote_beats r w" if "(k, r) \<in> set (voteResult keccak vs)" for k r
    using best that sets by force
  have "votes_for keccak k vs \<le> votes_for keccak kw vs" for k
  proof (cases "0 < votes_for keccak k vs")
    case True
    then obtain r where r: "(k, r) \<in> set (voteResult keccak vs)" by (rule voteResult_complete)
    then show ?thesis using max [OF r] voteResult_entry [OF r] ew by (auto simp: vote_beats_def)
  qed simp
  moreover have "Difficulty (vr_Header r) \<le> Difficulty (vr_Header w)"
    if "(k, r) \<in> set (voteResult keccak vs)" "votes_for keccak k vs = votes_for keccak kw vs" for k r
    using max [OF that(1)] voteResult_entry [OF that(1)] ew that(2) by (auto simp: vote_beats_def)
  moreover have "ValidationFinalBlockHash keccak iter vs = Some (Header_Hash keccak (vr_Header w))"
    using w assms(2) by (auto simp: ValidationFinalBlockHash_def)
  ultimately show ?thesis using ew by (intro exI [of _ "vr_Header w"]) auto
qed

subsection \<open>Properties\<close>

text \<open>
  C11: The final block hash.  Whatever the order in which the map of results is traversed, if at least
  one vote decodes, the fairnode returns the hash of a voted header that has the most votes, and among
  the headers with that many votes none has a higher difficulty.
\<close>

theorem final_block_has_most_votes:
  assumes "mset (iter (voteResult keccak vs)) = mset (voteResult keccak vs)"
    and "v \<in> set vs" "voted v = Some h"
  shows "\<exists>w. ValidationFinalBlockHash keccak iter vs = Some (Header_Hash keccak w) \<and>
    0 < votes_for keccak (Header_Hash keccak w) vs \<and>
    (\<forall>k. votes_for keccak k vs \<le> votes_for keccak (Header_Hash keccak w) vs) \<and>
    (\<forall>k r. (k, r) \<in> set (voteResult keccak vs) \<longrightarrow> votes_for keccak k vs = votes_for keccak (Header_Hash keccak w) vs \<longrightarrow>
       Difficulty (vr_Header r) \<le> Difficulty w)"
  using assms by (rule final_hash_winner)

definition sum_hash :: hash_fun where
  "sum_hash b = word_of_nat (sum_list (map unat b))"

definition vote_of :: "Header \<Rightarrow> Voter" where
  "vote_of h = \<lparr>vt_Header = Header_Byte h, vt_Voter = 0, VoteSign = []\<rparr>"

lemma voted_vote_of: "length (encode (header_item h)) < 2 ^ 64 \<Longrightarrow> voted (vote_of h) = Some h"
  using header_codec.DecodeBytes_to_encode [of h] by (simp add: voted_def vote_of_def Header_Byte_def)

lemma DecodeBytes_vote_of:
  "length (encode (header_item h)) < 2 ^ 64 \<Longrightarrow> DecodeBytes_to decodeHeader (vt_Header (vote_of h)) = Inr h"
  using header_codec.DecodeBytes_to_encode [of h] by (simp add: vote_of_def Header_Byte_def)

lemma length_encode_array: "length (encode (array_item n w)) \<le> n + 9"
  using length_putint [of n] by (simp add: array_item_def encode_bytes_def puthead_def Let_def)

lemma length_encode_Lst: "length (encode (Lst xs)) \<le> 9 + sum_list (map (\<lambda>x. length (encode x)) xs)"
proof -
  have "length (puthead s l n) \<le> 9" for s l n
    using length_putint(2) [of n] by (simp add: puthead_def Let_def)
  then show ?thesis by (simp add: Let_def length_concat comp_def)
qed

lemma header_length_zero:
  "length (encode (header_item (zero_header\<lparr>Coinbase := c\<rparr>))) < 2 ^ 64"
  "length (encode (hash_item (zero_header\<lparr>Coinbase := c\<rparr>))) < 2 ^ 64"
proof -
  note arr = length_encode_array [of 32 "0 :: Hash"] length_encode_array [of 20 c]
      length_encode_array [of 256 "0 :: 2048 word"] length_encode_array [of 8 "0 :: u64"]
  have u: "length (encode (rlp_uint 0)) = 1" "length (encode (rlp_uint (Suc 0))) = 1" "length (encode_bytes []) = 1"
    by code_simp+
  have "length (encode (header_item (zero_header\<lparr>Coinbase := c\<rparr>))) \<le> 2000"
    unfolding header_item_def using arr by (intro order_trans [OF length_encode_Lst]) (simp add: zero_header_def u)
  then show "length (encode (header_item (zero_header\<lparr>Coinbase := c\<rparr>))) < 2 ^ 64" by (rule le_less_trans) simp
  have "length (encode (hash_item (zero_header\<lparr>Coinbase := c\<rparr>))) \<le> 2000"
    unfolding hash_item_def using arr by (intro order_trans [OF length_encode_Lst]) (simp add: zero_header_def u)
  then show "length (encode (hash_item (zero_header\<lparr>Coinbase := c\<rparr>))) < 2 ^ 64" by (rule le_less_trans) simp
qed

theorem final_block_has_most_votes_witness:
  "\<exists>w. ValidationFinalBlockHash sum_hash rev [vote_of (zero_header\<lparr>Coinbase := 9\<rparr>)] = Some (Header_Hash sum_hash w)"
  using final_block_has_most_votes [OF _ list.set_intros(1) voted_vote_of [OF header_length_zero(1)],
      where iter = rev and keccak = sum_hash] by fastforce


lemma single_voteResult: "voteResult keccak [v] = [] \<or> (\<exists>e. voteResult keccak [v] = [e])"
  by (auto simp: voteResult_def add_vote_def split: sum.splits)




lemma ceiling_one: "0 < c \<Longrightarrow> c \<le> m \<Longrightarrow> (c + m - 1) div m = (1 :: nat)"
  by (intro div_nat_eqI) auto

text \<open>
  C34: Drawing members.  \<^verbatim>\<open>IsJoinOK\<close> divides by zero exactly when a target is set but the OTPRN counts no
  active miner; without a target nobody joins; and when the active miners do not exceed the target
  everybody joins.
\<close>

theorem isJoinOK_cases:
  "(IsJoinOK int63 otp addr = None \<longleftrightarrow> Mminer (otp_Data otp) \<noteq> 0 \<and> Cminer otp = 0) \<and>
   (Mminer (otp_Data otp) = 0 \<longrightarrow> IsJoinOK int63 otp addr = Some False) \<and>
   (Cminer otp \<noteq> 0 \<longrightarrow> Cminer otp \<le> Mminer (otp_Data otp) \<longrightarrow> IsJoinOK int63 otp addr = Some True)"
proof -
  have "(unat (Cminer otp) + unat (Mminer (otp_Data otp)) - 1) div unat (Mminer (otp_Data otp)) = 1"
    if "Cminer otp \<noteq> 0" "Cminer otp \<le> Mminer (otp_Data otp)"
    using that by (intro ceiling_one) (auto simp: word_le_nat_alt unat_gt_0)
  then show ?thesis
    using unat_eq_zero [of "Cminer otp"]
    by (auto simp: IsJoinOK_def Let_def word_greater_zero_iff word_le_nat_alt)
qed

theorem isJoinOK_cases_witness: "IsJoinOK (\<lambda>_. 12) (sample_otprn\<lparr>Cminer := 2\<rparr>) 99 = Some True"
  using isJoinOK_cases [of "\<lambda>_. 12" "sample_otprn\<lparr>Cminer := 2\<rparr>" 99] by (simp add: sample_otprn_def)

end
