(* ===== verification/Blocks.thy ===== *)
theory Blocks
  imports Verify
begin

text \<open>
  Blocks on the wire (\<^verbatim>\<open>src/core/types/block.go\<close>): the RLP layout of a block with its header, transactions and
  votes, and the methods that fill in votes and signatures.

  Slices of decoded values go through \<^verbatim>\<open>decodeListSlice\<close> and \<^verbatim>\<open>decodeSliceElems\<close> of \<^verbatim>\<open>src/rlp/decode.go\<close> with a typed
  element decoder; \<open>rlp_elem\<close> is what the loop relies on: an element decoder that returns \<^verbatim>\<open>EOL\<close> exactly at
  the end of the enclosing list.  The recursion of \<open>decodeElems\<close> stops when an element has not consumed
  input; \<open>decodeElems_step\<close> shows that this does not happen for such decoders.
\<close>

function decodeElems :: "(Stream \<Rightarrow> 'a sres) \<Rightarrow> Stream \<Rightarrow> 'a list sres" where
  "decodeElems elemdec s =
     (case elemdec s of
        (Inl e, s1) \<Rightarrow> if e = EOL then (Inr [], s1) else (Inl e, s1)
      | (Inr x, s1) \<Rightarrow>
          if length (inp s1) < length (inp s) then
            (case decodeElems elemdec s1 of
               (Inl e, s2) \<Rightarrow> (Inl e, s2)
             | (Inr xs, s2) \<Rightarrow> (Inr (x # xs), s2))
          else (Inr [x], s1))"
  by pat_completeness auto
termination by (relation "measure (\<lambda>(_, s). length (inp s))") auto

declare decodeElems.simps [simp del]

definition decodeListSlice :: "(Stream \<Rightarrow> 'a sres) \<Rightarrow> Stream \<Rightarrow> 'a list sres" where
  "decodeListSlice elemdec s =
     (case stream_List s of
        (Inl e, s1) \<Rightarrow> (Inl (wrapStreamError e), s1)
      | (Inr sz, s1) \<Rightarrow>
          (case (if sz = 0 then (Inr [], s1) else decodeElems elemdec s1) of
             (Inl e, s2) \<Rightarrow> (Inl e, s2)
           | (Inr xs, s2) \<Rightarrow>
               (case ListEnd s2 of
                  (Inl e, s3) \<Rightarrow> (Inl e, s3)
                | (Inr _, s3) \<Rightarrow> (Inr xs, s3))))"

text \<open>Votes and transactions as elements; a decoded transaction always carries its type.\<close>

definition decodeVoter :: "Stream \<Rightarrow> Voter sres" where
  "decodeVoter =
     decode_as (\<lambda>(a, b, c, _). \<lparr>vt_Header = a, vt_Voter = b, VoteSign = c\<rparr>)
       (decodeStruct (structField decodeByteSlice (structField (decodeArrayWord 20) (structField decodeByteSlice structEnd))))"

definition decodeTx :: "Stream \<Rightarrow> (u64 \<times> TxFields) sres" where
  "decodeTx s =
     (case tx_DecodeRLP s of
        (Inl e, s1) \<Rightarrow> (Inl e, s1)
      | (Inr tx, s1) \<Rightarrow> (Inr (txType tx, fields_of tx), s1))"

definition decodeExtblock :: "Stream \<Rightarrow> (Header \<times> (u64 \<times> TxFields) list \<times> Voter list \<times> unit) sres" where
  "decodeExtblock =
     decodeStruct (structField decodeHeader (structField (decodeListSlice decodeTx)
       (structField (decodeListSlice decodeVoter) structEnd)))"

definition block_of :: "Header \<times> (u64 \<times> TxFields) list \<times> Voter list \<times> unit \<Rightarrow> Block" where
  "block_of = (\<lambda>(h, txs, vs, _). \<lparr>header = h, transactions = map (\<lambda>(t, f). LegacyTx t f) txs, voters = vs\<rparr>)"

definition block_DecodeRLP :: "Stream \<Rightarrow> Block sres" where
  "block_DecodeRLP s = (let s1 = snd (stream_Kind s) in decode_as block_of decodeExtblock s1)"

text \<open>A block received as bytes: a stream over them without further limit.\<close>

definition DecodeBlock :: "byte list \<Rightarrow> rlp_error + Block" where
  "DecodeBlock b = fst (block_DecodeRLP (stream_Reset b 0))"

definition block_item :: "Block \<Rightarrow> item" where
  "block_item b =
     Lst [header_item (header b), Lst (map tx_item (transactions b)), Lst (map voter_item (voters b))]"

definition block_EncodeRLP :: "Block \<Rightarrow> byte list" where
  "block_EncodeRLP b = EncodeToBytes (block_item b)"

definition block_Hash :: "hash_fun \<Rightarrow> Block \<Rightarrow> Hash" where
  "block_Hash keccak b = Header_Hash keccak (header b)"

definition WithFairnodeSign :: "byte list \<Rightarrow> Block \<Rightarrow> Block" where
  "WithFairnodeSign fnSign b = b\<lparr>header := (header b)\<lparr>FairnodeSign := fnSign\<rparr>\<rparr>"

text \<open>\<open>voters_hash\<close> stands for the root of the trie over the encoded votes.\<close>

definition WithVoter :: "(Voter list \<Rightarrow> Hash) \<Rightarrow> Voter list \<Rightarrow> Block \<Rightarrow> Block" where
  "WithVoter voters_hash vs b = b\<lparr>header := (header b)\<lparr>VoteHash := voters_hash vs\<rparr>, voters := vs\<rparr>"

definition WithSeal :: "Header \<Rightarrow> Block \<Rightarrow> Block" where
  "WithSeal h b = b\<lparr>header := h\<rparr>"

subsection \<open>Slices of elements\<close>

locale rlp_elem = rlp_codec +
  assumes at_end: "skind s = None \<Longrightarrow> listLimit s = Some 0 \<Longrightarrow> dec s = (Inl EOL, s)"
    and eol_only: "dec s = (Inl EOL, s') \<Longrightarrow> skind s = None \<Longrightarrow> s' = s \<and> listLimit s = Some 0"
begin

lemma decodeElems_step:
  assumes "dec s = (Inr x, s1)" "skind s = None" "length (inp s) < 2 ^ 64"
  shows "decodeElems dec s =
    (case decodeElems dec s1 of (Inl e, s2) \<Rightarrow> (Inl e, s2) | (Inr xs, s2) \<Rightarrow> (Inr (x # xs), s2))"
proof -
  have "length (inp s1) < length (inp s)"
    using sound [OF assms] encode_nonempty [of "enc x"] by (auto simp: consumed_def consumes_def)
  then show ?thesis by (subst decodeElems.simps) (simp add: assms(1))
qed

lemma decodeElems_complete:
  assumes "ahead (concat (map (\<lambda>x. encode (enc x)) xs)) rest s"
    and "stack s = word_of_nat (length (concat (map (\<lambda>x. encode (enc x)) xs))) # st"
  shows "\<exists>s'. decodeElems dec s = (Inr xs, s')"
  using assms
proof (induction xs arbitrary: s)
  case Nil
  then have "dec s = (Inl EOL, s)" by (intro at_end) (auto simp: ahead_def listLimit_def)
  then show ?case by (subst decodeElems.simps) simp
next
  case (Cons x xs)
  let ?r = "concat (map (\<lambda>x. encode (enc x)) xs)"
  have a: "ahead (encode (enc x) @ ?r) rest s" using Cons.prems(1) by simp
  obtain s1 where d: "dec s = (Inr x, s1)"
    using complete [of x] ahead_prefix [OF a] by (auto simp: reads_def)
  have c: "consumed s (encode (enc x)) s1" by (rule sound [OF d aheadD [OF a]])
  have "stack s1 = word_of_nat (length ?r) # st"
    using c Cons.prems(2) by (simp add: consumed_def consumes_def adv_def)
  from Cons.IH [OF ahead_consumed [OF a c] this] show ?case
    using decodeElems_step [OF d aheadD [OF a]] by auto
qed

lemma decodeElems_sound:
  "decodeElems dec s = (Inr xs, s') \<Longrightarrow> skind s = None \<Longrightarrow> length (inp s) < 2 ^ 64 \<Longrightarrow>
   consumed s (concat (map (\<lambda>x. encode (enc x)) xs)) s'"
proof (induction "length (inp s)" arbitrary: s xs rule: less_induct)
  case less
  show ?case
  proof (cases "dec s")
    case (Pair r s1)
    show ?thesis
    proof (cases r)
      case (Inl e)
      then have "e = EOL" "xs = []" "s' = s1"
        using less.prems(1) Pair by (auto simp: decodeElems.simps [of dec s] split: if_splits)
      then show ?thesis using eol_only [of s s1] Pair Inl less.prems(2) by (simp add: consumed_def consumes_def)
    next
      case (Inr x)
      note c = sound [OF Pair [unfolded Inr] less.prems(2,3)]
      obtain ys where ys: "decodeElems dec s1 = (Inr ys, s')" "xs = x # ys"
        using less.prems(1) decodeElems_step [OF Pair [unfolded Inr] less.prems(2,3)]
        by (auto split: prod.splits sum.splits)
      have l: "length (inp s1) < length (inp s)"
        using c encode_nonempty [of "enc x"] by (auto simp: consumed_def consumes_def)
      have "consumed s1 (concat (map (\<lambda>x. encode (enc x)) ys)) s'"
        by (rule less.hyps [OF l ys(1)]) (use c l less.prems(3) in \<open>auto simp: consumed_def\<close>)
      from consumed_trans [OF c this] ys(2) show ?thesis by simp
    qed
  qed
qed

end

lemma List_ahead:
  assumes a: "ahead (puthead 0xC0 0xF7 (length payload) @ payload) rest s"
  shows "\<exists>s2 st. stream_List s = (Inr (word_of_nat (length payload)), s2) \<and>
    stack s2 = word_of_nat (length payload) # st \<and> ahead payload rest s2"
proof -
  define sz :: u64 where "sz = word_of_nat (length payload)"
  have "length payload < 2 ^ 64" using a by (auto simp: ahead_def)
  then have usz: "unat sz = length payload" by (simp add: sz_def unat_word_of_nat_u64)
  then have A: "avail (length (hdr KList 0 sz) + unat sz) s" "inp s = hdr KList 0 sz @ payload @ rest"
    "skind s = None" "length (inp s) < 2 ^ 64"
    using a by (auto simp: ahead_def hdr_def)
  obtain s1 where s1: "stream_Kind s = (Inr (KList, sz), s1)" using stream_Kind_complete [OF A(1-3)] by auto
  note ks = stream_Kind_sound [OF s1 A(3)]
  let ?s2 = "s1\<lparr>stack := sz # adv sz (stack s1), skind := None, ssize := 0\<rparr>"
  have l: "stream_List s = (Inr sz, ?s2)" using s1 by (simp add: stream_List_def adv_def)
  have c: "consumes s (hdr KList 0 sz) s1" using ks(1) by (simp add: hdr_def)
  then have "inp s1 = payload @ rest" using A(2) by (simp add: consumes_def)
  then have "ahead payload rest ?s2"
    using avail_consumes [OF A(1) c] usz A(2,4) by (simp add: ahead_def avail_def)
  with l show ?thesis unfolding sz_def by fastforce
qed

lemma codec_list:
  assumes el: "rlp_elem e d"
  shows "rlp_codec (\<lambda>xs. Lst (map e xs)) (decodeListSlice d)"
proof
  fix xs
  show "reads (decodeListSlice d) (encode (Lst (map e xs))) xs"
    unfolding reads_def
  proof (intro allI impI)
    fix rest s
    let ?p = "concat (map (\<lambda>x. encode (e x)) xs)"
    assume "ahead (encode (Lst (map e xs))) rest s"
    then have "ahead (puthead 0xC0 0xF7 (length ?p) @ ?p) rest s" by (simp add: Let_def comp_def)
    from List_ahead [OF this] obtain s2 st where l: "stream_List s = (Inr (word_of_nat (length ?p)), s2)"
      and st: "stack s2 = word_of_nat (length ?p) # st" and a: "ahead ?p rest s2" by blast
    obtain s3 where s3: "decodeElems d s2 = (Inr xs, s3)" using rlp_elem.decodeElems_complete [OF el a st] by blast
    have "consumed s2 ?p s3" by (rule rlp_elem.decodeElems_sound [OF el s3 aheadD [OF a]])
    then have st3: "stack s3 = 0 # st" using st by (simp add: consumed_def consumes_def adv_def)
    show "\<exists>s'. decodeListSlice d s = (Inr xs, s')"
    proof (cases "(word_of_nat (length ?p) :: u64) = 0")
      case True
      moreover have "length ?p < 2 ^ 64" using a by (simp add: ahead_def avail_def)
      ultimately have "length ?p = 0" by (metis unat_word_of_nat_u64 unsigned_0)
      then have "xs = []" by (cases xs) auto
      then show ?thesis using l st True by (simp add: decodeListSlice_def ListEnd_def)
    qed (use l s3 st3 in \<open>simp add: decodeListSlice_def ListEnd_def\<close>)
  qed
next
  fix s s' xs
  assume r: "decodeListSlice d s = (Inr xs, s')" and s: "skind s = None" "length (inp s) < 2 ^ 64"
  obtain n s2 s3 u where l: "stream_List s = (Inr n, s2)"
    and d: "(if n = 0 then (Inr [], s2) else decodeElems d s2) = (Inr xs, s3)" and e: "ListEnd s3 = (Inr u, s')"
    using r by (auto simp: decodeListSlice_def split: prod.splits sum.splits)
  obtain s1 where k: "stream_Kind s = (Inr (KList, n), s1)" using stream_List_Kind [OF l] by blast
  have l1: "stream_List s1 = (Inr n, s2)" using l k stream_Kind_idem [OF k] by (simp add: stream_List_def)
  have s2: "skind s2 = None" "inp s2 = inp s1" using l k by (auto simp: stream_List_def Let_def)
  have i2: "length (inp s2) < 2 ^ 64" using stream_Kind_sound(1) [OF k s(1)] s(2) s2(2) by (auto simp: consumes_def)
  have "consumes s2 (concat (map (\<lambda>x. encode (e x)) xs)) s3"
  proof (cases "n = 0")
    case True
    then show ?thesis using d by (simp add: consumes_def)
  next
    case False
    with d have "decodeElems d s2 = (Inr xs, s3)" by simp
    from rlp_elem.decodeElems_sound [OF el this s2(1) i2] show ?thesis by (simp add: consumed_def)
  qed
  from list_sound [OF k s(1) l1 this s(2) e] show "consumed s (encode (Lst (map e xs))) s'"
    by (simp add: consumed_def Let_def comp_def)
qed

subsection \<open>Elements\<close>

text \<open>A struct decoder returns \<^verbatim>\<open>EOL\<close> only when it cannot enter the list of its fields.\<close>

definition no_eol :: "(Stream \<Rightarrow> 'a sres) \<Rightarrow> bool" where
  "no_eol dec \<longleftrightarrow> (\<forall>s s'. dec s \<noteq> (Inl EOL, s'))"

lemma no_eol_structEnd: "no_eol structEnd"
  by (simp add: no_eol_def structEnd_def)

lemma no_eol_structField: "no_eol ds \<Longrightarrow> no_eol (structField d ds)"
  by (auto simp: no_eol_def structField_def split: prod.splits sum.splits if_splits)

lemma wrapStreamError_EOL [simp]: "wrapStreamError e = EOL \<longleftrightarrow> e = EOL" "wrapStreamError EOL = EOL"
  by (auto simp: wrapStreamError_def)

lemma stream_List_EOL: "stream_List s = (Inl EOL, s') \<Longrightarrow> stream_Kind s = (Inl EOL, s')"
  by (auto simp: stream_List_def Let_def split: prod.splits sum.splits if_splits)

lemma decodeStruct_EOL:
  assumes "no_eol ds" "decodeStruct ds s = (Inl EOL, s')"
  shows "stream_Kind s = (Inl EOL, s')"
proof -
  have "stream_List s = (Inl EOL, s')"
    using assms ListEnd_sound
    by (fastforce simp: decodeStruct_def no_eol_def wrapped_def split: prod.splits sum.splits)
  then show ?thesis by (rule stream_List_EOL)
qed

lemma stream_Kind_at_end: "skind s = None \<Longrightarrow> listLimit s = Some 0 \<Longrightarrow> stream_Kind s = (Inl EOL, s)"
  by (simp add: stream_Kind_def)

lemma decodeStruct_at_end: "stream_Kind s = (Inl EOL, s) \<Longrightarrow> decodeStruct ds s = (Inl EOL, s)"
  by (simp add: decodeStruct_def stream_List_def)

lemma decode_as_Inl: "decode_as f d s = (Inl e, s') \<longleftrightarrow> d s = (Inl e, s')"
  by (auto simp: decode_as_def split: prod.splits sum.splits)

lemma elem_struct:
  assumes "rlp_codec e (decode_as f (decodeStruct ds))" "no_eol ds"
  shows "rlp_elem e (decode_as f (decodeStruct ds))"
proof (rule rlp_elem.intro [OF assms(1)], rule rlp_elem_axioms.intro)
  fix s assume "skind s = None" "listLimit s = Some 0"
  then show "decode_as f (decodeStruct ds) s = (Inl EOL, s)"
    unfolding decode_as_Inl by (intro decodeStruct_at_end stream_Kind_at_end)
next
  fix s s' assume "decode_as f (decodeStruct ds) s = (Inl EOL, s')" "skind s = None"
  then show "s' = s \<and> listLimit s = Some 0"
    unfolding decode_as_Inl using decodeStruct_EOL [OF assms(2)] stream_Kind_EOL by blast
qed

interpretation voter_codec: rlp_codec voter_item decodeVoter
  unfolding decodeVoter_def
  by (rule codec_struct_as [where g = "\<lambda>v. (vt_Header v, vt_Voter v, VoteSign v, ())"])
    (rule fields_field fields_end field_codecs | auto simp: voter_item_def)+

interpretation voter_elem: rlp_elem voter_item decodeVoter
  using voter_codec.rlp_codec_axioms unfolding decodeVoter_def
  by (rule elem_struct) (intro no_eol_structField no_eol_structEnd)

lemma decodeTx_eq:
  "decodeTx s =
     (case decodeLegacyTx (snd (stream_Kind s)) of
        (Inr p, s2) \<Rightarrow> (Inr p, s2)
      | (Inl e, s2) \<Rightarrow> (Inl e, snd (decodeEthTx s2)))"
  by (auto simp: decodeTx_def tx_DecodeRLP_def Let_def split: prod.splits sum.splits)

lemma legacy_elem: "rlp_elem (\<lambda>(t, f). tx_item (LegacyTx t f)) decodeLegacyTx"
  using legacy_codec.rlp_codec_axioms unfolding decodeLegacyTx_def
  by (rule elem_struct) (intro no_eol_structField no_eol_structEnd)

lemma stream_Kind_idem_error: "stream_Kind s = (Inl e, s1) \<Longrightarrow> stream_Kind s1 = (Inl e, s1)"
  by (auto simp: stream_Kind_def Let_def split: prod.splits option.splits if_splits)

lemma decodeLegacyTx_error: "stream_Kind s = (Inl e, s1) \<Longrightarrow> decodeLegacyTx s = (Inl (wrapStreamError e), s1)"
  by (simp add: decodeLegacyTx_def decode_as_def decodeStruct_def stream_List_def)

lemma decodeEthTx_error: "stream_Kind s = (Inl e, s1) \<Longrightarrow> decodeEthTx s = (Inl (wrapStreamError e), s1)"
  by (simp add: decodeEthTx_def decode_as_def decodeStruct_def stream_List_def)

lemma decodeTx_Inr: "decodeTx s = (Inr p, s') \<longleftrightarrow> decodeLegacyTx s = (Inr p, s')"
proof (cases "stream_Kind s")
  case (Pair r s1)
  show ?thesis
  proof (cases r)
    case (Inl e)
    then have k: "stream_Kind s = (Inl e, s1)" using Pair by simp
    from decodeLegacyTx_error [OF k] decodeLegacyTx_error [OF stream_Kind_idem_error [OF k]] show ?thesis
      by (simp add: decodeTx_eq k)
  next
    case (Inr q)
    then have k: "stream_Kind s = (Inr q, s1)" using Pair by simp
    then show ?thesis using decodeLegacyTx_peek [OF k]
      by (auto simp: decodeTx_eq split: prod.splits sum.splits)
  qed
qed

lemma decodeTx_at_end:
  assumes "stream_Kind s = (Inl EOL, s)"
  shows "decodeTx s = (Inl EOL, s)"
  using decodeLegacyTx_error [OF assms] decodeEthTx_error [OF assms] by (simp add: decodeTx_eq assms)

lemma decodeTx_EOL:
  assumes "decodeTx s = (Inl EOL, s')" "skind s = None"
  shows "s' = s \<and> listLimit s = Some 0"
proof (cases "stream_Kind s")
  case (Pair r s1)
  obtain s2 where l: "decodeLegacyTx s1 = (Inl EOL, s2)"
    using assms(1) Pair by (auto simp: decodeTx_eq split: prod.splits sum.splits)
  then have "stream_Kind s1 = (Inl EOL, s2)"
    unfolding decodeLegacyTx_def decode_as_Inl
    by (rule decodeStruct_EOL [rotated]) (intro no_eol_structField no_eol_structEnd)
  then have "stream_Kind s = (Inl EOL, s1)"
    using Pair stream_Kind_idem [of s _ s1] stream_Kind_idem_error [of s _ s1] by (cases r) auto
  then have k: "s1 = s" "listLimit s = Some 0" using stream_Kind_EOL [of s s1] assms(2) by auto
  then show ?thesis using assms(1) decodeTx_at_end [OF stream_Kind_at_end [OF assms(2)]] by auto
qed

interpretation tx_elem: rlp_elem "\<lambda>(t, f). tx_item (LegacyTx t f)" decodeTx
proof
  fix x :: "u64 \<times> TxFields"
  show "reads decodeTx (encode (case x of (t, f) \<Rightarrow> tx_item (LegacyTx t f))) x"
    using legacy_codec.complete [of x] by (simp add: reads_def decodeTx_Inr)
next
  fix s s' and x :: "u64 \<times> TxFields"
  assume "decodeTx s = (Inr x, s')" "skind s = None" "length (inp s) < 2 ^ 64"
  then show "consumed s (encode (case x of (t, f) \<Rightarrow> tx_item (LegacyTx t f))) s'"
    using legacy_codec.sound by (simp only: decodeTx_Inr)
next
  fix s assume "skind s = None" "listLimit s = Some 0"
  then show "decodeTx s = (Inl EOL, s)" by (intro decodeTx_at_end stream_Kind_at_end)
next
  fix s s' assume "decodeTx s = (Inl EOL, s')" "skind s = None"
  then show "s' = s \<and> listLimit s = Some 0" by (rule decodeTx_EOL)
qed

interpretation extblock_codec: rlp_codec
  "\<lambda>(h, txs, vs, u). Lst [header_item h, Lst (map (\<lambda>(t, f). tx_item (LegacyTx t f)) txs), Lst (map voter_item vs)]"
  decodeExtblock
proof -
  have "rlp_codec (\<lambda>x. Lst ((\<lambda>(h, y). header_item h # (\<lambda>(txs, z). Lst (map (\<lambda>(t, f). tx_item (LegacyTx t f)) txs) #
      (\<lambda>(vs, u). Lst (map voter_item vs) # (\<lambda>u :: unit. []) u) z) y) x)) decodeExtblock"
    unfolding decodeExtblock_def
    by (intro codec_struct fields_field fields_end codec_list header_codec.rlp_codec_axioms
        tx_elem.rlp_elem_axioms voter_elem.rlp_elem_axioms)
  then show "rlp_codec (\<lambda>(h, txs, vs, u). Lst [header_item h, Lst (map (\<lambda>(t, f). tx_item (LegacyTx t f)) txs),
      Lst (map voter_item vs)]) decodeExtblock"
    by (simp add: case_prod_beta')
qed

subsection \<open>Blocks\<close>

primrec is_legacy :: "TxData \<Rightarrow> bool" where
  "is_legacy (LegacyTx t f) = True"
| "is_legacy (EthTxData f) = False"

definition legacy_only :: "Block \<Rightarrow> bool" where
  "legacy_only b \<longleftrightarrow> list_all is_legacy (transactions b)"

definition split_block :: "Block \<Rightarrow> Header \<times> (u64 \<times> TxFields) list \<times> Voter list \<times> unit" where
  "split_block b = (header b, map (\<lambda>tx. (txType tx, fields_of tx)) (transactions b), voters b, ())"

lemma legacy_tx: "is_legacy tx \<Longrightarrow> LegacyTx (txType tx) (fields_of tx) = tx"
  by (cases tx) auto

lemma block_of_split: "legacy_only b \<Longrightarrow> block_of (split_block b) = b"
  by (cases b) (simp add: block_of_def split_block_def legacy_only_def list_all_iff legacy_tx map_idI)

lemma legacy_tx_item:
  "is_legacy tx \<Longrightarrow> tx_item tx = Lst (rlp_uint (unat (txType tx)) # fields_items (fields_of tx) @ sig_items (fields_of tx))"
  by (cases tx) auto

lemma item_split_block:
  "legacy_only b \<Longrightarrow>
   block_item b = (case split_block b of (h, txs, vs, u) \<Rightarrow>
     Lst [header_item h, Lst (map (\<lambda>(t, f). tx_item (LegacyTx t f)) txs), Lst (map voter_item vs)])"
  by (simp add: split_block_def block_item_def legacy_only_def list_all_iff legacy_tx_item)

lemma legacy_only_block_of: "legacy_only (block_of p)"
  by (auto simp: block_of_def legacy_only_def list_all_iff split: prod.splits)

lemma split_block_of: "split_block (block_of p) = p"
  by (cases p) (auto simp: block_of_def split_block_def comp_def case_prod_beta')

lemma stream_Reset_0: "stream_Reset b 0 = stream_Reset b (word_of_nat (length b))"
  by (cases "(word_of_nat (length b) :: u64) = 0") (auto simp: stream_Reset_def word_greater_zero_iff)

lemma decodeExtblock_peek: "stream_Kind s = (Inr q, s1) \<Longrightarrow> decodeExtblock s1 = decodeExtblock s"
  using stream_Kind_idem [of s q s1] by (simp add: decodeExtblock_def decodeStruct_def stream_List_def)

lemma decodeExtblock_error: "stream_Kind s = (Inl e, s1) \<Longrightarrow> decodeExtblock s = (Inl (wrapStreamError e), s1)"
  by (simp add: decodeExtblock_def decodeStruct_def stream_List_def)

lemma block_DecodeRLP_Inr: "block_DecodeRLP s = (Inr b, s') \<longleftrightarrow> (\<exists>p. decodeExtblock s = (Inr p, s') \<and> b = block_of p)"
proof -
  have "decode_as f d t = (Inr b, s') \<longleftrightarrow> (\<exists>p. d t = (Inr p, s') \<and> b = f p)"
    for f and d :: "Stream \<Rightarrow> (Header \<times> (u64 \<times> TxFields) list \<times> Voter list \<times> unit) sres" and t
    by (auto simp: decode_as_def split: prod.splits sum.splits)
  moreover have "decodeExtblock (snd (stream_Kind s)) = (Inr p, s') \<longleftrightarrow> decodeExtblock s = (Inr p, s')" for p
  proof (cases "stream_Kind s")
    case (Pair r s1)
    then show ?thesis
      using decodeExtblock_peek [of s _ s1] decodeExtblock_error [of s _ s1]
        decodeExtblock_error [OF stream_Kind_idem_error, of s _ s1] by (cases r) auto
  qed
  ultimately show ?thesis by (simp add: block_DecodeRLP_def Let_def)
qed

lemma DecodeBlock_encode:
  assumes "legacy_only b" "length (encode (block_item b)) < 2 ^ 64"
  shows "DecodeBlock (block_EncodeRLP b) = Inr b"
proof -
  let ?e = "encode (block_item b)"
  have a: "ahead ?e [] (stream_Reset ?e 0)"
    unfolding stream_Reset_0 using assms(2) by (intro ahead_Reset) auto
  then obtain s' where "decodeExtblock (stream_Reset ?e 0) = (Inr (split_block b), s')"
    using extblock_codec.complete [of "split_block b"] item_split_block [OF assms(1)] by (auto simp: reads_def)
  then have "block_DecodeRLP (stream_Reset ?e 0) = (Inr b, s')"
    unfolding block_DecodeRLP_Inr using block_of_split [OF assms(1)] by metis
  then show ?thesis by (simp add: DecodeBlock_def block_EncodeRLP_def EncodeToBytes_encode [OF assms(2)])
qed

lemma DecodeBlock_sound:
  assumes "DecodeBlock bs = Inr b" "length bs < 2 ^ 64"
  shows "legacy_only b \<and> (\<exists>rest. bs = encode (block_item b) @ rest)"
proof -
  obtain s' where "block_DecodeRLP (stream_Reset bs 0) = (Inr b, s')"
    using assms(1) by (cases "block_DecodeRLP (stream_Reset bs 0)") (auto simp: DecodeBlock_def)
  then obtain p where p: "decodeExtblock (stream_Reset bs 0) = (Inr p, s')" "b = block_of p"
    unfolding block_DecodeRLP_Inr by blast
  have "consumed (stream_Reset bs 0) (encode (block_item b)) s'"
    using extblock_codec.sound [OF p(1)] assms(2) item_split_block [OF legacy_only_block_of, of p]
    by (simp add: p(2) split_block_of)
  then show ?thesis using p(2) legacy_only_block_of by (auto simp: consumed_def consumes_def)
qed

lemma tx_item_length: "\<exists>l. tx_item tx = Lst l \<and> length l = (if is_legacy tx then 10 else 9)"
  by (cases tx) (simp_all add: fields_items_def sig_items_def)

lemma tx_item_legacy: "tx_item x = tx_item y \<Longrightarrow> is_legacy x = is_legacy y"
  using tx_item_length [of x] tx_item_length [of y] by (auto split: if_splits)

lemma legacy_items: "map tx_item xs = map tx_item ys \<Longrightarrow> list_all is_legacy xs \<Longrightarrow> list_all is_legacy ys"
  by (simp only: map_equality_iff list_all_length) (use tx_item_legacy in blast)

text \<open>
  C20: Blocks survive the wire exactly when they hold no Ethereum-format transaction.  \<^verbatim>\<open>DecodeRLP\<close> of
  \<^verbatim>\<open>EncodeRLP\<close> returns the block with header, transactions in order and votes when all transactions are
  \<^verbatim>\<open>LegacyTx\<close>, and is an error for every other block, because \<^verbatim>\<open>Transaction.DecodeRLP\<close> does not accept what
  \<^verbatim>\<open>Transaction.EncodeRLP\<close> writes for \<^verbatim>\<open>txEthdata\<close>.
\<close>

theorem block_rlp_roundtrip:
  assumes "length (encode (block_item b)) < 2 ^ 64"
  shows "if legacy_only b then DecodeBlock (block_EncodeRLP b) = Inr b
         else \<exists>e. DecodeBlock (block_EncodeRLP b) = Inl e"
proof (cases "legacy_only b")
  case False
  have "DecodeBlock (block_EncodeRLP b) \<noteq> Inr c" for c
  proof
    assume d: "DecodeBlock (block_EncodeRLP b) = Inr c"
    have e: "block_EncodeRLP b = encode (block_item b)" by (simp add: block_EncodeRLP_def EncodeToBytes_encode [OF assms])
    obtain rest where c: "legacy_only c" "encode (block_item b) = encode (block_item c) @ rest"
      using DecodeBlock_sound [OF d] assms unfolding e by blast
    have "block_item b = block_item c" using c(2) assms
      by (intro encode_prefix_free [of "block_item b" "[]" "block_item c" rest]) simp_all
    then have "map tx_item (transactions c) = map tx_item (transactions b)" unfolding block_item_def by simp
    from legacy_items [OF this] c(1) False show False unfolding legacy_only_def by blast
  qed
  then have "\<exists>e. DecodeBlock (block_EncodeRLP b) = Inl e" by (metis sum.exhaust)
  with False show ?thesis by (simp only: if_False not_False_eq_True)
next
  case True
  from DecodeBlock_encode [OF True assms] True show ?thesis by (simp only: if_True)
qed

subsection \<open>Sizes\<close>

lemma length_encode_Str: "length (encode (Str b)) \<le> length b + 9"
  using length_putint(2) [of "length b"] by (simp add: encode_bytes_def puthead_def Let_def)

lemma length_encode_uint: "n < 256 ^ k \<Longrightarrow> length (encode (rlp_uint n)) \<le> k + 9"
  using length_encode_Str [of "be_bytes n"] length_be_bytes_le [of n k] by (simp add: rlp_uint_def)

lemma length_header_item:
  assumes "Difficulty h < 256 ^ 32" "Number h < 256 ^ 32" "Time h < 256 ^ 32"
  shows "length (encode (header_item h)) \<le> 1000 + length (Extra h) + length (hd_Otprn h) + length (FairnodeSign h)"
proof -
  have u: "unat (w :: u64) < 256 ^ 8" for w using unat_u64_less [of w] by simp
  note bounds = length_encode_array [of 32 "ParentHash h"] length_encode_array [of 20 "Coinbase h"]
    length_encode_array [of 32 "Root h"] length_encode_array [of 32 "TxHash h"] length_encode_array [of 32 "VoteHash h"]
    length_encode_array [of 32 "ReceiptHash h"] length_encode_array [of 256 "Bloom h"] length_encode_array [of 8 "Nonce h"]
    length_encode_uint [OF assms(1)] length_encode_uint [OF assms(2)] length_encode_uint [OF assms(3)]
    length_encode_uint [OF u, of "GasLimit h"] length_encode_uint [OF u, of "GasUsed h"]
    length_encode_Str [of "Extra h"] length_encode_Str [of "hd_Otprn h"] length_encode_Str [of "FairnodeSign h"]
  show ?thesis unfolding header_item_def
    by (rule order_trans [OF length_encode_Lst]) (use bounds in \<open>simp only: list.map sum_list.Cons sum_list.Nil\<close>)
qed

theorem block_rlp_roundtrip_witness:
  "(\<exists>e. DecodeBlock (block_EncodeRLP \<lparr>header = zero_header, transactions = [EthTxData sample_fields], voters = []\<rparr>) = Inl e) \<and>
   DecodeBlock (block_EncodeRLP \<lparr>header = zero_header, transactions = [LegacyTx JoinTx sample_fields], voters = []\<rparr>)
     = Inr \<lparr>header = zero_header, transactions = [LegacyTx JoinTx sample_fields], voters = []\<rparr>"
proof -
  have h: "length (encode (header_item zero_header)) \<le> 1000"
    using length_header_item [of zero_header] by (simp add: zero_header_def)
  have t: "length (encode (tx_item (EthTxData sample_fields))) \<le> 100"
    "length (encode (tx_item (LegacyTx JoinTx sample_fields))) \<le> 100" by code_simp+
  have e: "length (encode (Lst [])) \<le> 1" by code_simp
  have b: "length (encode (block_item \<lparr>header = zero_header, transactions = [tx], voters = []\<rparr>)) < 2 ^ 64"
    if "length (encode (tx_item tx)) \<le> 100" for tx
  proof -
    have "length (encode (Lst [tx_item tx])) \<le> 109"
      by (rule order_trans [OF length_encode_Lst]) (use that in simp)
    with h e have "length (encode (block_item \<lparr>header = zero_header, transactions = [tx], voters = []\<rparr>)) \<le> 2000"
      unfolding block_item_def by (intro order_trans [OF length_encode_Lst]) simp
    then show ?thesis by (rule le_less_trans) simp
  qed
  from block_rlp_roundtrip [OF b, OF t(1)] block_rlp_roundtrip [OF b, OF t(2)] show ?thesis
    by (simp add: legacy_only_def)
qed

end
