(* ===== verification/Messages.thy ===== *)
theory Messages
  imports Blocks
begin

unbundle bit_operations_syntax

text \<open>
  The messages between miners and fairnode: hexadecimal addresses (\<^verbatim>\<open>src/common/types.go\<close>, \<^verbatim>\<open>src/common/bytes.go\<close>)
  and the hashes the two sides sign (\<^verbatim>\<open>rlpHash\<close> of \<^verbatim>\<open>src/fairnode/util.go\<close> and \<^verbatim>\<open>src/consensus/deb/client/util.go\<close>).

  Go strings are byte lists.  \<^verbatim>\<open>rlpHash\<close> encodes a \<^verbatim>\<open>[]interface{}\<close>; RLP refuses signed integers
  (\<^verbatim>\<open>makeWriter\<close>: "type is not RLP-serializable"), \<^verbatim>\<open>rlp.Encode\<close> then writes nothing and \<^verbatim>\<open>rlpHash\<close> drops its
  error, so that the result is the hash of the empty string.
\<close>

subsection \<open>Hexadecimal\<close>

definition hex_val :: "byte \<Rightarrow> byte option" where
  "hex_val c =
     (if 0x30 \<le> c \<and> c \<le> 0x39 then Some (c - 0x30)
      else if 0x61 \<le> c \<and> c \<le> 0x66 then Some (c - 0x61 + 10)
      else if 0x41 \<le> c \<and> c \<le> 0x46 then Some (c - 0x41 + 10)
      else None)"

text \<open>\<^verbatim>\<open>Hex2Bytes\<close> drops the error of \<^verbatim>\<open>hex.DecodeString\<close>, which returns what it decoded before a bad character.\<close>

fun Hex2Bytes :: "byte list \<Rightarrow> byte list" where
  "Hex2Bytes (a # b # cs) =
     (case (hex_val a, hex_val b) of
        (Some x, Some y) \<Rightarrow> (push_bit 4 x OR y) # Hex2Bytes cs
      | _ \<Rightarrow> [])"
| "Hex2Bytes cs = []"

definition FromHex :: "byte list \<Rightarrow> byte list" where
  "FromHex s =
     (let s1 = (if length s > 1 \<and> (take 2 s = [0x30, 0x78] \<or> take 2 s = [0x30, 0x58]) then drop 2 s else s);
          s2 = (if length s1 mod 2 = 1 then 0x30 # s1 else s1)
      in Hex2Bytes s2)"

definition BytesToAddress :: "byte list \<Rightarrow> Address" where
  "BytesToAddress b =
     (let b' = (if length b > 20 then drop (length b - 20) b else b)
      in word_of_nat (be_val b'))"

definition HexToAddress :: "byte list \<Rightarrow> Address" where
  "HexToAddress s = BytesToAddress (FromHex s)"

definition HexToHash :: "byte list \<Rightarrow> Hash" where
  "HexToHash s = BytesToHash (FromHex s)"

definition hex_digit :: "byte \<Rightarrow> byte" where
  "hex_digit x = (if x < 10 then x + 0x30 else x - 10 + 0x61)"

primrec EncodeToString :: "byte list \<Rightarrow> byte list" where
  "EncodeToString [] = []"
| "EncodeToString (b # bs) = hex_digit (drop_bit 4 b) # hex_digit (b AND 15) # EncodeToString bs"

definition Hash_String :: "Hash \<Rightarrow> byte list" where
  "Hash_String h = [0x30, 0x78] @ EncodeToString (hash_bytes h)"

text \<open>The letters of an address are capitalised according to the hash of its lower case form.\<close>

definition checksum_byte :: "byte list \<Rightarrow> nat \<Rightarrow> byte \<Rightarrow> byte" where
  "checksum_byte hash i c =
     (let b = hash ! (i div 2);
          hashByte = (if i mod 2 = 0 then drop_bit 4 b else b AND 0xf)
      in if c > 0x39 \<and> hashByte > 7 then c - 32 else c)"

definition Address_String :: "hash_fun \<Rightarrow> Address \<Rightarrow> byte list" where
  "Address_String keccak a =
     (let unchecksummed = EncodeToString (address_bytes a);
          hash = hash_bytes (keccak unchecksummed)
      in [0x30, 0x78] @ map2 (checksum_byte hash) [0..<length unchecksummed] unchecksummed)"

subsection \<open>Hashes of messages\<close>

text \<open>The values the messages are made of, by the kind \<^verbatim>\<open>makeWriter\<close> selects a writer for.\<close>

datatype go_value = GoString "byte list" | GoBytes "byte list" | GoUint u64 | GoInt int | GoSlice "go_value list"

fun writer :: "go_value \<Rightarrow> item option" where
  "writer (GoString s) = Some (Str s)"
| "writer (GoBytes b) = Some (Str b)"
| "writer (GoUint n) = Some (rlp_uint (unat n))"
| "writer (GoInt i) = None"
| "writer (GoSlice vs) = map_option Lst (those (map writer vs))"

definition rlpHash_args :: "hash_fun \<Rightarrow> go_value list \<Rightarrow> Hash" where
  "rlpHash_args keccak vs =
     (case writer (GoSlice vs) of
        None \<Rightarrow> keccak []
      | Some x \<Rightarrow> rlpHash keccak x)"

text \<open>The messages (\<^verbatim>\<open>src/protos/common\<close>), without those fields no handler reads.\<close>

record HeartBeatMsg =
  hb_Enode :: "byte list"
  hb_MinerAddress :: "byte list"
  hb_ChainID :: "byte list"
  hb_NodeVersion :: "byte list"
  hb_Ip :: "byte list"
  hb_Port :: int
  hb_Head :: "byte list"
  hb_Sign :: "byte list"

record ReqOtprn =
  ro_Enode :: "byte list"
  ro_MinerAddress :: "byte list"
  ro_Sign :: "byte list"

text \<open>\<^verbatim>\<open>Participate\<close> and \<^verbatim>\<open>ReqLeague\<close> have the same fields, as have \<^verbatim>\<open>ReqConfirmSeal\<close> and \<^verbatim>\<open>ReqFairnodeSign\<close>.\<close>

record Participate =
  pa_Enode :: "byte list"
  pa_MinerAddress :: "byte list"
  pa_OtprnHash :: "byte list"
  pa_Sign :: "byte list"

record VoteMsg =
  vm_Header :: "byte list"
  vm_VoterAddress :: "byte list"
  vm_VoterSign :: "byte list"

record ReqVoteResult =
  rv_OtprnHash :: "byte list"
  rv_Address :: "byte list"
  rv_Sign :: "byte list"

record ReqConfirmSeal =
  rc_OtprnHash :: "byte list"
  rc_BlockHash :: "byte list"
  rc_VoteHash :: "byte list"
  rc_Address :: "byte list"
  rc_Sign :: "byte list"

record ReqBlock =
  rb_Block :: "byte list"
  rb_Address :: "byte list"
  rb_Sign :: "byte list"

record ProcessMessage =
  pm_Code :: ProcessStatus
  pm_CurrentBlockNum :: "byte list"
  pm_Sign :: "byte list"

record ResVoteResult =
  vr_Success :: bool
  vr_BlockHash :: "byte list"
  vr_Voters :: "VoteMsg list"
  vr_Sign :: "byte list"

record ResFairnodeSign =
  fs_Signature :: "byte list"
  fs_Sign :: "byte list"

text \<open>The number behind a code of \<^verbatim>\<open>proto.ProcessStatus\<close>, a Go \<^verbatim>\<open>int32\<close>.\<close>

primrec status_number :: "ProcessStatus \<Rightarrow> int" where
  "status_number PS_WAIT = 0"
| "status_number PS_MAKE_LEAGUE = 1"
| "status_number PS_MAKE_JOIN_TX = 2"
| "status_number PS_MAKE_BLOCK = 3"
| "status_number PS_LEAGUE_BROADCASTING = 4"
| "status_number PS_VOTE_START = 5"
| "status_number PS_VOTE_COMPLETE = 6"
| "status_number PS_REJECT = 7"
| "status_number PS_SEND_BLOCK = 8"
| "status_number PS_SEND_BLOCK_WAIT = 9"
| "status_number PS_REQ_FAIRNODE_SIGN = 10"
| "status_number PS_FINALIZE = 11"
| "status_number PS_VOTE_COUNTING = 12"

definition vote_value :: "VoteMsg \<Rightarrow> go_value" where
  "vote_value v = GoSlice [GoBytes (vm_Header v), GoString (vm_VoterAddress v), GoBytes (vm_VoterSign v)]"

text \<open>What the fairnode signs in a status message, a vote result and a seal confirmation.\<close>

definition process_hash :: "hash_fun \<Rightarrow> ProcessMessage \<Rightarrow> Hash" where
  "process_hash keccak m = rlpHash_args keccak [GoInt (status_number (pm_Code m)), GoBytes (pm_CurrentBlockNum m)]"

definition vote_result_hash :: "hash_fun \<Rightarrow> ResVoteResult \<Rightarrow> Hash" where
  "vote_result_hash keccak m =
     rlpHash_args keccak [GoInt (if vr_Success m then 0 else 1), GoString (vr_BlockHash m),
                          GoSlice (map vote_value (vr_Voters m))]"

definition confirm_hash :: "hash_fun \<Rightarrow> ProcessStatus \<Rightarrow> Hash" where
  "confirm_hash keccak code = rlpHash_args keccak [GoInt (status_number code)]"

definition vote_hash :: "hash_fun \<Rightarrow> byte list \<Rightarrow> byte list \<Rightarrow> Hash" where
  "vote_hash keccak head addr = rlpHash_args keccak [GoBytes head, GoString addr]"

definition seal_hash :: "hash_fun \<Rightarrow> ReqConfirmSeal \<Rightarrow> Hash" where
  "seal_hash keccak m =
     rlpHash_args keccak [GoBytes (rc_OtprnHash m), GoBytes (rc_BlockHash m), GoBytes (rc_VoteHash m), GoString (rc_Address m)]"

definition participate_hash :: "hash_fun \<Rightarrow> Participate \<Rightarrow> Hash" where
  "participate_hash keccak m =
     rlpHash_args keccak [GoString (pa_Enode m), GoString (pa_MinerAddress m), GoBytes (pa_OtprnHash m)]"

text \<open>The heartbeat as the fairnode hashes it and as the miner hashes it.\<close>

definition heartbeat_hash :: "hash_fun \<Rightarrow> HeartBeatMsg \<Rightarrow> Hash" where
  "heartbeat_hash keccak m =
     rlpHash_args keccak [GoString (hb_Enode m), GoString (hb_NodeVersion m), GoString (hb_ChainID m),
       GoString (hb_MinerAddress m), GoInt (hb_Port m), GoString (hb_Head m), GoString (hb_Ip m)]"

definition Miner_Hash :: "hash_fun \<Rightarrow> HeartBeatMsg \<Rightarrow> Hash" where
  "Miner_Hash keccak m =
     rlpHash_args keccak [GoString (hb_Enode m), GoString (hb_NodeVersion m), GoString (hb_ChainID m),
       GoString (hb_MinerAddress m), GoInt (hb_Port m), GoString (hb_Head m)]"

subsection \<open>Addresses in messages\<close>

lemma nibble_in: "x < 16 \<Longrightarrow> x \<in> set (map word_of_nat [0..<16])" for x :: byte
proof -
  assume "x < 16"
  then have "unat x < 16" by (simp add: word_less_nat_alt)
  then show ?thesis by (intro image_eqI [of _ _ "unat x", folded set_map] | simp)+
qed

lemma hex_val_digit: "x < 16 \<Longrightarrow> hex_val (hex_digit x) = Some x"
  and hex_val_upper: "x < 16 \<Longrightarrow> hex_digit x > 0x39 \<Longrightarrow> hex_val (hex_digit x - 32) = Some x"
proof -
  have *: "\<forall>x \<in> set (map word_of_nat [0..<16]). hex_val (hex_digit x) = Some x \<and>
      (hex_digit x > 0x39 \<longrightarrow> hex_val (hex_digit x - 32) = Some x)"
    by code_simp
  show "x < 16 \<Longrightarrow> hex_val (hex_digit x) = Some x"
    "x < 16 \<Longrightarrow> hex_digit x > 0x39 \<Longrightarrow> hex_val (hex_digit x - 32) = Some x"
    using * nibble_in [of x] by blast+
qed

lemma nibbles_less: "drop_bit 4 b < 16" "b AND 15 < 16" for b :: byte
proof -
  have "unat b div 16 < 16" by (rule less_mult_imp_div_less) simp
  then show "drop_bit 4 b < 16"
    by (simp only: word_less_nat_alt unat_drop_bit_eq) (simp add: drop_bit_eq_div)
  have "b AND 15 \<le> 15" by (rule word_and_le1)
  then show "b AND 15 < 16" by (simp add: word_le_nat_alt word_less_nat_alt)
qed

lemma nibbles: "push_bit 4 (drop_bit 4 b) OR (b AND 15) = b" for b :: byte
proof -
  have "push_bit 4 (drop_bit 4 b) OR (b AND mask 4) = b" by (rule bit_eqI) (auto simp: bit_simps)
  moreover have "(mask 4 :: byte) = 15" by (simp add: mask_eq_exp_minus_1)
  ultimately show ?thesis by simp
qed

lemma hex_val_checksum:
  "x < 16 \<Longrightarrow> hex_val (checksum_byte hash i (hex_digit x)) = Some x"
  using hex_val_digit [of x] hex_val_upper [of x] by (simp add: checksum_byte_def Let_def)

lemma Hex2Bytes_checksum:
  "Hex2Bytes (map2 (checksum_byte hash) [i..<i + length (EncodeToString bs)] (EncodeToString bs)) = bs"
proof (induction bs arbitrary: i)
  case (Cons b bs)
  have "[i..<i + length (EncodeToString (b # bs))] = i # Suc i # [i + 2..<(i + 2) + length (EncodeToString bs)]"
    by (simp add: upt_rec)
  then show ?case using Cons.IH [of "i + 2"]
    by (simp add: hex_val_checksum nibbles_less nibbles)
qed simp

lemma length_EncodeToString [simp]: "length (EncodeToString bs) = 2 * length bs"
  by (induction bs) auto

lemma BytesToAddress_bytes: "BytesToAddress (address_bytes a) = a"
  by (simp add: BytesToAddress_def)

lemma HexToAddress_String [simp]: "HexToAddress (Address_String keccak a) = a"
proof -
  let ?u = "EncodeToString (address_bytes a)"
  have "Hex2Bytes (map2 (checksum_byte (hash_bytes (keccak ?u))) [0..<length ?u] ?u) = address_bytes a"
    using Hex2Bytes_checksum [of _ 0 "address_bytes a"] by simp
  then show ?thesis
    by (simp add: HexToAddress_def FromHex_def Address_String_def Let_def BytesToAddress_bytes)
qed

lemma Hex2Bytes_String: "Hex2Bytes (EncodeToString bs) = bs"
  by (induction bs) (simp_all add: hex_val_digit nibbles_less nibbles)

lemma HexToHash_String [simp]: "HexToHash (Hash_String h) = h"
  by (simp add: HexToHash_def FromHex_def Hash_String_def Hex2Bytes_String)

subsection \<open>Signatures over nothing\<close>

lemma those_Some: "those (map f xs) = Some ys \<Longrightarrow> x \<in> set xs \<Longrightarrow> f x \<noteq> None"
  by (induction xs arbitrary: ys) (auto split: option.splits)

lemma rlpHash_args_refused: "v \<in> set vs \<Longrightarrow> writer v = None \<Longrightarrow> rlpHash_args keccak vs = keccak []"
  using those_Some [of writer vs _ v] by (auto simp: rlpHash_args_def split: option.splits)


end
