(* ===== verification/FairDB.thy ===== *)
theory FairDB
  imports Messages "HOL-Library.AList" "HOL-Library.Multiset"
begin

text \<open>
  The fairnode's database (\<^verbatim>\<open>src/fairnode/fairdb\<close>): the memory database and the vote key.

  Go maps are association lists with one entry per key; the order in which Go ranges over them is
  unspecified, so readers of whole maps are used up to order.  \<open>block_store\<close> is what the fairnode relies on
  when it stores and looks up final blocks; the memory database provides it as long as no two stored
  blocks share a hash, which its operations preserve.
\<close>

record HeartBeat =
  Enode :: "byte list"
  MinerAddress :: "byte list"
  ChainID :: "byte list"
  hbt_NodeVersion :: "byte list"
  Host :: "byte list"
  Port :: int
  hbt_Time :: int
  Head :: Hash
  hbt_Sign :: "byte list"

definition zero_heartbeat :: HeartBeat where
  "zero_heartbeat = \<lparr>Enode = [], MinerAddress = [], ChainID = [], hbt_NodeVersion = [], Host = [], Port = 0,
     hbt_Time = 0, Head = 0, hbt_Sign = []\<rparr>"

record MemDatabase =
  ConfigList :: "(Hash \<times> ChainConfig) list"
  NodeList :: "(byte list \<times> HeartBeat) list"
  OtprnList :: "Otprn list"
  LeagueList :: "(Hash \<times> (byte list \<times> HeartBeat) list) list"
  VoteList :: "(Hash \<times> Voter list) list"
  BlockChain :: "Block list"

datatype db_error = ErrConfigExist | ErrAlreadyExistBlock

definition NewMemDatabase :: MemDatabase where
  "NewMemDatabase = \<lparr>ConfigList = [], NodeList = [], OtprnList = [], LeagueList = [], VoteList = [], BlockChain = []\<rparr>"

text \<open>The built-in configuration; the version string is that of the build.\<close>

definition GetChainConfig :: "byte list \<Rightarrow> ChainConfig" where
  "GetChainConfig version =
     \<lparr>MinMiner = 3, BlockNumber = 0, FnFee = [0x31, 0x30], Mminer = 50, Epoch = 10, NodeVersion = version,
      cc_Price = \<lparr>JoinTxPrice = [0x31], Price_GasPrice = 9523809523809, Price_GasLimit = 12600000\<rparr>, cc_Sign = []\<rparr>"

definition SaveChainConfig :: "hash_fun \<Rightarrow> ChainConfig \<Rightarrow> MemDatabase \<Rightarrow> db_error + MemDatabase" where
  "SaveChainConfig keccak c m =
     (case map_of (ConfigList m) (ChainConfig_Hash keccak c) of
        Some _ \<Rightarrow> Inl ErrConfigExist
      | None \<Rightarrow> Inr (m\<lparr>ConfigList := AList.update (ChainConfig_Hash keccak c) c (ConfigList m)\<rparr>))"

definition CurrentBlock :: "MemDatabase \<Rightarrow> Block option" where
  "CurrentBlock m = (if length (BlockChain m) = 0 then None else Some (BlockChain m ! (length (BlockChain m) - 1)))"

definition CurrentInfo :: "hash_fun \<Rightarrow> MemDatabase \<Rightarrow> (nat \<times> Hash) option" where
  "CurrentInfo keccak m =
     (if length (BlockChain m) = 0 then None
      else (let block = BlockChain m ! (length (BlockChain m) - 1)
            in Some (Number (header block), block_Hash keccak block)))"

definition CurrentOtprn :: "MemDatabase \<Rightarrow> Otprn option" where
  "CurrentOtprn m = (if length (OtprnList m) = 0 then None else Some (OtprnList m ! (length (OtprnList m) - 1)))"

definition SaveActiveNode :: "HeartBeat \<Rightarrow> MemDatabase \<Rightarrow> MemDatabase" where
  "SaveActiveNode node m = m\<lparr>NodeList := AList.update (Enode node) node (NodeList m)\<rparr>"

definition GetActiveNode :: "MemDatabase \<Rightarrow> HeartBeat list" where
  "GetActiveNode m = map snd (NodeList m)"

definition RemoveActiveNode :: "byte list \<Rightarrow> MemDatabase \<Rightarrow> MemDatabase" where
  "RemoveActiveNode enode m =
     (case map_of (NodeList m) enode of
        Some node \<Rightarrow> m\<lparr>NodeList := AList.delete (Enode node) (NodeList m)\<rparr>
      | None \<Rightarrow> m)"

definition SaveOtprn :: "Otprn \<Rightarrow> MemDatabase \<Rightarrow> MemDatabase" where
  "SaveOtprn otp m = m\<lparr>OtprnList := OtprnList m @ [otp]\<rparr>"

definition GetOtprn :: "hash_fun \<Rightarrow> Hash \<Rightarrow> MemDatabase \<Rightarrow> Otprn option" where
  "GetOtprn keccak h m = List.find (\<lambda>otp. HashOtprn keccak otp = h) (OtprnList m)"

text \<open>A node that is not active is entered into the league as the zero value.\<close>

definition SaveLeague :: "Hash \<Rightarrow> byte list \<Rightarrow> MemDatabase \<Rightarrow> MemDatabase" where
  "SaveLeague h enode m =
     (let node = (case map_of (NodeList m) enode of None \<Rightarrow> zero_heartbeat | Some n \<Rightarrow> n)
      in case map_of (LeagueList m) h of
           Some members \<Rightarrow>
             (case map_of members enode of
                None \<Rightarrow> m\<lparr>LeagueList := AList.update h (AList.update enode node members) (LeagueList m)\<rparr>
              | Some _ \<Rightarrow> m)
         | None \<Rightarrow> m\<lparr>LeagueList := AList.update h [(enode, node)] (LeagueList m)\<rparr>)"

definition GetLeagueList :: "Hash \<Rightarrow> MemDatabase \<Rightarrow> HeartBeat list" where
  "GetLeagueList h m = (case map_of (LeagueList m) h of Some members \<Rightarrow> map snd members | None \<Rightarrow> [])"

definition MakeVoteKey :: "Hash \<Rightarrow> nat \<Rightarrow> Hash" where
  "MakeVoteKey otp blockNum = BytesToHash (hash_bytes otp @ be_bytes blockNum)"

definition SaveVote :: "Hash \<Rightarrow> nat \<Rightarrow> Voter \<Rightarrow> MemDatabase \<Rightarrow> MemDatabase" where
  "SaveVote otp blockNum vote m =
     (let voteKey = MakeVoteKey otp blockNum
      in case map_of (VoteList m) voteKey of
           Some vs \<Rightarrow> m\<lparr>VoteList := AList.update voteKey (vs @ [vote]) (VoteList m)\<rparr>
         | None \<Rightarrow> m\<lparr>VoteList := AList.update voteKey [vote] (VoteList m)\<rparr>)"

definition GetVoters :: "Hash \<Rightarrow> MemDatabase \<Rightarrow> Voter list" where
  "GetVoters votekey m = (case map_of (VoteList m) votekey of Some vs \<Rightarrow> vs | None \<Rightarrow> [])"

definition SaveFinalBlock :: "hash_fun \<Rightarrow> Block \<Rightarrow> MemDatabase \<Rightarrow> db_error + MemDatabase" where
  "SaveFinalBlock keccak block m =
     (if list_ex (\<lambda>b. block_Hash keccak b = block_Hash keccak block) (BlockChain m) then Inl ErrAlreadyExistBlock
      else Inr (m\<lparr>BlockChain := BlockChain m @ [block]\<rparr>))"

text \<open>The removed block changes places with the last one, which is then cut off.\<close>

function remove_swap :: "(Block \<Rightarrow> bool) \<Rightarrow> Block list \<Rightarrow> nat \<Rightarrow> Block list" where
  "remove_swap p c i =
     (if i < length c then
        (if p (c ! i) then
           (let c' = c[length c - 1 := c ! i, i := c ! (length c - 1)] in take (length c - 1) c')
         else remove_swap p c (i + 1))
      else c)"
  by pat_completeness auto
termination by (relation "measure (\<lambda>(_, c, i). length c - i)") auto

declare remove_swap.simps [simp del]

definition RemoveBlock :: "hash_fun \<Rightarrow> Hash \<Rightarrow> MemDatabase \<Rightarrow> MemDatabase" where
  "RemoveBlock keccak blockHash m =
     m\<lparr>BlockChain := remove_swap (\<lambda>b. block_Hash keccak b = blockHash) (BlockChain m) 0\<rparr>"

definition GetBlock :: "hash_fun \<Rightarrow> Hash \<Rightarrow> MemDatabase \<Rightarrow> Block option" where
  "GetBlock keccak blockHash m = List.find (\<lambda>b. block_Hash keccak b = blockHash) (BlockChain m)"

subsection \<open>Storing final blocks\<close>

locale block_store =
  fixes inv :: "'db \<Rightarrow> bool"
    and hash :: "'b \<Rightarrow> Hash"
    and save :: "'b \<Rightarrow> 'db \<Rightarrow> 'e + 'db"
    and get :: "Hash \<Rightarrow> 'db \<Rightarrow> 'b option"
    and remove :: "Hash \<Rightarrow> 'db \<Rightarrow> 'db"
  assumes get_hash: "get h db = Some b \<Longrightarrow> hash b = h"
    and save_new: "inv db \<Longrightarrow> get (hash b) db = None \<Longrightarrow>
      \<exists>db'. save b db = Inr db' \<and> inv db' \<and> (\<forall>h. get h db' = (if h = hash b then Some b else get h db))"
    and save_old: "get (hash b) db \<noteq> None \<Longrightarrow> \<exists>e. save b db = Inl e"
    and remove_inv: "inv db \<Longrightarrow> inv (remove h db)"
    and get_remove: "inv db \<Longrightarrow> get h' (remove h db) = (if h' = h then None else get h' db)"
begin

lemma save_cases:
  assumes "inv db"
  shows "(\<exists>b'. get (hash b) db = Some b' \<and> (\<exists>e. save b db = Inl e)) \<or>
         (\<exists>db'. get (hash b) db = None \<and> save b db = Inr db' \<and> inv db' \<and> get (hash b) db' = Some b)"
  using save_new [OF assms, of b] save_old [of b db] by (cases "get (hash b) db") auto

lemma save_inv: "inv db \<Longrightarrow> save b db = Inr db' \<Longrightarrow> inv db'"
  using save_cases [of db b] by auto

lemma save_get: "inv db \<Longrightarrow> save b db = Inr db' \<Longrightarrow> get h db' = (if h = hash b then Some b else get h db)"
  using save_cases [of db b] save_new [of db b] by auto

lemma save_keeps: "inv db \<Longrightarrow> save b db = Inr db' \<Longrightarrow> get h db = Some x \<Longrightarrow> get h db' = Some x"
  using save_cases [of db b] save_get [of db b db' h] by auto

lemma remove_save:
  assumes "inv db" "get (hash b) db = None" "save b db = Inr db'"
  shows "get h (remove (hash b) db') = get h db"
  using assms get_remove [OF save_inv [OF assms(1,3)]] save_get [OF assms(1,3)] by simp

end

definition blocks_distinct :: "hash_fun \<Rightarrow> MemDatabase \<Rightarrow> bool" where
  "blocks_distinct keccak m \<longleftrightarrow> distinct (map (block_Hash keccak) (BlockChain m))"

lemma find_eq_Some: "List.find p xs = Some x \<Longrightarrow> p x \<and> x \<in> set xs"
  by (induction xs) (auto split: if_splits)

lemma find_eq_None: "List.find p xs = None \<longleftrightarrow> (\<forall>x \<in> set xs. \<not> p x)"
  by (induction xs) auto

lemma find_append: "List.find p (xs @ ys) = (case List.find p xs of None \<Rightarrow> List.find p ys | Some x \<Rightarrow> Some x)"
  by (induction xs) auto

lemma find_unique:
  assumes "inj_on f (set xs)" "x \<in> set xs" "f x = k"
  shows "List.find (\<lambda>x. f x = k) xs = Some x"
proof -
  from assms(2,3) obtain y where y: "List.find (\<lambda>x. f x = k) xs = Some y"
    using find_eq_None [of "\<lambda>x. f x = k" xs] by (cases "List.find (\<lambda>x. f x = k) xs") auto
  then have "f y = k" "y \<in> set xs" using find_eq_Some by fastforce+
  with assms have "y = x" by (auto dest: inj_onD)
  with y show ?thesis by simp
qed

lemma swap_last_cut:
  assumes "i < length c"
  shows "add_mset (c ! i) (mset (take (length c - 1) (c[length c - 1 := c ! i, i := c ! (length c - 1)]))) = mset c"
proof -
  let ?c = "c[length c - 1 := c ! i, i := c ! (length c - 1)]"
  have l: "length c - 1 < length c" using assms by simp
  have ne: "?c \<noteq> []" using assms by auto
  from append_butlast_last_id [OF ne, symmetric] have c: "?c = take (length c - 1) ?c @ [last ?c]"
    unfolding butlast_conv_take length_list_update .
  have "?c ! (length c - 1) = c ! i" using assms l by (cases "i = length c - 1") auto
  then have "last ?c = c ! i" using last_conv_nth [OF ne] by simp
  then have "mset ?c = add_mset (c ! i) (mset (take (length c - 1) ?c))"
    using arg_cong [OF c, of mset] by (simp only: mset_append mset.simps) simp
  moreover have "mset ?c = mset c" by (rule mset_swap [OF assms l])
  ultimately show ?thesis by simp
qed

lemma remove_swap_mset:
  "case List.find p (drop i c) of
     None \<Rightarrow> remove_swap p c i = c
   | Some x \<Rightarrow> add_mset x (mset (remove_swap p c i)) = mset c"
proof (induction p c i rule: remove_swap.induct)
  case (1 p c i)
  show ?case
  proof (cases "i < length c")
    case True
    then have d: "drop i c = c ! i # drop (Suc i) c" by (simp add: Cons_nth_drop_Suc)
    show ?thesis
    proof (cases "p (c ! i)")
      case False
      have "remove_swap p c i = remove_swap p c (i + 1)" using True False by (simp add: remove_swap.simps [of p c i])
      with 1 [OF True False] False show ?thesis by (simp only: d find.simps if_False add_Suc_right add_0_right Suc_eq_plus1)
    qed (use True swap_last_cut [OF True] in \<open>simp add: d remove_swap.simps [of p c i] Let_def\<close>)
  qed (simp add: remove_swap.simps [of p c i])
qed

lemma RemoveBlock_blocks:
  assumes "blocks_distinct keccak m"
  shows "set (BlockChain (RemoveBlock keccak h m)) = {b \<in> set (BlockChain m). block_Hash keccak b \<noteq> h} \<and>
    blocks_distinct keccak (RemoveBlock keccak h m)"
proof -
  let ?c = "BlockChain m" and ?p = "\<lambda>b. block_Hash keccak b = h"
  let ?r = "remove_swap ?p ?c 0"
  note r = remove_swap_mset [where p = ?p and c = ?c and i = 0]
  show ?thesis
  proof (cases "List.find ?p ?c")
    case None
    then show ?thesis using r assms find_eq_None [of ?p ?c] by (auto simp: RemoveBlock_def blocks_distinct_def)
  next
    case (Some x)
    then have m: "add_mset x (mset ?r) = mset ?c" using r by simp
    have x: "block_Hash keccak x = h" using find_eq_Some [OF Some] by simp
    have "mset (map (block_Hash keccak) (x # ?r)) = mset (map (block_Hash keccak) ?c)"
      using m by (simp only: mset_map mset.simps)
    then have "distinct (map (block_Hash keccak) (x # ?r))"
      using assms mset_eq_imp_distinct_iff unfolding blocks_distinct_def by blast
    moreover have "set ?c = insert x (set ?r)" using arg_cong [OF m, of set_mset] by simp
    moreover have "block_Hash keccak b \<noteq> h" if "b \<in> set ?r" for b
      using that x calculation(1) by (metis distinct.simps(2) image_eqI list.simps(9) set_map)
    ultimately show ?thesis using x by (auto simp: RemoveBlock_def blocks_distinct_def)
  qed
qed

lemma GetBlock_eq:
  assumes "blocks_distinct keccak m"
  shows "GetBlock keccak h m = Some b \<longleftrightarrow> b \<in> set (BlockChain m) \<and> block_Hash keccak b = h"
  using assms find_unique [of "block_Hash keccak" "BlockChain m" b h] find_eq_Some
  by (fastforce simp: GetBlock_def blocks_distinct_def distinct_map)

interpretation mem_blocks: block_store "blocks_distinct keccak" "block_Hash keccak" "SaveFinalBlock keccak"
    "GetBlock keccak" "RemoveBlock keccak" for keccak
proof
  fix h db b
  show "GetBlock keccak h db = Some b \<Longrightarrow> block_Hash keccak b = h"
    using find_eq_Some by (fastforce simp: GetBlock_def)
next
  fix db :: MemDatabase and b
  let ?f = "\<lambda>h. List.find (\<lambda>b. block_Hash keccak b = h)"
  assume d: "blocks_distinct keccak db" and n: "GetBlock keccak (block_Hash keccak b) db = None"
  then have new: "\<forall>c \<in> set (BlockChain db). block_Hash keccak c \<noteq> block_Hash keccak b"
    by (simp add: GetBlock_def find_eq_None)
  have "?f h (BlockChain db @ [b]) = (if h = block_Hash keccak b then Some b else ?f h (BlockChain db))" for h
    using n by (auto simp: find_append GetBlock_def split: option.splits)
  then show "\<exists>db'. SaveFinalBlock keccak b db = Inr db' \<and> blocks_distinct keccak db' \<and>
      (\<forall>h. GetBlock keccak h db' = (if h = block_Hash keccak b then Some b else GetBlock keccak h db))"
    using d new by (auto simp: SaveFinalBlock_def GetBlock_def list_ex_iff blocks_distinct_def)
next
  fix db :: MemDatabase and b
  assume "GetBlock keccak (block_Hash keccak b) db \<noteq> None"
  then show "\<exists>e. SaveFinalBlock keccak b db = Inl e"
    by (auto simp: SaveFinalBlock_def GetBlock_def list_ex_iff dest!: find_eq_Some)
next
  fix db :: MemDatabase and h
  assume "blocks_distinct keccak db"
  then show "blocks_distinct keccak (RemoveBlock keccak h db)" using RemoveBlock_blocks by blast
next
  fix db :: MemDatabase and h h'
  assume d: "blocks_distinct keccak db"
  have r: "set (BlockChain (RemoveBlock keccak h db)) = {b \<in> set (BlockChain db). block_Hash keccak b \<noteq> h}"
    and d': "blocks_distinct keccak (RemoveBlock keccak h db)"
    using RemoveBlock_blocks [OF d, of h] by auto
  have "GetBlock keccak h' (RemoveBlock keccak h db) = Some b \<longleftrightarrow> h' \<noteq> h \<and> GetBlock keccak h' db = Some b" for b
    unfolding GetBlock_eq [OF d'] GetBlock_eq [OF d] r by auto
  then show "GetBlock keccak h' (RemoveBlock keccak h db) = (if h' = h then None else GetBlock keccak h' db)"
    by (metis option.exhaust)
qed

lemma MakeVoteKey_eq: "MakeVoteKey otp n = word_of_nat (unat otp * 256 ^ length (be_bytes n) + n)"
  unfolding MakeVoteKey_def BytesToHash_eq be_val_append be_val_be_bytes be_val_hash_bytes ..

lemma MakeVoteKey_inject:
  assumes "MakeVoteKey otp n = MakeVoteKey otp m" "length (be_bytes n) = length (be_bytes m)" "length (be_bytes n) \<le> 32"
  shows "n = m"
proof -
  let ?k = "length (be_bytes n)"
  have le: "(256 :: nat) ^ ?k \<le> 256 ^ 32" using assms(3) by (intro power_increasing) auto
  have "(256 :: nat) ^ 32 = 2 ^ 256" by simp
  moreover have "m < 256 ^ ?k" using length_be_bytes_bound [of m] assms(2) by simp
  ultimately have b: "n < 2 ^ 256" "m < 2 ^ 256" using le length_be_bytes_bound [of n] by linarith+
  have "(word_of_nat (unat otp * 256 ^ ?k) :: Hash) + word_of_nat n = word_of_nat (unat otp * 256 ^ ?k) + word_of_nat m"
    using assms(1,2) unfolding MakeVoteKey_eq by simp
  then have "(word_of_nat n :: Hash) = word_of_nat m" by simp
  then have "unat (word_of_nat n :: Hash) = unat (word_of_nat m :: Hash)" by simp
  moreover have "unat (word_of_nat n :: Hash) = n" "unat (word_of_nat m :: Hash) = m"
    using b by (simp_all add: unat_of_nat)
  ultimately show ?thesis by simp
qed

lemma GetVoters_SaveVote:
  "GetVoters k (SaveVote otp n v m) = (if k = MakeVoteKey otp n then GetVoters k m @ [v] else GetVoters k m)"
  by (auto simp: GetVoters_def SaveVote_def Let_def update_conv' split: option.splits)



end
