(* ===== verification/Fairnode.thy ===== *)
theory Fairnode
  imports FairDB
begin

text \<open>
  The league manager of the fairnode (\<^verbatim>\<open>src/fairnode/fairnode.go\<close>): the leader's loop that drives a league
  through its statuses, the loop that makes OTPRNs, and the follower's loop.

  Each loop is a function from the state to the state after one round, \<open>Inl\<close> when the goroutine panics.
  One round is atomic: the sleeps inside a round only delay the status change at its end.  The loop
  variables of \<^verbatim>\<open>processManageLoop\<close> are fields of the state; \<open>signalled\<close> says that the loop is blocked on the
  unbuffered channel \<^verbatim>\<open>makePendingLeagueCh\<close> until the OTPRN loop receives from it.  The random bytes of a new
  OTPRN, the chain configuration the database returns, the order of the map of vote results (\<open>iter\<close>), the
  root hash of the votes (\<open>voters_hash\<close>) and the signature function are arguments.
\<close>

record league =
  lg_Otprn :: Otprn
  Status :: FnStatus
  Current :: nat
  BlockHash :: "Hash option"
  Votehash :: "Hash option"

record Fairnode =
  db :: MemDatabase
  leagues :: "(Hash \<times> league) list"
  currentLeague :: "Hash option"
  pendingLeague :: "Hash option"
  lastBlock :: "Block option"
  config :: "ChainConfig option"
  sendBlockAttampt :: nat
  leageuWaitAttampt :: nat
  signalled :: bool

datatype fn_error = FnPanic | ErrSignOtprn | ErrCurrentLeagueExist | ErrPendingLeagueExist | ErrNotEnoughNodes

type_synonym iter_fun = "(Hash \<times> voteRes) list \<Rightarrow> (Hash \<times> voteRes) list"

definition SEND_BLOCK_TIME_OUT :: nat where "SEND_BLOCK_TIME_OUT = 10 * 5"
definition LEAGUE_WAIE_TIME_OUT :: nat where "LEAGUE_WAIE_TIME_OUT = 5 * 5"

definition new_fairnode :: Fairnode where
  "new_fairnode = \<lparr>db = NewMemDatabase, leagues = [], currentLeague = None, pendingLeague = None, lastBlock = None,
     config = None, sendBlockAttampt = 0, leageuWaitAttampt = 0, signalled = False\<rparr>"

definition set_league :: "Hash \<Rightarrow> league \<Rightarrow> Fairnode \<Rightarrow> Fairnode" where
  "set_league h l fn = fn\<lparr>leagues := AList.update h l (leagues fn)\<rparr>"

definition addLeague :: "hash_fun \<Rightarrow> Otprn \<Rightarrow> Fairnode \<Rightarrow> Fairnode" where
  "addLeague keccak otp fn =
     set_league (HashOtprn keccak otp)
       \<lparr>lg_Otprn = otp, Status = PENDING,
        Current = (case lastBlock fn of Some b \<Rightarrow> Number (header b) | None \<Rightarrow> 0),
        BlockHash = None, Votehash = None\<rparr> fn"

subsection \<open>The loop of the leader\<close>

definition tick_pending :: "Hash \<Rightarrow> league \<Rightarrow> Fairnode \<Rightarrow> Fairnode" where
  "tick_pending cur l fn0 =
     (let nodes = GetLeagueList cur (db fn0);
          fn = fn0\<lparr>config := Some (otp_Data (lg_Otprn l))\<rparr>
      in if (word_of_nat (length nodes) :: u64) \<ge> MinMiner (otp_Data (lg_Otprn l)) then
           (set_league cur (l\<lparr>Status := MAKE_LEAGUE\<rparr>) fn)\<lparr>leageuWaitAttampt := 0\<rparr>
         else
           (let attempt = leageuWaitAttampt fn + 1
            in if attempt > LEAGUE_WAIE_TIME_OUT then
                 (set_league cur (l\<lparr>Status := REJECT\<rparr>) fn)\<lparr>leageuWaitAttampt := 0\<rparr>
               else fn\<lparr>leageuWaitAttampt := attempt\<rparr>))"

definition tick_make_join_tx :: "Hash \<Rightarrow> league \<Rightarrow> Fairnode \<Rightarrow> Fairnode" where
  "tick_make_join_tx cur l fn =
     set_league cur
       (l\<lparr>Current := (case lastBlock fn of Some b \<Rightarrow> Number (header b) | None \<Rightarrow> Current l), Status := MAKE_BLOCK\<rparr>) fn"

definition tick_vote_counting ::
  "hash_fun \<Rightarrow> iter_fun \<Rightarrow> (Voter list \<Rightarrow> Hash) \<Rightarrow> Hash \<Rightarrow> league \<Rightarrow> Fairnode \<Rightarrow> fn_error + Fairnode" where
  "tick_vote_counting keccak iter voters_hash cur l fn =
     (let voteKey = MakeVoteKey (HashOtprn keccak (lg_Otprn l)) (Current l + 1);
          vs = GetVoters voteKey (db fn)
      in case config fn of
           None \<Rightarrow> Inl FnPanic
         | Some cfg \<Rightarrow>
             if (word_of_nat (length vs) :: u64) < MinMiner cfg - 1 then Inr (set_league cur (l\<lparr>Status := REJECT\<rparr>) fn)
             else
               (case ValidationFinalBlockHash keccak iter vs of
                  None \<Rightarrow> Inl FnPanic
                | Some finalBlockHash \<Rightarrow>
                    Inr (set_league cur
                      (l\<lparr>BlockHash := Some finalBlockHash, Votehash := Some (voters_hash vs), Status := VOTE_COMPLETE\<rparr>) fn)))"

definition tick_send_block :: "hash_fun \<Rightarrow> Hash \<Rightarrow> league \<Rightarrow> Fairnode \<Rightarrow> fn_error + Fairnode" where
  "tick_send_block keccak cur l fn =
     (case BlockHash l of
        None \<Rightarrow> Inl FnPanic
      | Some h \<Rightarrow>
          (case GetBlock keccak h (db fn) of
             Some block \<Rightarrow> Inr ((set_league cur (l\<lparr>Status := REQ_FAIRNODE_SIGN\<rparr>) fn)\<lparr>sendBlockAttampt := 0\<rparr>)
           | None \<Rightarrow>
               (let attempt = sendBlockAttampt fn + 1
                in if attempt > SEND_BLOCK_TIME_OUT then
                     Inr ((set_league cur (l\<lparr>Status := REJECT\<rparr>) fn)\<lparr>sendBlockAttampt := 0\<rparr>)
                   else Inr (fn\<lparr>sendBlockAttampt := attempt\<rparr>))))"

definition tick_finalize :: "hash_fun \<Rightarrow> Hash \<Rightarrow> league \<Rightarrow> Fairnode \<Rightarrow> fn_error + Fairnode" where
  "tick_finalize keccak cur l fn =
     (case CurrentBlock (db fn) of
        Some block \<Rightarrow>
          Inr ((set_league cur (l\<lparr>Current := Number (header block), Votehash := None, BlockHash := None\<rparr>) fn)
                 \<lparr>lastBlock := Some block, signalled := True\<rparr>)
      | None \<Rightarrow>
          (case BlockHash l of
             None \<Rightarrow> Inl FnPanic
           | Some h \<Rightarrow>
               Inr ((set_league cur (l\<lparr>Status := REJECT\<rparr>) fn)\<lparr>db := RemoveBlock keccak h (db fn)\<rparr>)))"

definition refresh_last_block :: "Fairnode \<Rightarrow> Fairnode" where
  "refresh_last_block fn = (case CurrentBlock (db fn) of Some block \<Rightarrow> fn\<lparr>lastBlock := Some block\<rparr> | None \<Rightarrow> fn)"

text \<open>When the pending league is gone, \<^verbatim>\<open>currentLeague\<close> keeps pointing to the deleted league.\<close>

definition tick_reject :: "hash_fun \<Rightarrow> Hash \<Rightarrow> Fairnode \<Rightarrow> fn_error + Fairnode" where
  "tick_reject keccak cur fn0 =
     (let fn = fn0\<lparr>leagues := AList.delete cur (leagues fn0)\<rparr>
      in case pendingLeague fn of
           Some p \<Rightarrow>
             (case map_of (leagues fn) p of
                Some pl \<Rightarrow>
                  (case CurrentInfo keccak (db fn) of
                     None \<Rightarrow> Inl FnPanic
                   | Some (number, _) \<Rightarrow>
                       Inr (refresh_last_block
                         ((set_league p (pl\<lparr>Current := number\<rparr>) fn)\<lparr>currentLeague := Some p, pendingLeague := None\<rparr>)))
              | None \<Rightarrow> Inr (refresh_last_block fn))
         | None \<Rightarrow> Inr (refresh_last_block (fn\<lparr>currentLeague := None\<rparr>)))"

definition processManageLoop ::
  "hash_fun \<Rightarrow> iter_fun \<Rightarrow> (Voter list \<Rightarrow> Hash) \<Rightarrow> Fairnode \<Rightarrow> fn_error + Fairnode" where
  "processManageLoop keccak iter voters_hash fn =
     (case currentLeague fn of
        None \<Rightarrow> Inr fn
      | Some cur \<Rightarrow>
          (case map_of (leagues fn) cur of
             None \<Rightarrow> Inr fn
           | Some l \<Rightarrow>
               (case Status l of
                  PENDING \<Rightarrow> Inr (tick_pending cur l fn)
                | MAKE_LEAGUE \<Rightarrow> Inr (set_league cur (l\<lparr>Status := MAKE_JOIN_TX\<rparr>) fn)
                | MAKE_JOIN_TX \<Rightarrow> Inr (tick_make_join_tx cur l fn)
                | MAKE_BLOCK \<Rightarrow> Inr (set_league cur (l\<lparr>Status := LEAGUE_BROADCASTING\<rparr>) fn)
                | LEAGUE_BROADCASTING \<Rightarrow> Inr (set_league cur (l\<lparr>Status := VOTE_START\<rparr>) fn)
                | VOTE_START \<Rightarrow> Inr (set_league cur (l\<lparr>Status := VOTE_COUNTING\<rparr>) fn)
                | VOTE_COUNTING \<Rightarrow> tick_vote_counting keccak iter voters_hash cur l fn
                | VOTE_COMPLETE \<Rightarrow> Inr (set_league cur (l\<lparr>Status := SEND_BLOCK\<rparr>) fn)
                | SEND_BLOCK \<Rightarrow> tick_send_block keccak cur l fn
                | REQ_FAIRNODE_SIGN \<Rightarrow> Inr (set_league cur (l\<lparr>Status := FINALIZE\<rparr>) fn)
                | FINALIZE \<Rightarrow> tick_finalize keccak cur l fn
                | REJECT \<Rightarrow> tick_reject keccak cur fn
                | _ \<Rightarrow> Inr fn)))"

subsection \<open>Making OTPRNs\<close>

definition newOtprn ::
  "hash_fun \<Rightarrow> (Hash \<Rightarrow> byte list option) \<Rightarrow> Address \<Rightarrow> Address \<Rightarrow> ChainConfig option \<Rightarrow> bool \<Rightarrow> Fairnode \<Rightarrow> fn_error + Fairnode" where
  "newOtprn keccak sign fnAddr rand cfg isCur fn =
     (case cfg of
        None \<Rightarrow> Inl FnPanic
      | Some c \<Rightarrow>
          (let nodes = GetActiveNode (db fn); n = (word_of_nat (length nodes) :: u64)
           in if n \<ge> MinMiner c then
                (case SignOtprn keccak sign (NewOtprn rand n fnAddr c) of
                   None \<Rightarrow> Inl ErrSignOtprn
                 | Some otp \<Rightarrow>
                     (let otpHash = HashOtprn keccak otp
                      in if isCur then
                           (if currentLeague fn = None then
                              (let fn1 = addLeague keccak otp (fn\<lparr>currentLeague := Some otpHash\<rparr>)
                               in Inr (fn1\<lparr>db := SaveOtprn otp (db fn1)\<rparr>))
                            else Inl ErrCurrentLeagueExist)
                         else
                           (if pendingLeague fn = None then
                              (let fn1 = addLeague keccak otp (fn\<lparr>pendingLeague := Some otpHash\<rparr>)
                               in Inr (fn1\<lparr>db := SaveOtprn otp (db fn1)\<rparr>))
                            else Inl ErrPendingLeagueExist)))
              else Inl ErrNotEnoughNodes))"

text \<open>Errors of \<^verbatim>\<open>newOtprn\<close> are logged; a panic ends the process.\<close>

definition logged :: "(Fairnode \<Rightarrow> fn_error + Fairnode) \<Rightarrow> Fairnode \<Rightarrow> fn_error + Fairnode" where
  "logged f fn = (case f fn of Inl FnPanic \<Rightarrow> Inl FnPanic | Inl _ \<Rightarrow> Inr fn | Inr fn' \<Rightarrow> Inr fn')"

definition makeOtprn_timer ::
  "hash_fun \<Rightarrow> (Hash \<Rightarrow> byte list option) \<Rightarrow> Address \<Rightarrow> Address \<Rightarrow> ChainConfig option \<Rightarrow> Fairnode \<Rightarrow> fn_error + Fairnode" where
  "makeOtprn_timer keccak sign fnAddr rand cfg fn =
     (if currentLeague fn \<noteq> None then Inr fn else logged (newOtprn keccak sign fnAddr rand cfg True) fn)"

text \<open>\<^verbatim>\<open>int64(epoch.Int64()/2)\<close>: signed, rounding towards zero.\<close>

definition half_epoch :: "u64 \<Rightarrow> int" where
  "half_epoch e = (let x = sint e in if x \<ge> 0 then x div 2 else - ((- x) div 2))"

definition makeOtprn_pending ::
  "hash_fun \<Rightarrow> (Hash \<Rightarrow> byte list option) \<Rightarrow> Address \<Rightarrow> Address \<Rightarrow> ChainConfig option \<Rightarrow> Fairnode \<Rightarrow> fn_error + Fairnode" where
  "makeOtprn_pending keccak sign fnAddr rand cfg fn0 =
     (let fn = fn0\<lparr>signalled := False\<rparr>
      in case currentLeague fn of
           None \<Rightarrow> Inr fn
         | Some cur \<Rightarrow>
             (case map_of (leagues fn) cur of
                None \<Rightarrow> Inr fn
              | Some l \<Rightarrow>
                  (let epoch = Epoch (otp_Data (lg_Otprn l)); half = half_epoch epoch
                   in if epoch = 0 then Inr (set_league cur (l\<lparr>Status := MAKE_JOIN_TX\<rparr>) fn)
                      else if (word_of_nat (Current l) :: u64) = 0 then Inr (set_league cur (l\<lparr>Status := MAKE_JOIN_TX\<rparr>) fn)
                      else if half = 0 then Inl FnPanic
                      else if int (Current l) mod \<bar>half\<bar> = 0 then
                        (if Current l mod unat epoch = 0 then Inr (set_league cur (l\<lparr>Status := REJECT\<rparr>) fn)
                         else logged (newOtprn keccak sign fnAddr rand cfg False) (set_league cur (l\<lparr>Status := MAKE_JOIN_TX\<rparr>) fn))
                      else Inr (set_league cur (l\<lparr>Status := MAKE_JOIN_TX\<rparr>) fn))))"

subsection \<open>Housekeeping\<close>

definition CLEAN_OLD_NODE_TERM :: int where "CLEAN_OLD_NODE_TERM = 3"

definition cleanOldNode :: "int \<Rightarrow> Fairnode \<Rightarrow> Fairnode" where
  "cleanOldNode now fn =
     fn\<lparr>db := fold (\<lambda>node m. if now - hbt_Time node > CLEAN_OLD_NODE_TERM * 60 then RemoveActiveNode (Enode node) m else m)
                (GetActiveNode (db fn)) (db fn)\<rparr>"

text \<open>The leagues as the leader publishes them to its followers.\<close>

definition Leagues :: "hash_fun \<Rightarrow> Fairnode \<Rightarrow> (Hash \<times> Hash \<times> FnStatus) list" where
  "Leagues keccak fn = map (\<lambda>(key, l). (key, HashOtprn keccak (lg_Otprn l), Status l)) (leagues fn)"

subsection \<open>The loop of a follower\<close>

text \<open>One league of a message from the leader; \<open>dHash\<close> is the last rejected league.\<close>

definition follower_league ::
  "hash_fun \<Rightarrow> iter_fun \<Rightarrow> (Voter list \<Rightarrow> Hash) \<Rightarrow> Hash \<times> FnStatus \<Rightarrow> Hash \<times> Fairnode \<Rightarrow> fn_error + Hash \<times> Fairnode" where
  "follower_league keccak iter voters_hash msg st =
     (case (msg, st) of ((h, status), (dHash, fn)) \<Rightarrow>
        (case map_of (leagues fn) h of
           None \<Rightarrow>
             (case GetOtprn keccak h (db fn) of
                None \<Rightarrow> Inr (dHash, fn)
              | Some otp \<Rightarrow>
                  if dHash = h then Inr (dHash, fn)
                  else Inr (dHash, (addLeague keccak otp fn)\<lparr>config := Some (otp_Data otp)\<rparr>))
         | Some l0 \<Rightarrow>
             (let l = l0\<lparr>Status := status\<rparr>
              in case status of
                   MAKE_JOIN_TX \<Rightarrow>
                     Inr (dHash, set_league h
                       (case lastBlock fn of Some b \<Rightarrow> l\<lparr>Current := Number (header b)\<rparr> | None \<Rightarrow> l) fn)
                 | VOTE_COUNTING \<Rightarrow>
                     (let vs = GetVoters (MakeVoteKey h (Current l + 1)) (db fn)
                      in case config fn of
                           None \<Rightarrow> Inl FnPanic
                         | Some cfg \<Rightarrow>
                             if (word_of_nat (length vs) :: u64) < MinMiner cfg - 1 then Inr (dHash, set_league h l fn)
                             else
                               (case ValidationFinalBlockHash keccak iter vs of
                                  None \<Rightarrow> Inl FnPanic
                                | Some bh \<Rightarrow>
                                    Inr (dHash, set_league h (l\<lparr>BlockHash := Some bh, Votehash := Some (voters_hash vs)\<rparr>) fn)))
                 | FINALIZE \<Rightarrow>
                     (case CurrentBlock (db fn) of
                        Some block \<Rightarrow>
                          Inr (dHash, (set_league h (l\<lparr>Current := Number (header block), Votehash := None, BlockHash := None\<rparr>) fn)
                            \<lparr>lastBlock := Some block\<rparr>)
                      | None \<Rightarrow> Inr (dHash, set_league h l fn))
                 | REJECT \<Rightarrow> Inr (h, fn\<lparr>leagues := AList.delete h (leagues fn)\<rparr>)
                 | _ \<Rightarrow> Inr (dHash, set_league h l fn))))"

fun processManageLoopFollower ::
  "hash_fun \<Rightarrow> iter_fun \<Rightarrow> (Voter list \<Rightarrow> Hash) \<Rightarrow> (Hash \<times> FnStatus) list \<Rightarrow> Hash \<times> Fairnode \<Rightarrow> fn_error + Hash \<times> Fairnode" where
  "processManageLoopFollower keccak iter voters_hash [] st = Inr st"
| "processManageLoopFollower keccak iter voters_hash (m # ms) st =
     result_bind (follower_league keccak iter voters_hash m st) (processManageLoopFollower keccak iter voters_hash ms)"

text \<open>Losing the leader rejects and deletes every league.\<close>

definition follower_sync_error :: "hash_fun \<Rightarrow> Fairnode \<Rightarrow> Fairnode" where
  "follower_sync_error keccak fn =
     fn\<lparr>leagues := fold (\<lambda>(_, l). AList.delete (HashOtprn keccak (lg_Otprn l))) (leagues fn)
                     (map (\<lambda>(h, l). (h, l\<lparr>Status := REJECT\<rparr>)) (leagues fn))\<rparr>"

end
