(* ===== verification/FairRpc.thy ===== *)
theory FairRpc
  imports Fairnode
begin

text \<open>
  The requests a fairnode answers (\<^verbatim>\<open>src/fairnode/rpc_server.go\<close>, \<^verbatim>\<open>src/fairnode/util.go\<close>).

  A handler takes the request and the state and returns the reply with the new state, or the error; an error
  leaves the state as it was.  \<open>recover\<close> is public key recovery, \<open>sign\<close> signing with the fairnode's key,
  \<open>cfg\<close> what \<^verbatim>\<open>GetChainConfig\<close> returns, \<open>int63\<close> the generator behind \<^verbatim>\<open>IsJoinOK\<close>, \<open>ip\<close> the address of the peer and
  \<open>now\<close> the clock.  The two streaming handlers are a function that checks the request and one that turns
  the league, as it stands in each round of the loop, into the messages sent.
\<close>

datatype rpc_error =
    ErrEmpty string | ErrParseIP | ErrInvalidPort | ErrSign sig_error | ErrNodeVersion | ErrNoConfig | ErrHeadMismatch
  | ErrNotActive | ErrOtprnSign sig_error | ErrNoLeague | ErrEmptyEnodes | ErrSignHash | ErrDecode rlp_error
  | ErrBlockNum | ErrDifficulty | ErrNoVoters | ErrNilHash | ErrVoteHash | ErrBlockHash | ErrStatus FnStatus
  | ErrSave db_error | RpcPanic

text \<open>\<^verbatim>\<open>strings.Compare\<close> on versions: lexicographic order of the bytes.\<close>

fun bytes_less :: "byte list \<Rightarrow> byte list \<Rightarrow> bool" where
  "bytes_less xs [] = False"
| "bytes_less [] (y # ys) = True"
| "bytes_less (x # xs) (y # ys) = (x < y \<or> x = y \<and> bytes_less xs ys)"

definition int_bytes :: "int \<Rightarrow> byte list" where
  "int_bytes i = (if i < 0 then 0x2D # itoa (nat (- i)) else itoa (nat i))"

definition EnodeUrl :: "HeartBeat \<Rightarrow> byte list" where
  "EnodeUrl hb = [0x65, 0x6E, 0x6F, 0x64, 0x65, 0x3A, 0x2F, 0x2F] @ Enode hb @ [0x40] @ Host hb @ [0x3A] @ int_bytes (Port hb)"

text \<open>The nodes after \<open>self\<close> on the ring of league members; \<open>[]\<close> is nil.\<close>

definition self_index :: "byte list \<Rightarrow> HeartBeat list \<Rightarrow> nat option" where
  "self_index self nodes = fold (\<lambda>i r. if Enode (nodes ! i) = self then Some i else r) [0..<length nodes] None"

definition SelectedNode :: "byte list \<Rightarrow> HeartBeat list \<Rightarrow> nat \<Rightarrow> byte list list" where
  "SelectedNode self nodes max0 =
     (case self_index self nodes of
        None \<Rightarrow> []
      | Some sIndex \<Rightarrow>
          (let n = length nodes; m = (if n < max0 then n - 1 else max0)
           in map EnodeUrl (filter (\<lambda>v. Enode v \<noteq> self) (map (\<lambda>i. nodes ! ((sIndex + 1 + i) mod n)) [0..<m]))))"

definition check_sign :: "recover_fun \<Rightarrow> byte list \<Rightarrow> Hash \<Rightarrow> Address \<Rightarrow> rpc_error + unit" where
  "check_sign recover sg h addr = (case ValidationSignHash recover sg h addr of Inl e \<Rightarrow> Inl (ErrSign e) | Inr _ \<Rightarrow> Inr ())"

definition find_league :: "Hash \<Rightarrow> Fairnode \<Rightarrow> rpc_error + league" where
  "find_league h fn = (case map_of (leagues fn) h of None \<Rightarrow> Inl ErrNoLeague | Some l \<Rightarrow> Inr l)"

subsection \<open>Joining\<close>

definition check_head :: "hash_fun \<Rightarrow> Hash \<Rightarrow> Fairnode \<Rightarrow> rpc_error + unit" where
  "check_head keccak head fn =
     (case CurrentInfo keccak (db fn) of
        None \<Rightarrow> Inr ()
      | Some (number, h) \<Rightarrow>
          if h \<noteq> head then
            (case GetBlock keccak head (db fn) of
               Some block \<Rightarrow>
                 if (word_of_nat number :: u64) - word_of_nat (Number (header block)) \<noteq> 1 then Inl ErrHeadMismatch else Inr ()
             | None \<Rightarrow> Inl ErrHeadMismatch)
          else Inr ())"

definition HeartBeat_rpc ::
  "hash_fun \<Rightarrow> recover_fun \<Rightarrow> ChainConfig option \<Rightarrow> byte list option \<Rightarrow> int \<Rightarrow> HeartBeatMsg \<Rightarrow> Fairnode \<Rightarrow> rpc_error + Fairnode" where
  "HeartBeat_rpc keccak recover cfg ip now m fn =
     (case ip of
        None \<Rightarrow> Inl ErrParseIP
      | Some remote \<Rightarrow>
          if hb_Enode m = [] then Inl (ErrEmpty ''enode'')
          else if hb_ChainID m = [] then Inl (ErrEmpty ''chainID'')
          else if hb_MinerAddress m = [] then Inl (ErrEmpty ''miner address'')
          else if hb_Port m < 1025 then Inl ErrInvalidPort
          else if hb_NodeVersion m = [] then Inl (ErrEmpty ''node version'')
          else if hb_Head m = [] then Inl (ErrEmpty ''head'')
          else if hb_Sign m = [] then Inl (ErrEmpty ''sign'')
          else
            result_bind (check_sign recover (hb_Sign m) (heartbeat_hash keccak m) (HexToAddress (hb_MinerAddress m))) (\<lambda>_.
            (case cfg of
               None \<Rightarrow> Inl ErrNoConfig
             | Some c \<Rightarrow>
                 if bytes_less (hb_NodeVersion m) (NodeVersion c) then Inl ErrNodeVersion
                 else
                   result_bind (check_head keccak (HexToHash (hb_Head m)) fn) (\<lambda>_.
                   Inr (fn\<lparr>db := SaveActiveNode
                     \<lparr>Enode = hb_Enode m, MinerAddress = hb_MinerAddress m, ChainID = hb_ChainID m,
                      hbt_NodeVersion = hb_NodeVersion m, Host = (if hb_Ip m = [] then remote else hb_Ip m),
                      Port = hb_Port m, hbt_Time = now, Head = HexToHash (hb_Head m), hbt_Sign = hb_Sign m\<rparr> (db fn)\<rparr>)))))"

text \<open>The reply is the result status and the encoded OTPRN (empty when the miner is not drawn).\<close>

definition RequestOtprn ::
  "hash_fun \<Rightarrow> recover_fun \<Rightarrow> (int \<Rightarrow> nat) \<Rightarrow> ReqOtprn \<Rightarrow> Fairnode \<Rightarrow> rpc_error + (bool \<times> byte list) \<times> Fairnode" where
  "RequestOtprn keccak recover int63 m fn =
     (if ro_Enode m = [] then Inl (ErrEmpty ''enode'')
      else if ro_MinerAddress m = [] then Inl (ErrEmpty ''miner address'')
      else if ro_Sign m = [] then Inl (ErrEmpty ''sign'')
      else
        (let addr = HexToAddress (ro_MinerAddress m);
             h = rlpHash_args keccak [GoString (ro_Enode m), GoString (ro_MinerAddress m)]
         in result_bind (check_sign recover (ro_Sign m) h addr) (\<lambda>_.
            if \<not> list_ex (\<lambda>node. Enode node = ro_Enode m) (GetActiveNode (db fn)) then Inl ErrNotActive
            else
              (case CurrentOtprn (db fn) of
                 None \<Rightarrow> Inr ((False, []), fn)
               | Some otp \<Rightarrow>
                   (case ValidateSignature keccak recover otp of
                      Inl e \<Rightarrow> Inl (ErrOtprnSign e)
                    | Inr _ \<Rightarrow>
                        (case map_of (leagues fn) (HashOtprn keccak otp) of
                           None \<Rightarrow> Inr ((False, []), fn)
                         | Some clg \<Rightarrow>
                             if Status clg \<noteq> PENDING then Inr ((False, []), fn)
                             else
                               (case IsJoinOK int63 otp addr of
                                  None \<Rightarrow> Inl RpcPanic
                                | Some True \<Rightarrow>
                                    Inr ((True, EncodeOtprn otp),
                                         fn\<lparr>db := SaveLeague (HashOtprn keccak otp) (ro_Enode m) (db fn)\<rparr>)
                                | Some False \<Rightarrow> Inr ((True, []), fn)))))))) "

text \<open>\<open>iter\<close> is the order in which the members of the league are read from their map.\<close>

definition RequestLeague ::
  "hash_fun \<Rightarrow> recover_fun \<Rightarrow> (Hash \<Rightarrow> byte list option) \<Rightarrow> (HeartBeat list \<Rightarrow> HeartBeat list) \<Rightarrow> Participate \<Rightarrow> Fairnode \<Rightarrow>
   rpc_error + byte list list \<times> byte list" where
  "RequestLeague keccak recover sign iter m fn =
     (if pa_Enode m = [] then Inl (ErrEmpty ''enode'')
      else if pa_MinerAddress m = [] then Inl (ErrEmpty ''miner address'')
      else if pa_OtprnHash m = [] then Inl (ErrEmpty ''otprn hash'')
      else if pa_Sign m = [] then Inl (ErrEmpty ''sign'')
      else
        result_bind (check_sign recover (pa_Sign m) (participate_hash keccak m) (HexToAddress (pa_MinerAddress m))) (\<lambda>_.
        (let nodes = iter (GetLeagueList (BytesToHash (pa_OtprnHash m)) (db fn));
             enodes = SelectedNode (pa_Enode m) nodes 5
         in if enodes = [] then Inl ErrEmptyEnodes
            else
              (case sign (rlpHash_args keccak [GoInt 0, GoSlice (map GoString enodes)]) of
                 None \<Rightarrow> Inl ErrSignHash
               | Some sg \<Rightarrow> Inr (enodes, sg)))))"

subsection \<open>Status\<close>

definition ProcessController_open :: "hash_fun \<Rightarrow> recover_fun \<Rightarrow> Participate \<Rightarrow> Fairnode \<Rightarrow> rpc_error + league" where
  "ProcessController_open keccak recover m fn =
     (if pa_Enode m = [] then Inl (ErrEmpty ''enode'')
      else if pa_MinerAddress m = [] then Inl (ErrEmpty ''miner address'')
      else if pa_OtprnHash m = [] then Inl (ErrEmpty ''otprn hash'')
      else if pa_Sign m = [] then Inl (ErrEmpty ''sign'')
      else
        result_bind (check_sign recover (pa_Sign m) (participate_hash keccak m) (HexToAddress (pa_MinerAddress m))) (\<lambda>_.
        find_league (BytesToHash (pa_OtprnHash m)) fn))"

definition process_message :: "hash_fun \<Rightarrow> (Hash \<Rightarrow> byte list option) \<Rightarrow> league \<Rightarrow> ProcessMessage option" where
  "process_message keccak sign l =
     (let m = \<lparr>pm_Code = StatusToProto (Status l), pm_CurrentBlockNum = be_bytes (Current l), pm_Sign = []\<rparr>
      in map_option (\<lambda>sg. m\<lparr>pm_Sign := sg\<rparr>) (sign (process_hash keccak m)))"

text \<open>The stream ends when signing fails and after a REJECT.\<close>

fun ProcessController :: "hash_fun \<Rightarrow> (Hash \<Rightarrow> byte list option) \<Rightarrow> league list \<Rightarrow> ProcessMessage list" where
  "ProcessController keccak sign [] = []"
| "ProcessController keccak sign (l # ls) =
     (case process_message keccak sign l of
        None \<Rightarrow> []
      | Some m \<Rightarrow> m # (if pm_Code m = PS_REJECT then [] else ProcessController keccak sign ls))"

subsection \<open>Voting\<close>

definition Vote_rpc :: "hash_fun \<Rightarrow> recover_fun \<Rightarrow> VoteMsg \<Rightarrow> Fairnode \<Rightarrow> rpc_error + Fairnode" where
  "Vote_rpc keccak recover v fn =
     (if vm_VoterAddress v = [] then Inl (ErrEmpty ''vote address'')
      else if vm_Header v = [] then Inl (ErrEmpty ''header'')
      else if vm_VoterSign v = [] then Inl (ErrEmpty ''vote sign'')
      else
        (let addr = HexToAddress (vm_VoterAddress v)
         in result_bind (check_sign recover (vm_VoterSign v) (vote_hash keccak (vm_Header v) (vm_VoterAddress v)) addr) (\<lambda>_.
            (case DecodeBytes_to decodeHeader (vm_Header v) of
               Inl e \<Rightarrow> Inl (ErrDecode e)
             | Inr head \<Rightarrow>
                 (case DecodeOtprn (hd_Otprn head) of
                    Inl e \<Rightarrow> Inl (ErrDecode e)
                  | Inr otp \<Rightarrow>
                      (case ValidateSignature keccak recover otp of
                         Inl e \<Rightarrow> Inl (ErrOtprnSign e)
                       | Inr _ \<Rightarrow>
                           result_bind (find_league (HashOtprn keccak otp) fn) (\<lambda>l.
                           if (word_of_nat (Current l) :: u64) + 1 \<noteq> word_of_nat (Number head) then Inl ErrBlockNum
                           else if \<not> ValidationDifficulty keccak head then Inl ErrDifficulty
                           else
                             Inr (fn\<lparr>db := SaveVote (HashOtprn keccak otp) (Number head)
                               \<lparr>vt_Header = vm_Header v, vt_Voter = addr, VoteSign = vm_VoterSign v\<rparr> (db fn)\<rparr>)))))))) "

fun check_votes :: "hash_fun \<Rightarrow> recover_fun \<Rightarrow> Voter list \<Rightarrow> rpc_error + VoteMsg list" where
  "check_votes keccak recover [] = Inr []"
| "check_votes keccak recover (v # vs) =
     result_bind (check_sign recover (VoteSign v) (vote_hash keccak (vt_Header v) (Address_String keccak (vt_Voter v))) (vt_Voter v)) (\<lambda>_.
     result_bind (check_votes keccak recover vs) (\<lambda>ms.
     Inr (\<lparr>vm_Header = vt_Header v, vm_VoterAddress = Address_String keccak (vt_Voter v), vm_VoterSign = VoteSign v\<rparr> # ms)))"

definition RequestVoteResult ::
  "hash_fun \<Rightarrow> recover_fun \<Rightarrow> (Hash \<Rightarrow> byte list option) \<Rightarrow> iter_fun \<Rightarrow> ReqVoteResult \<Rightarrow> Fairnode \<Rightarrow> rpc_error + ResVoteResult" where
  "RequestVoteResult keccak recover sign iter m fn =
     (if rv_Address m = [] then Inl (ErrEmpty ''address'')
      else if rv_OtprnHash m = [] then Inl (ErrEmpty ''otprn hash'')
      else if rv_Sign m = [] then Inl (ErrEmpty ''sign'')
      else
        result_bind (check_sign recover (rv_Sign m)
          (rlpHash_args keccak [GoBytes (rv_OtprnHash m), GoString (rv_Address m)]) (HexToAddress (rv_Address m))) (\<lambda>_.
        (let otprnHash = BytesToHash (rv_OtprnHash m)
         in result_bind (find_league otprnHash fn) (\<lambda>clg.
            (let vs = GetVoters (MakeVoteKey otprnHash (Current clg + 1)) (db fn)
             in if length vs = 0 then Inl ErrNoVoters
                else
                  result_bind (check_votes keccak recover vs) (\<lambda>pVoters.
                  (case ValidationFinalBlockHash keccak iter vs of
                     None \<Rightarrow> Inl RpcPanic
                   | Some final \<Rightarrow>
                       (let msg = \<lparr>vr_Success = True, vr_BlockHash = Hash_String final, vr_Voters = pVoters, vr_Sign = []\<rparr>
                        in case sign (vote_result_hash keccak msg) of
                             None \<Rightarrow> Inl ErrSignHash
                           | Some sg \<Rightarrow> Inr (msg\<lparr>vr_Sign := sg\<rparr>)))))))))"

subsection \<open>Sealing\<close>

text \<open>The checks that \<^verbatim>\<open>SealConfirm\<close> and \<^verbatim>\<open>RequestFairnodeSign\<close> share.\<close>

definition seal_checks :: "hash_fun \<Rightarrow> recover_fun \<Rightarrow> ReqConfirmSeal \<Rightarrow> Fairnode \<Rightarrow> rpc_error + league" where
  "seal_checks keccak recover m fn =
     (if rc_Address m = [] then Inl (ErrEmpty ''address'')
      else if rc_OtprnHash m = [] then Inl (ErrEmpty ''otprn hash'')
      else if rc_BlockHash m = [] then Inl (ErrEmpty ''block hash'')
      else if rc_VoteHash m = [] then Inl (ErrEmpty ''vote hash'')
      else if rc_Sign m = [] then Inl (ErrEmpty ''sign'')
      else
        result_bind (check_sign recover (rc_Sign m) (seal_hash keccak m) (HexToAddress (rc_Address m))) (\<lambda>_.
        result_bind (find_league (BytesToHash (rc_OtprnHash m)) fn) (\<lambda>clg.
        (case (Votehash clg, BlockHash clg) of
           (Some vh, Some bh) \<Rightarrow>
             if vh \<noteq> BytesToHash (rc_VoteHash m) then Inl ErrVoteHash
             else if bh \<noteq> BytesToHash (rc_BlockHash m) then Inl ErrBlockHash
             else Inr clg
         | _ \<Rightarrow> Inl ErrNilHash))))"

definition SealConfirm_open :: "hash_fun \<Rightarrow> recover_fun \<Rightarrow> ReqConfirmSeal \<Rightarrow> Fairnode \<Rightarrow> rpc_error + league" where
  "SealConfirm_open = seal_checks"

text \<open>Outside the three statuses the code of the message stays zero, which is WAIT.\<close>

definition confirm_code :: "league \<Rightarrow> ProcessStatus" where
  "confirm_code l =
     (case Status l of
        SEND_BLOCK \<Rightarrow> PS_SEND_BLOCK
      | SEND_BLOCK_WAIT \<Rightarrow> PS_SEND_BLOCK_WAIT
      | REQ_FAIRNODE_SIGN \<Rightarrow> PS_REQ_FAIRNODE_SIGN
      | _ \<Rightarrow> PS_WAIT)"

fun SealConfirm :: "hash_fun \<Rightarrow> (Hash \<Rightarrow> byte list option) \<Rightarrow> league list \<Rightarrow> (ProcessStatus \<times> byte list) list" where
  "SealConfirm keccak sign [] = []"
| "SealConfirm keccak sign (l # ls) =
     (if Status l = FINALIZE \<or> Status l = REJECT then []
      else
        (case sign (confirm_hash keccak (confirm_code l)) of
           None \<Rightarrow> []
         | Some sg \<Rightarrow> (confirm_code l, sg) # SealConfirm keccak sign ls))"

definition SendBlock ::
  "hash_fun \<Rightarrow> recover_fun \<Rightarrow> (Hash \<Rightarrow> byte list option) \<Rightarrow> ReqBlock \<Rightarrow> Fairnode \<Rightarrow> rpc_error + Fairnode" where
  "SendBlock keccak recover sign m fn =
     (if rb_Address m = [] then Inl (ErrEmpty ''address'')
      else if rb_Block m = [] then Inl (ErrEmpty ''block'')
      else if rb_Sign m = [] then Inl (ErrEmpty ''sign'')
      else
        result_bind (check_sign recover (rb_Sign m)
          (rlpHash_args keccak [GoBytes (rb_Block m), GoString (rb_Address m)]) (HexToAddress (rb_Address m))) (\<lambda>_.
        (case DecodeBlock (rb_Block m) of
           Inl e \<Rightarrow> Inl (ErrDecode e)
         | Inr block \<Rightarrow>
             (case DecodeOtprn (hd_Otprn (header block)) of
                Inl e \<Rightarrow> Inl (ErrDecode e)
              | Inr otp \<Rightarrow>
                  result_bind (find_league (HashOtprn keccak otp) fn) (\<lambda>clg.
                  if Status clg = SEND_BLOCK then
                    (case BlockHash clg of
                       None \<Rightarrow> Inl RpcPanic
                     | Some bh \<Rightarrow>
                         if bh \<noteq> block_Hash keccak block then Inl ErrBlockHash
                         else
                           (case Votehash clg of
                              None \<Rightarrow> Inl RpcPanic
                            | Some vh \<Rightarrow>
                                if vh \<noteq> VoteHash (header block) then Inl ErrVoteHash
                                else
                                  (case sign (fairnode_hash keccak (header block)) of
                                     None \<Rightarrow> Inl ErrSignHash
                                   | Some signature \<Rightarrow>
                                       (case SaveFinalBlock keccak (WithFairnodeSign signature block) (db fn) of
                                          Inl e \<Rightarrow> Inl (ErrSave e)
                                        | Inr db' \<Rightarrow> Inr (fn\<lparr>db := db'\<rparr>)))))
                  else Inl (ErrStatus (Status clg)))))))"

text \<open>The hash signed is taken over the hashes as the request spells them.\<close>

definition RequestFairnodeSign ::
  "hash_fun \<Rightarrow> recover_fun \<Rightarrow> (Hash \<Rightarrow> byte list option) \<Rightarrow> ReqConfirmSeal \<Rightarrow> Fairnode \<Rightarrow> rpc_error + ResFairnodeSign" where
  "RequestFairnodeSign keccak recover sign m fn =
     result_bind (seal_checks keccak recover m fn) (\<lambda>_.
     (case sign (rlpHash_args keccak [GoBytes (rc_BlockHash m), GoBytes (rc_VoteHash m)]) of
        None \<Rightarrow> Inl ErrSignHash
      | Some signature \<Rightarrow>
          (case sign (rlpHash_args keccak [GoBytes signature]) of
             None \<Rightarrow> Inl ErrSignHash
           | Some sg \<Rightarrow> Inr \<lparr>fs_Signature = signature, fs_Sign = sg\<rparr>)))"

end
