(* ===== verification/FairSafety.thy ===== *)
theory FairSafety
  imports FairRpc
begin

text \<open>
  The fairnode as a whole: the loops of the leader and the requests of the miners in any interleaving.

  An event is one round of a loop or one request; \<open>exec\<close> performs it, \<open>Inl FnPanic\<close> is a panic.  \<open>reachable\<close>
  are the states of a leader with the memory database that starts empty, for events that satisfy
  \<open>admissible\<close>: configurations have a positive miner count and an epoch other than one, new OTPRNs do not collide
  with the hash of a league, and nobody presents another OTPRN with the hash of a league's OTPRN.
\<close>

record env =
  e_keccak :: hash_fun
  e_recover :: recover_fun
  e_sign :: "Hash \<Rightarrow> byte list option"
  e_addr :: Address
  e_iter :: iter_fun
  e_votes_hash :: "Voter list \<Rightarrow> Hash"
  e_int63 :: "int \<Rightarrow> nat"

datatype fn_event =
    Tick
  | Timer Address "ChainConfig option"
  | MakePending Address "ChainConfig option"
  | EvHeartBeat "ChainConfig option" "byte list option" int HeartBeatMsg
  | EvRequestOtprn ReqOtprn
  | EvVote VoteMsg
  | EvSendBlock ReqBlock
  | Clean int

text \<open>gRPC turns an error into a reply; only a panic stops the process.\<close>

definition serve :: "rpc_error + Fairnode \<Rightarrow> Fairnode \<Rightarrow> fn_error + Fairnode" where
  "serve r fn = (case r of Inl RpcPanic \<Rightarrow> Inl FnPanic | Inl _ \<Rightarrow> Inr fn | Inr fn' \<Rightarrow> Inr fn')"

fun exec :: "env \<Rightarrow> fn_event \<Rightarrow> Fairnode \<Rightarrow> fn_error + Fairnode" where
  "exec e Tick fn =
     (if signalled fn then Inr fn else processManageLoop (e_keccak e) (e_iter e) (e_votes_hash e) fn)"
| "exec e (Timer rand cfg) fn = makeOtprn_timer (e_keccak e) (e_sign e) (e_addr e) rand cfg fn"
| "exec e (MakePending rand cfg) fn =
     (if signalled fn then makeOtprn_pending (e_keccak e) (e_sign e) (e_addr e) rand cfg fn else Inr fn)"
| "exec e (EvHeartBeat cfg ip now m) fn = serve (HeartBeat_rpc (e_keccak e) (e_recover e) cfg ip now m fn) fn"
| "exec e (EvRequestOtprn m) fn =
     serve (map_sum id snd (RequestOtprn (e_keccak e) (e_recover e) (e_int63 e) m fn)) fn"
| "exec e (EvVote m) fn = serve (Vote_rpc (e_keccak e) (e_recover e) m fn) fn"
| "exec e (EvSendBlock m) fn = serve (SendBlock (e_keccak e) (e_recover e) (e_sign e) m fn) fn"
| "exec e (Clean now) fn = Inr (cleanOldNode now fn)"

definition config_ok :: "ChainConfig option \<Rightarrow> bool" where
  "config_ok cfg \<longleftrightarrow>
     (case cfg of None \<Rightarrow> False | Some c \<Rightarrow> MinMiner c > 0 \<and> (Epoch c \<noteq> 0 \<longrightarrow> half_epoch (Epoch c) \<noteq> 0))"

definition fresh_otprn :: "env \<Rightarrow> Address \<Rightarrow> ChainConfig option \<Rightarrow> Fairnode \<Rightarrow> bool" where
  "fresh_otprn e rand cfg fn \<longleftrightarrow>
     (case cfg of
        None \<Rightarrow> True
      | Some c \<Rightarrow>
          map_of (leagues fn)
            (HashOtprn (e_keccak e) (NewOtprn rand (word_of_nat (length (GetActiveNode (db fn)))) (e_addr e) c)) = None)"

definition no_second_preimage :: "env \<Rightarrow> byte list \<Rightarrow> Fairnode \<Rightarrow> bool" where
  "no_second_preimage e bs fn \<longleftrightarrow>
     (case DecodeBlock bs of
        Inl _ \<Rightarrow> True
      | Inr block \<Rightarrow>
          (case DecodeOtprn (hd_Otprn (header block)) of
             Inl _ \<Rightarrow> True
           | Inr otp \<Rightarrow>
               (case map_of (leagues fn) (HashOtprn (e_keccak e) otp) of
                  None \<Rightarrow> True
                | Some l \<Rightarrow> FnAddr otp = FnAddr (lg_Otprn l))))"

fun admissible :: "env \<Rightarrow> fn_event \<Rightarrow> Fairnode \<Rightarrow> bool" where
  "admissible e (Timer rand cfg) fn = (config_ok cfg \<and> fresh_otprn e rand cfg fn)"
| "admissible e (MakePending rand cfg) fn = (config_ok cfg \<and> fresh_otprn e rand cfg fn)"
| "admissible e (EvSendBlock m) fn = no_second_preimage e (rb_Block m) fn"
| "admissible e _ fn = True"

inductive reachable :: "env \<Rightarrow> Fairnode \<Rightarrow> bool" for e :: env where
  start: "reachable e new_fairnode"
| step: "reachable e fn \<Longrightarrow> admissible e ev fn \<Longrightarrow> exec e ev fn = Inr fn' \<Longrightarrow> reachable e fn'"

text \<open>
  What is assumed of the cryptography and the map order: signatures recover to the fairnode's address, and
  ranging over a map visits every entry once.
\<close>

definition env_ok :: "env \<Rightarrow> bool" where
  "env_ok e \<longleftrightarrow>
     (\<forall>h sg. e_sign e h = Some sg \<longrightarrow> e_recover e h sg = Some (e_addr e)) \<and>
     (\<forall>xs. mset (e_iter e xs) = mset xs)"

subsection \<open>The invariant\<close>

definition early :: "FnStatus \<Rightarrow> bool" where
  "early s \<longleftrightarrow> s \<in> {PENDING, MAKE_LEAGUE, MAKE_JOIN_TX, MAKE_BLOCK, LEAGUE_BROADCASTING, VOTE_START, VOTE_COUNTING}"

definition late :: "FnStatus \<Rightarrow> bool" where
  "late s \<longleftrightarrow> s \<in> {VOTE_COMPLETE, SEND_BLOCK}"

text \<open>The hashes of a league are the result of enough votes that the database holds for its next block.\<close>

definition counted :: "env \<Rightarrow> MemDatabase \<Rightarrow> Hash \<Rightarrow> league \<Rightarrow> bool" where
  "counted e m h l \<longleftrightarrow>
     (\<exists>vs rest bh. GetVoters (MakeVoteKey h (Current l + 1)) m = vs @ rest \<and>
        \<not> (word_of_nat (length vs) :: u64) < MinMiner (otp_Data (lg_Otprn l)) - 1 \<and>
        ValidationFinalBlockHash (e_keccak e) (e_iter e) vs = Some bh \<and>
        BlockHash l = Some bh \<and> Votehash l = Some (e_votes_hash e vs))"

definition league_inv :: "env \<Rightarrow> Fairnode \<Rightarrow> Hash \<Rightarrow> league \<Rightarrow> bool" where
  "league_inv e fn h l \<longleftrightarrow>
     HashOtprn (e_keccak e) (lg_Otprn l) = h \<and> FnAddr (lg_Otprn l) = e_addr e \<and>
     config_ok (Some (otp_Data (lg_Otprn l))) \<and>
     (BlockHash l = None \<and> Votehash l = None \<or> counted e (db fn) h l) \<and>
     (early (Status l) \<longrightarrow> BlockHash l = None \<and> Votehash l = None) \<and>
     (late (Status l) \<longrightarrow> BlockHash l \<noteq> None) \<and>
     Status l \<notin> {SAVE_OTPRN, MAKE_PENDING_LEAGUE, SEND_BLOCK_WAIT} \<and>
     (if currentLeague fn = Some h then
        (Status l \<noteq> PENDING \<longrightarrow> config fn = Some (otp_Data (lg_Otprn l))) \<and>
        (Status l \<in> {REQ_FAIRNODE_SIGN, FINALIZE} \<longrightarrow> BlockChain (db fn) \<noteq> []) \<and>
        (signalled fn \<longrightarrow> Status l = FINALIZE \<and> BlockHash l = None \<and> Votehash l = None)
      else Status l = PENDING)"

definition leagues_inv :: "env \<Rightarrow> Fairnode \<Rightarrow> bool" where
  "leagues_inv e fn \<longleftrightarrow>
     (\<forall>h l. map_of (leagues fn) h = Some l \<longrightarrow> league_inv e fn h l) \<and>
     (\<forall>c. currentLeague fn = Some c \<longrightarrow> map_of (leagues fn) c \<noteq> None) \<and>
     (\<forall>p. pendingLeague fn = Some p \<longrightarrow>
        map_of (leagues fn) p \<noteq> None \<and> BlockChain (db fn) \<noteq> [] \<and> currentLeague fn \<noteq> None \<and> currentLeague fn \<noteq> Some p) \<and>
     (signalled fn \<longrightarrow> currentLeague fn \<noteq> None)"

definition db_inv :: "env \<Rightarrow> MemDatabase \<Rightarrow> bool" where
  "db_inv e m \<longleftrightarrow>
     (\<forall>k. \<forall>v \<in> set (GetVoters k m). voted v \<noteq> None) \<and>
     blocks_distinct (e_keccak e) m \<and>
     (\<forall>b \<in> set (BlockChain m). VerifyFairnodeSign (e_keccak e) (e_recover e) (header b) = Inr ()) \<and>
     (\<forall>otp \<in> set (OtprnList m). Cminer otp \<noteq> 0)"

definition fn_inv :: "env \<Rightarrow> Fairnode \<Rightarrow> bool" where
  "fn_inv e fn \<longleftrightarrow> leagues_inv e fn \<and> db_inv e (db fn)"

lemma fn_inv_start: "fn_inv e new_fairnode"
  by (simp add: fn_inv_def leagues_inv_def db_inv_def new_fairnode_def NewMemDatabase_def GetVoters_def blocks_distinct_def)

subsection \<open>Changes of one league\<close>

lemma leagues_set_league [simp]:
  "map_of (leagues (set_league h l fn)) = (map_of (leagues fn))(h \<mapsto> l)"
  "currentLeague (set_league h l fn) = currentLeague fn" "pendingLeague (set_league h l fn) = pendingLeague fn"
  "db (set_league h l fn) = db fn" "signalled (set_league h l fn) = signalled fn"
  "config (set_league h l fn) = config fn" "lastBlock (set_league h l fn) = lastBlock fn"
  by (simp_all add: set_league_def update_conv')

lemma leagues_inv_upd [simp]:
  "leagues_inv e (fn\<lparr>leageuWaitAttampt := a\<rparr>) = leagues_inv e fn"
  "leagues_inv e (fn\<lparr>sendBlockAttampt := b\<rparr>) = leagues_inv e fn"
  "leagues_inv e (fn\<lparr>lastBlock := c\<rparr>) = leagues_inv e fn"
  by (simp_all add: leagues_inv_def league_inv_def)

lemma leagues_inv_current:
  assumes "leagues_inv e fn" "currentLeague fn = Some c" "map_of (leagues fn) c = Some l"
    and "league_inv e (set_league c l' fn) c l'"
  shows "leagues_inv e (set_league c l' fn)"
  using assms by (auto simp: leagues_inv_def league_inv_def)

text \<open>What the league invariant reads of the state.\<close>

lemma league_inv_cong:
  assumes "currentLeague fn' = currentLeague fn" "config fn' = config fn" "signalled fn' = signalled fn" "db fn' = db fn"
  shows "league_inv e fn' h l = league_inv e fn h l"
  using assms by (simp add: league_inv_def)

lemma CurrentBlock_None [simp]: "CurrentBlock m = None \<longleftrightarrow> BlockChain m = []"
  by (simp add: CurrentBlock_def)

lemma CurrentInfo_None [simp]: "CurrentInfo keccak m = None \<longleftrightarrow> BlockChain m = []"
  by (simp add: CurrentInfo_def Let_def)

lemma final_hash_Some:
  assumes "\<forall>v \<in> set vs. voted v \<noteq> None" "mset (iter (voteResult keccak vs)) = mset (voteResult keccak vs)"
  shows "\<exists>bh. ValidationFinalBlockHash keccak iter vs = Some bh"
proof (cases vs)
  case (Cons v ws)
  then obtain h where "v \<in> set vs" "voted v = Some h" using assms(1) by auto
  with final_hash_winner [where iter = iter, OF assms(2)] show ?thesis by blast
qed (simp add: ValidationFinalBlockHash_def)

subsection \<open>The loop of the leader\<close>

lemma counted_Status [simp]: "counted e m h (l\<lparr>Status := s\<rparr>) = counted e m h l"
  by (simp add: counted_def)

lemma inv_current_league:
  assumes "leagues_inv e fn" "currentLeague fn = Some c"
  obtains l where "map_of (leagues fn) c = Some l" "league_inv e fn c l"
  using assms unfolding leagues_inv_def by blast

lemma tick_status_inv:
  assumes "leagues_inv e fn" "currentLeague fn = Some c" "map_of (leagues fn) c = Some l" "\<not> signalled fn"
    and "Status l = MAKE_LEAGUE \<and> s = MAKE_JOIN_TX \<or> Status l = MAKE_BLOCK \<and> s = LEAGUE_BROADCASTING \<or>
      Status l = LEAGUE_BROADCASTING \<and> s = VOTE_START \<or> Status l = VOTE_START \<and> s = VOTE_COUNTING \<or>
      Status l = VOTE_COMPLETE \<and> s = SEND_BLOCK \<or> Status l = REQ_FAIRNODE_SIGN \<and> s = FINALIZE \<or>
      Status l \<noteq> PENDING \<and> s = REJECT"
  shows "leagues_inv e (set_league c (l\<lparr>Status := s\<rparr>) fn)"
proof (rule leagues_inv_current [OF assms(1-3)])
  have "league_inv e fn c l" using assms(1,3) by (auto simp: leagues_inv_def)
  with assms(2,4,5) show "league_inv e (set_league c (l\<lparr>Status := s\<rparr>) fn) c (l\<lparr>Status := s\<rparr>)"
    by (elim disjE conjE) (simp_all add: league_inv_def early_def late_def)
qed

lemma tick_pending_inv:
  assumes "leagues_inv e fn" "currentLeague fn = Some c" "map_of (leagues fn) c = Some l" "\<not> signalled fn"
    and "Status l = PENDING"
  shows "leagues_inv e (tick_pending c l fn)"
proof -
  let ?fn = "fn\<lparr>config := Some (otp_Data (lg_Otprn l))\<rparr>"
  have L: "league_inv e fn c l" using assms(1,3) by (auto simp: leagues_inv_def)
  have i: "leagues_inv e ?fn" using assms by (auto simp: leagues_inv_def league_inv_def)
  have "leagues_inv e (set_league c (l\<lparr>Status := s\<rparr>) ?fn)" if "s = MAKE_LEAGUE \<or> s = REJECT" for s
    by (rule leagues_inv_current [OF i, of c l])
      (use assms L that in \<open>auto simp: league_inv_def early_def late_def\<close>)
  then show ?thesis using i by (simp add: tick_pending_def Let_def)
qed

lemma tick_make_join_tx_inv:
  assumes "leagues_inv e fn" "currentLeague fn = Some c" "map_of (leagues fn) c = Some l" "\<not> signalled fn"
    and "Status l = MAKE_JOIN_TX"
  shows "leagues_inv e (tick_make_join_tx c l fn)"
  unfolding tick_make_join_tx_def
proof (rule leagues_inv_current [OF assms(1-3)])
  have "league_inv e fn c l" using assms(1,3) by (auto simp: leagues_inv_def)
  then show "league_inv e (set_league c (l\<lparr>Current := x, Status := MAKE_BLOCK\<rparr>) fn) c (l\<lparr>Current := x, Status := MAKE_BLOCK\<rparr>)" for x
    using assms by (auto simp: league_inv_def early_def late_def)
qed

lemma tick_vote_counting_inv:
  assumes "env_ok e" "fn_inv e fn" "currentLeague fn = Some c" "map_of (leagues fn) c = Some l" "\<not> signalled fn"
    and "Status l = VOTE_COUNTING"
  shows "\<exists>fn'. tick_vote_counting (e_keccak e) (e_iter e) (e_votes_hash e) c l fn = Inr fn' \<and>
    leagues_inv e fn' \<and> db fn' = db fn"
proof -
  have i: "leagues_inv e fn" using assms(2) by (simp add: fn_inv_def)
  have L: "league_inv e fn c l" using i assms(4) by (auto simp: leagues_inv_def)
  let ?vs = "GetVoters (MakeVoteKey c (Current l + 1)) (db fn)"
  have h: "HashOtprn (e_keccak e) (lg_Otprn l) = c" and cfg: "config fn = Some (otp_Data (lg_Otprn l))"
    using L assms(3,6) by (auto simp: league_inv_def)
  have "\<forall>v \<in> set ?vs. voted v \<noteq> None" using assms(2) by (simp add: fn_inv_def db_inv_def)
  then obtain bh where bh: "ValidationFinalBlockHash (e_keccak e) (e_iter e) ?vs = Some bh"
    using final_hash_Some [of ?vs "e_iter e"] assms(1) unfolding env_ok_def by metis
  let ?l = "l\<lparr>BlockHash := Some bh, Votehash := Some (e_votes_hash e ?vs), Status := VOTE_COMPLETE\<rparr>"
  have "leagues_inv e (set_league c ?l fn)"
    if "\<not> (word_of_nat (length ?vs) :: u64) < MinMiner (otp_Data (lg_Otprn l)) - 1"
  proof (rule leagues_inv_current [OF i assms(3,4)])
    have "counted e (db fn) c ?l" using bh that by (auto simp: counted_def)
    then show "league_inv e (set_league c ?l fn) c ?l"
      using L assms(3,5,6) by (auto simp: league_inv_def early_def)
  qed
  moreover have "leagues_inv e (set_league c (l\<lparr>Status := REJECT\<rparr>) fn)"
    using tick_status_inv [OF i assms(3-5)] assms(6) by simp
  ultimately show ?thesis using bh by (auto simp: tick_vote_counting_def h cfg Let_def)
qed

lemma tick_send_block_inv:
  assumes "leagues_inv e fn" "currentLeague fn = Some c" "map_of (leagues fn) c = Some l" "\<not> signalled fn"
    and "Status l = SEND_BLOCK"
  shows "\<exists>fn'. tick_send_block (e_keccak e) c l fn = Inr fn' \<and> leagues_inv e fn' \<and> db fn' = db fn"
proof -
  have L: "league_inv e fn c l" using assms(1,3) by (auto simp: leagues_inv_def)
  then obtain h where h: "BlockHash l = Some h" using assms(5) by (auto simp: league_inv_def late_def)
  have "leagues_inv e (set_league c (l\<lparr>Status := REJECT\<rparr>) fn)"
    using tick_status_inv [OF assms(1-4)] assms(5) by simp
  moreover have "leagues_inv e (set_league c (l\<lparr>Status := REQ_FAIRNODE_SIGN\<rparr>) fn)"
    if "GetBlock (e_keccak e) h (db fn) = Some b" for b
  proof (rule leagues_inv_current [OF assms(1-3)])
    have "BlockChain (db fn) \<noteq> []" using that by (auto simp: GetBlock_def)
    then show "league_inv e (set_league c (l\<lparr>Status := REQ_FAIRNODE_SIGN\<rparr>) fn) c (l\<lparr>Status := REQ_FAIRNODE_SIGN\<rparr>)"
      using L assms by (auto simp: league_inv_def early_def late_def counted_def)
  qed
  ultimately show ?thesis using h assms(1) by (auto simp: tick_send_block_def Let_def split: option.splits)
qed

lemma tick_finalize_inv:
  assumes "leagues_inv e fn" "currentLeague fn = Some c" "map_of (leagues fn) c = Some l" "\<not> signalled fn"
    and "Status l = FINALIZE"
  shows "\<exists>fn'. tick_finalize (e_keccak e) c l fn = Inr fn' \<and> leagues_inv e fn' \<and> db fn' = db fn"
proof -
  have L: "league_inv e fn c l" using assms(1,3) by (auto simp: leagues_inv_def)
  then have "CurrentBlock (db fn) \<noteq> None" using assms by (auto simp: league_inv_def)
  then obtain b where b: "CurrentBlock (db fn) = Some b" by blast
  let ?l = "l\<lparr>Current := Number (header b), Votehash := None, BlockHash := None\<rparr>"
  have "leagues_inv e ((set_league c ?l fn)\<lparr>lastBlock := Some b, signalled := True\<rparr>)"
    using assms L by (auto simp: leagues_inv_def league_inv_def early_def late_def)
  then show ?thesis using b by (simp add: tick_finalize_def)
qed

lemma db_refresh [simp]: "db (refresh_last_block fn) = db fn"
  by (simp add: refresh_last_block_def split: option.splits)

lemma leagues_inv_refresh [simp]: "leagues_inv e (refresh_last_block fn) = leagues_inv e fn"
  by (simp add: refresh_last_block_def split: option.splits)

lemma tick_reject_inv:
  assumes "leagues_inv e fn" "currentLeague fn = Some c" "\<not> signalled fn"
  shows "\<exists>fn'. tick_reject (e_keccak e) c fn = Inr fn' \<and> leagues_inv e fn' \<and> db fn' = db fn"
proof (cases "pendingLeague fn")
  case None
  then have "leagues_inv e (fn\<lparr>leagues := AList.delete c (leagues fn), currentLeague := None\<rparr>)"
    using assms by (auto simp: leagues_inv_def league_inv_def delete_conv' split: if_splits)
  then show ?thesis using None by (simp add: tick_reject_def)
next
  case (Some p)
  then obtain pl where p: "p \<noteq> c" "map_of (leagues fn) p = Some pl" "BlockChain (db fn) \<noteq> []"
    using assms(1,2) by (auto simp: leagues_inv_def)
  then obtain n h where n: "CurrentInfo (e_keccak e) (db fn) = Some (n, h)"
    by (cases "CurrentInfo (e_keccak e) (db fn)") auto
  have "Status pl = PENDING" using p assms(1,2) by (auto simp: leagues_inv_def league_inv_def)
  then have "leagues_inv e ((set_league p (pl\<lparr>Current := n\<rparr>) (fn\<lparr>leagues := AList.delete c (leagues fn)\<rparr>))
      \<lparr>currentLeague := Some p, pendingLeague := None\<rparr>)"
    using assms p by (auto simp: leagues_inv_def league_inv_def delete_conv' early_def late_def split: if_splits)
  then show ?thesis using Some p n by (simp add: tick_reject_def delete_conv')
qed

lemma tick_inv:
  assumes "env_ok e" "fn_inv e fn" "\<not> signalled fn"
  shows "\<exists>fn'. processManageLoop (e_keccak e) (e_iter e) (e_votes_hash e) fn = Inr fn' \<and>
    leagues_inv e fn' \<and> db fn' = db fn"
proof (cases "currentLeague fn")
  case None
  then show ?thesis using assms(2) by (simp add: processManageLoop_def fn_inv_def)
next
  case (Some c)
  have i: "leagues_inv e fn" using assms(2) by (simp add: fn_inv_def)
  then obtain l where l: "map_of (leagues fn) c = Some l" "league_inv e fn c l" by (rule inv_current_league [OF _ Some])
  note status = tick_status_inv [OF i Some l(1) assms(3)]
  have bad: "Status l \<notin> {SAVE_OTPRN, MAKE_PENDING_LEAGUE, SEND_BLOCK_WAIT}" using l(2) unfolding league_inv_def by blast
  have db: "db (tick_pending c l fn) = db fn" "db (tick_make_join_tx c l fn) = db fn"
    by (simp_all add: tick_pending_def tick_make_join_tx_def Let_def)
  note unfold = processManageLoop_def Some l(1)
  show ?thesis
  proof (cases "Status l")
    case PENDING
    then show ?thesis using tick_pending_inv [OF i Some l(1) assms(3)] db by (simp add: unfold)
  next
    case MAKE_JOIN_TX
    then show ?thesis using tick_make_join_tx_inv [OF i Some l(1) assms(3)] db by (simp add: unfold)
  next
    case VOTE_COUNTING
    then show ?thesis using tick_vote_counting_inv [OF assms(1,2) Some l(1) assms(3)] by (simp add: unfold)
  next
    case SEND_BLOCK
    then show ?thesis using tick_send_block_inv [OF i Some l(1) assms(3)] by (simp add: unfold)
  next
    case FINALIZE
    then show ?thesis using tick_finalize_inv [OF i Some l(1) assms(3)] by (simp add: unfold)
  next
    case REJECT
    then show ?thesis using tick_reject_inv [OF i Some assms(3)] by (simp add: unfold)
  qed (use bad status in \<open>simp_all add: unfold\<close>)
qed

subsection \<open>New leagues\<close>

lemma counted_extend:
  assumes "counted e m h l" "\<And>k. \<exists>r. GetVoters k m' = GetVoters k m @ r"
  shows "counted e m' h l"
proof -
  obtain vs rest bh where v: "GetVoters (MakeVoteKey h (Current l + 1)) m = vs @ rest"
    and o: "\<not> (word_of_nat (length vs) :: u64) < MinMiner (otp_Data (lg_Otprn l)) - 1"
      "ValidationFinalBlockHash (e_keccak e) (e_iter e) vs = Some bh" "BlockHash l = Some bh"
      "Votehash l = Some (e_votes_hash e vs)"
    using assms(1) unfolding counted_def by blast
  obtain r where "GetVoters (MakeVoteKey h (Current l + 1)) m' = vs @ (rest @ r)"
    using assms(2) [of "MakeVoteKey h (Current l + 1)"] v by auto
  with o show ?thesis unfolding counted_def by blast
qed

lemma leagues_inv_db:
  assumes "leagues_inv e fn" "\<And>k. \<exists>r. GetVoters k m = GetVoters k (db fn) @ r"
    and "BlockChain (db fn) \<noteq> [] \<Longrightarrow> BlockChain m \<noteq> []"
  shows "leagues_inv e (fn\<lparr>db := m\<rparr>)"
proof -
  have "league_inv e (fn\<lparr>db := m\<rparr>) h l" if "league_inv e fn h l" for h l
    using that counted_extend [OF _ assms(2), of e h l] assms(3) unfolding league_inv_def by (auto split: if_splits)
  with assms(1,3) show ?thesis by (simp add: leagues_inv_def)
qed

lemma leagues_inv_db_same:
  "leagues_inv e fn \<Longrightarrow> VoteList m = VoteList (db fn) \<Longrightarrow> BlockChain m = BlockChain (db fn) \<Longrightarrow> leagues_inv e (fn\<lparr>db := m\<rparr>)"
  by (rule leagues_inv_db) (auto simp: GetVoters_def)

lemma db_inv_same:
  "db_inv e m \<Longrightarrow> VoteList m' = VoteList m \<Longrightarrow> BlockChain m' = BlockChain m \<Longrightarrow> OtprnList m' = OtprnList m \<Longrightarrow> db_inv e m'"
  by (simp add: db_inv_def GetVoters_def blocks_distinct_def)

lemma HashOtprn_sign [simp]: "HashOtprn keccak (otp\<lparr>otp_Sign := sg\<rparr>) = HashOtprn keccak otp"
  by (simp add: HashOtprn_def)

definition new_league_inv :: "env \<Rightarrow> Otprn \<Rightarrow> bool" where
  "new_league_inv e otp \<longleftrightarrow> FnAddr otp = e_addr e \<and> config_ok (Some (otp_Data otp)) \<and> Cminer otp \<noteq> 0"

lemma newOtprn_result:
  assumes "config_ok cfg" "fresh_otprn e rand cfg fn"
  shows "newOtprn (e_keccak e) (e_sign e) (e_addr e) rand cfg isCur fn \<noteq> Inl FnPanic \<and>
    (\<forall>fn'. newOtprn (e_keccak e) (e_sign e) (e_addr e) rand cfg isCur fn = Inr fn' \<longrightarrow>
      (\<exists>otp. new_league_inv e otp \<and> map_of (leagues fn) (HashOtprn (e_keccak e) otp) = None \<and>
        (if isCur then currentLeague fn = None \<and>
           fn' = (addLeague (e_keccak e) otp (fn\<lparr>currentLeague := Some (HashOtprn (e_keccak e) otp)\<rparr>))\<lparr>db := SaveOtprn otp (db fn)\<rparr>
         else pendingLeague fn = None \<and>
           fn' = (addLeague (e_keccak e) otp (fn\<lparr>pendingLeague := Some (HashOtprn (e_keccak e) otp)\<rparr>))\<lparr>db := SaveOtprn otp (db fn)\<rparr>)))"
proof -
  obtain c where c: "cfg = Some c" "MinMiner c > 0" using assms(1) by (auto simp: config_ok_def split: option.splits)
  let ?n = "word_of_nat (length (GetActiveNode (db fn))) :: u64"
  let ?o = "NewOtprn rand ?n (e_addr e) c"
  have n: "new_league_inv e (?o\<lparr>otp_Sign := sg\<rparr>)" if "?n \<ge> MinMiner c" for sg
    using assms(1) c that by (auto simp: new_league_inv_def NewOtprn_def)
  have f: "map_of (leagues fn) (HashOtprn (e_keccak e) ?o) = None" using assms(2) c by (simp add: fresh_otprn_def)
  have "newOtprn (e_keccak e) (e_sign e) (e_addr e) rand cfg isCur fn \<noteq> Inl FnPanic"
    by (auto simp: newOtprn_def c Let_def split: option.splits)
  moreover have "\<exists>otp. new_league_inv e otp \<and> map_of (leagues fn) (HashOtprn (e_keccak e) otp) = None \<and>
        (if isCur then currentLeague fn = None \<and>
           fn' = (addLeague (e_keccak e) otp (fn\<lparr>currentLeague := Some (HashOtprn (e_keccak e) otp)\<rparr>))\<lparr>db := SaveOtprn otp (db fn)\<rparr>
         else pendingLeague fn = None \<and>
           fn' = (addLeague (e_keccak e) otp (fn\<lparr>pendingLeague := Some (HashOtprn (e_keccak e) otp)\<rparr>))\<lparr>db := SaveOtprn otp (db fn)\<rparr>)"
    if r: "newOtprn (e_keccak e) (e_sign e) (e_addr e) rand cfg isCur fn = Inr fn'" for fn'
  proof -
    obtain sg where sg: "SignOtprn (e_keccak e) (e_sign e) ?o = Some (?o\<lparr>otp_Sign := sg\<rparr>)" and ge: "?n \<ge> MinMiner c"
      using r by (auto simp: newOtprn_def c Let_def SignOtprn_def split: option.splits if_splits)
    show ?thesis
      by (rule exI [of _ "?o\<lparr>otp_Sign := sg\<rparr>"])
        (use r sg ge n f in \<open>auto simp: newOtprn_def c(1) Let_def addLeague_def split: if_splits\<close>)
  qed
  ultimately show ?thesis by blast
qed

lemma add_current_inv:
  assumes "fn_inv e fn" "new_league_inv e otp" "map_of (leagues fn) (HashOtprn (e_keccak e) otp) = None" "currentLeague fn = None"
  shows "fn_inv e ((addLeague (e_keccak e) otp (fn\<lparr>currentLeague := Some (HashOtprn (e_keccak e) otp)\<rparr>))\<lparr>db := SaveOtprn otp (db fn)\<rparr>)"
proof -
  let ?fn = "addLeague (e_keccak e) otp (fn\<lparr>currentLeague := Some (HashOtprn (e_keccak e) otp)\<rparr>)"
  have "leagues_inv e ?fn"
    using assms unfolding fn_inv_def leagues_inv_def
    by (auto simp: addLeague_def league_inv_def new_league_inv_def early_def late_def split: if_splits)
  then have "leagues_inv e (?fn\<lparr>db := SaveOtprn otp (db fn)\<rparr>)"
    by (rule leagues_inv_db_same) (simp_all add: SaveOtprn_def addLeague_def)
  moreover have "db_inv e (SaveOtprn otp (db fn))"
    using assms(1,2) by (auto simp: fn_inv_def db_inv_def SaveOtprn_def GetVoters_def blocks_distinct_def new_league_inv_def)
  ultimately show ?thesis by (simp add: fn_inv_def)
qed

lemma add_pending_inv:
  assumes "fn_inv e fn" "new_league_inv e otp" "map_of (leagues fn) (HashOtprn (e_keccak e) otp) = None"
    and "currentLeague fn \<noteq> None" "BlockChain (db fn) \<noteq> []"
  shows "fn_inv e ((addLeague (e_keccak e) otp (fn\<lparr>pendingLeague := Some (HashOtprn (e_keccak e) otp)\<rparr>))\<lparr>db := SaveOtprn otp (db fn)\<rparr>)"
proof -
  let ?fn = "addLeague (e_keccak e) otp (fn\<lparr>pendingLeague := Some (HashOtprn (e_keccak e) otp)\<rparr>)"
  have "leagues_inv e ?fn"
    using assms unfolding fn_inv_def leagues_inv_def
    by (auto simp: addLeague_def league_inv_def new_league_inv_def early_def late_def split: if_splits)
  then have "leagues_inv e (?fn\<lparr>db := SaveOtprn otp (db fn)\<rparr>)"
    by (rule leagues_inv_db_same) (simp_all add: SaveOtprn_def addLeague_def)
  moreover have "db_inv e (SaveOtprn otp (db fn))"
    using assms(1,2) by (auto simp: fn_inv_def db_inv_def SaveOtprn_def GetVoters_def blocks_distinct_def new_league_inv_def)
  ultimately show ?thesis by (simp add: fn_inv_def)
qed

lemma timer_inv:
  assumes "fn_inv e fn" "config_ok cfg" "fresh_otprn e rand cfg fn"
  shows "\<exists>fn'. makeOtprn_timer (e_keccak e) (e_sign e) (e_addr e) rand cfg fn = Inr fn' \<and> fn_inv e fn'"
proof (cases "newOtprn (e_keccak e) (e_sign e) (e_addr e) rand cfg True fn")
  case (Inl er)
  then show ?thesis using newOtprn_result [OF assms(2,3), of True] assms(1)
    by (cases er) (auto simp: makeOtprn_timer_def logged_def)
next
  case (Inr fn')
  then have "fn_inv e fn'"
    using newOtprn_result [OF assms(2,3), of True] add_current_inv [OF assms(1)] by auto
  then show ?thesis using Inr assms(1) by (simp add: makeOtprn_timer_def logged_def)
qed

lemma signal_done_inv:
  assumes "fn_inv e fn" "signalled fn" "currentLeague fn = Some c" "map_of (leagues fn) c = Some l"
    and "s = MAKE_JOIN_TX \<or> s = REJECT"
  shows "fn_inv e (set_league c (l\<lparr>Status := s\<rparr>) (fn\<lparr>signalled := False\<rparr>)) \<and> BlockChain (db fn) \<noteq> []"
proof -
  have L: "league_inv e fn c l" using assms(1,4) by (auto simp: fn_inv_def leagues_inv_def)
  then have l: "Status l = FINALIZE" "BlockHash l = None" "Votehash l = None" "BlockChain (db fn) \<noteq> []"
    using assms(2,3) by (auto simp: league_inv_def)
  have i: "leagues_inv e (fn\<lparr>signalled := False\<rparr>)"
    using assms(1) by (auto simp: fn_inv_def leagues_inv_def league_inv_def)
  have "leagues_inv e (set_league c (l\<lparr>Status := s\<rparr>) (fn\<lparr>signalled := False\<rparr>))"
  proof (rule leagues_inv_current [OF i])
    show "league_inv e (set_league c (l\<lparr>Status := s\<rparr>) (fn\<lparr>signalled := False\<rparr>)) c (l\<lparr>Status := s\<rparr>)"
      using L l assms(3,5) by (auto simp: league_inv_def early_def late_def)
  qed (use assms(3,4) in simp_all)
  then show ?thesis using assms(1) l(4) by (simp add: fn_inv_def)
qed

lemma pending_inv:
  assumes "fn_inv e fn" "signalled fn" "config_ok cfg" "fresh_otprn e rand cfg fn"
  shows "\<exists>fn'. makeOtprn_pending (e_keccak e) (e_sign e) (e_addr e) rand cfg fn = Inr fn' \<and> fn_inv e fn'"
proof -
  have i: "leagues_inv e fn" using assms(1) by (simp add: fn_inv_def)
  obtain c where c: "currentLeague fn = Some c" using i assms(2) by (auto simp: leagues_inv_def)
  obtain l where l: "map_of (leagues fn) c = Some l" "league_inv e fn c l" by (rule inv_current_league [OF i c])
  let ?f = "\<lambda>s. set_league c (l\<lparr>Status := s\<rparr>) (fn\<lparr>signalled := False\<rparr>)"
  have fin: "fn_inv e (?f MAKE_JOIN_TX)" "fn_inv e (?f REJECT)" "BlockChain (db fn) \<noteq> []"
    using signal_done_inv [OF assms(1,2) c l(1)] by auto
  have half: "Epoch (otp_Data (lg_Otprn l)) \<noteq> 0 \<longrightarrow> half_epoch (Epoch (otp_Data (lg_Otprn l))) \<noteq> 0"
    using l(2) by (simp add: league_inv_def config_ok_def)
  have fresh: "fresh_otprn e rand cfg (?f MAKE_JOIN_TX)"
    using assms(4) l(1) by (auto simp: fresh_otprn_def split: option.splits)
  note r = newOtprn_result [OF assms(3) fresh, of False]
  have new: "\<exists>fn'. logged (newOtprn (e_keccak e) (e_sign e) (e_addr e) rand cfg False) (?f MAKE_JOIN_TX) = Inr fn' \<and> fn_inv e fn'"
  proof (cases "newOtprn (e_keccak e) (e_sign e) (e_addr e) rand cfg False (?f MAKE_JOIN_TX)")
    case (Inl er)
    then show ?thesis using r fin(1) by (cases er) (auto simp: logged_def)
  next
    case (Inr fn')
    then obtain otp where "new_league_inv e otp" "map_of (leagues (?f MAKE_JOIN_TX)) (HashOtprn (e_keccak e) otp) = None"
      "fn' = (addLeague (e_keccak e) otp ((?f MAKE_JOIN_TX)\<lparr>pendingLeague := Some (HashOtprn (e_keccak e) otp)\<rparr>))
          \<lparr>db := SaveOtprn otp (db (?f MAKE_JOIN_TX))\<rparr>"
      using r by auto
    with add_pending_inv [OF fin(1)] have "fn_inv e fn'" using c fin(3) by simp
    then show ?thesis using Inr by (simp add: logged_def)
  qed
  show ?thesis using fin new half by (auto simp: makeOtprn_pending_def c l(1) Let_def)
qed

subsection \<open>Requests\<close>

lemma fn_inv_db_same:
  "fn_inv e fn \<Longrightarrow> VoteList m = VoteList (db fn) \<Longrightarrow> BlockChain m = BlockChain (db fn) \<Longrightarrow> OtprnList m = OtprnList (db fn) \<Longrightarrow>
   fn_inv e (fn\<lparr>db := m\<rparr>)"
  using leagues_inv_db_same db_inv_same by (auto simp: fn_inv_def)

lemma SaveActiveNode_same [simp]:
  "VoteList (SaveActiveNode n m) = VoteList m" "BlockChain (SaveActiveNode n m) = BlockChain m"
  "OtprnList (SaveActiveNode n m) = OtprnList m"
  by (simp_all add: SaveActiveNode_def)

lemma SaveLeague_same [simp]:
  "VoteList (SaveLeague h n m) = VoteList m" "BlockChain (SaveLeague h n m) = BlockChain m"
  "OtprnList (SaveLeague h n m) = OtprnList m"
  by (simp_all add: SaveLeague_def Let_def split: option.splits)

lemma RemoveActiveNode_same [simp]:
  "VoteList (RemoveActiveNode n m) = VoteList m" "BlockChain (RemoveActiveNode n m) = BlockChain m"
  "OtprnList (RemoveActiveNode n m) = OtprnList m"
  by (simp_all add: RemoveActiveNode_def split: option.splits)

lemma SaveVote_same [simp]:
  "BlockChain (SaveVote otp n v m) = BlockChain m" "OtprnList (SaveVote otp n v m) = OtprnList m"
  by (simp_all add: SaveVote_def Let_def split: option.splits)

lemma clean_inv: "fn_inv e fn \<Longrightarrow> fn_inv e (cleanOldNode now fn)"
proof -
  have "VoteList (fold f ns m) = VoteList m \<and> BlockChain (fold f ns m) = BlockChain m \<and> OtprnList (fold f ns m) = OtprnList m"
    if "f = (\<lambda>node m. if now - hbt_Time node > CLEAN_OLD_NODE_TERM * 60 then RemoveActiveNode (Enode node) m else m)" for f ns m
    using that by (induction ns arbitrary: m) auto
  then show "fn_inv e fn \<Longrightarrow> fn_inv e (cleanOldNode now fn)" unfolding cleanOldNode_def by (intro fn_inv_db_same) auto
qed

lemma heartbeat_inv:
  assumes "fn_inv e fn"
  shows "\<exists>fn'. serve (HeartBeat_rpc keccak recover cfg ip now m fn) fn = Inr fn' \<and> fn_inv e fn'"
proof (cases "HeartBeat_rpc keccak recover cfg ip now m fn")
  case (Inl er)
  then have "er \<noteq> RpcPanic"
    by (auto simp: HeartBeat_rpc_def check_sign_def check_head_def result_bind_Inl
        split: option.splits if_splits sum.splits prod.splits)
  then show ?thesis using Inl assms by (cases er) (auto simp: serve_def)
next
  case (Inr fn')
  then obtain node where "fn' = fn\<lparr>db := SaveActiveNode node (db fn)\<rparr>"
    by (auto simp: HeartBeat_rpc_def split: option.splits if_splits)
  then show ?thesis using Inr fn_inv_db_same [OF assms] by (simp add: serve_def)
qed

lemma request_otprn_inv:
  assumes "fn_inv e fn"
  shows "\<exists>fn'. serve (map_sum id snd (RequestOtprn keccak recover int63 m fn)) fn = Inr fn' \<and> fn_inv e fn'"
proof (cases "RequestOtprn keccak recover int63 m fn")
  case (Inl er)
  have "er \<noteq> RpcPanic"
  proof
    assume "er = RpcPanic"
    with Inl obtain otp addr where o: "CurrentOtprn (db fn) = Some otp" "IsJoinOK int63 otp addr = None"
      by (auto simp: RequestOtprn_def Let_def check_sign_def result_bind_Inl split: option.splits if_splits sum.splits bool.splits)
    then have "otp \<in> set (OtprnList (db fn))" by (auto simp: CurrentOtprn_def split: if_splits)
    then have "Cminer otp \<noteq> 0" using assms by (simp add: fn_inv_def db_inv_def)
    then show False using o(2) by (auto simp: IsJoinOK_def Let_def split: if_splits)
  qed
  then show ?thesis using Inl assms by (cases er) (auto simp: serve_def)
next
  case (Inr x)
  then have "snd x = fn\<lparr>db := db (snd x)\<rparr> \<and> VoteList (db (snd x)) = VoteList (db fn) \<and>
      BlockChain (db (snd x)) = BlockChain (db fn) \<and> OtprnList (db (snd x)) = OtprnList (db fn)"
    by (auto simp: RequestOtprn_def Let_def split: option.splits if_splits sum.splits bool.splits)
  then have "fn_inv e (snd x)" using fn_inv_db_same [OF assms, of "db (snd x)"] by simp
  then show ?thesis using Inr by (simp add: serve_def)
qed

lemma vote_inv:
  assumes "fn_inv e fn"
  shows "\<exists>fn'. serve (Vote_rpc keccak recover v fn) fn = Inr fn' \<and> fn_inv e fn'"
proof (cases "Vote_rpc keccak recover v fn")
  case (Inl er)
  then have "er \<noteq> RpcPanic"
    by (auto simp: Vote_rpc_def Let_def check_sign_def find_league_def result_bind_Inl
        split: option.splits if_splits sum.splits)
  then show ?thesis using Inl assms by (cases er) (auto simp: serve_def)
next
  case (Inr fn')
  then obtain otp n w where w: "fn' = fn\<lparr>db := SaveVote otp n w (db fn)\<rparr>" "voted w \<noteq> None"
    by (auto simp: Vote_rpc_def Let_def voted_def split: option.splits if_splits sum.splits)
  have "leagues_inv e (fn\<lparr>db := SaveVote otp n w (db fn)\<rparr>)"
    by (rule leagues_inv_db) (use assms in \<open>auto simp: fn_inv_def GetVoters_SaveVote\<close>)
  moreover have "db_inv e (SaveVote otp n w (db fn))"
    using assms w(2) unfolding fn_inv_def db_inv_def
    by (auto simp: GetVoters_SaveVote blocks_distinct_def)
  ultimately show ?thesis using Inr w(1) by (simp add: serve_def fn_inv_def)
qed

lemma SendBlock_Inr:
  assumes "SendBlock keccak recover sign m fn = Inr fn'"
  obtains block otp l sg db' where "DecodeBlock (rb_Block m) = Inr block" "DecodeOtprn (hd_Otprn (header block)) = Inr otp"
    "map_of (leagues fn) (HashOtprn keccak otp) = Some l" "Status l = SEND_BLOCK"
    "BlockHash l = Some (block_Hash keccak block)" "Votehash l = Some (VoteHash (header block))"
    "sign (fairnode_hash keccak (header block)) = Some sg"
    "SaveFinalBlock keccak (WithFairnodeSign sg block) (db fn) = Inr db'" "fn' = fn\<lparr>db := db'\<rparr>"
  using assms
  by (auto simp: SendBlock_def find_league_def split: sum.splits if_splits option.splits)

lemma fairnode_hash_sign [simp]: "fairnode_hash keccak (h\<lparr>FairnodeSign := sg\<rparr>) = fairnode_hash keccak h"
  by (simp add: fairnode_hash_def Header_Hash_def hash_item_def)

lemma block_Hash_sign [simp]: "block_Hash keccak (WithFairnodeSign sg b) = block_Hash keccak b"
  by (simp add: block_Hash_def Header_Hash_def hash_item_def WithFairnodeSign_def)

lemma send_block_inv:
  assumes "env_ok e" "fn_inv e fn" "no_second_preimage e (rb_Block m) fn"
  shows "\<exists>fn'. serve (SendBlock (e_keccak e) (e_recover e) (e_sign e) m fn) fn = Inr fn' \<and> fn_inv e fn'"
proof (cases "SendBlock (e_keccak e) (e_recover e) (e_sign e) m fn")
  case (Inl er)
  have li: "map_of (leagues fn) h = Some l \<Longrightarrow> league_inv e fn h l" for h l
    using assms(2) by (auto simp: fn_inv_def leagues_inv_def)
  have "er \<noteq> RpcPanic"
  proof
    assume "er = RpcPanic"
    with Inl obtain h l where l: "map_of (leagues fn) h = Some l" "Status l = SEND_BLOCK" "BlockHash l = None \<or> Votehash l = None"
      by (auto simp: SendBlock_def check_sign_def find_league_def result_bind_Inl split: sum.splits if_splits option.splits)
    from li [OF l(1)] l(2,3) show False by (auto simp: league_inv_def late_def counted_def)
  qed
  then show ?thesis using Inl assms(2) by (cases er) (auto simp: serve_def)
next
  case (Inr fn')
  from SendBlock_Inr [OF this] obtain block otp l sg db' where b:
    "DecodeBlock (rb_Block m) = Inr block" "DecodeOtprn (hd_Otprn (header block)) = Inr otp"
    "map_of (leagues fn) (HashOtprn (e_keccak e) otp) = Some l"
    "e_sign e (fairnode_hash (e_keccak e) (header block)) = Some sg"
    "SaveFinalBlock (e_keccak e) (WithFairnodeSign sg block) (db fn) = Inr db'" "fn' = fn\<lparr>db := db'\<rparr>"
    by metis
  have "FnAddr otp = e_addr e"
    using assms(2,3) b(1-3) by (auto simp: no_second_preimage_def fn_inv_def leagues_inv_def league_inv_def)
  moreover have "e_recover e (fairnode_hash (e_keccak e) (header block)) sg = Some (e_addr e)"
    using assms(1) b(4) by (simp add: env_ok_def)
  ultimately have v: "VerifyFairnodeSign (e_keccak e) (e_recover e) (header (WithFairnodeSign sg block)) = Inr ()"
    using b(2) by (simp add: VerifyFairnodeSign_def ValidationSignHash_def WithFairnodeSign_def)
  have db': "BlockChain db' = BlockChain (db fn) @ [WithFairnodeSign sg block]" "VoteList db' = VoteList (db fn)"
    "OtprnList db' = OtprnList (db fn)"
    using b(5) by (auto simp: SaveFinalBlock_def split: if_splits)
  have "blocks_distinct (e_keccak e) db'"
    using mem_blocks.save_inv [OF _ b(5)] assms(2) by (simp add: fn_inv_def db_inv_def)
  then have "db_inv e db'" using assms(2) v db' by (auto simp: fn_inv_def db_inv_def GetVoters_def)
  moreover have "leagues_inv e (fn\<lparr>db := db'\<rparr>)"
    by (rule leagues_inv_db) (use assms(2) db' in \<open>auto simp: fn_inv_def GetVoters_def\<close>)
  ultimately show ?thesis using Inr b(6) by (simp add: serve_def fn_inv_def)
qed

subsection \<open>All reachable states\<close>

lemma exec_inv:
  assumes "env_ok e" "fn_inv e fn" "admissible e ev fn"
  shows "\<exists>fn'. exec e ev fn = Inr fn' \<and> fn_inv e fn'"
proof (cases ev)
  case Tick
  then show ?thesis using tick_inv [OF assms(1,2)] assms(2) by (auto simp: fn_inv_def)
next
  case (Timer rand cfg)
  then show ?thesis using timer_inv [OF assms(2)] assms(3) by simp
next
  case (MakePending rand cfg)
  then show ?thesis using pending_inv [OF assms(2)] assms(2,3) by auto
next
  case (EvHeartBeat cfg ip now m)
  then show ?thesis using heartbeat_inv [OF assms(2)] by simp
next
  case (EvRequestOtprn m)
  then show ?thesis using request_otprn_inv [OF assms(2)] by simp
next
  case (EvVote m)
  then show ?thesis using vote_inv [OF assms(2)] by simp
next
  case (EvSendBlock m)
  then show ?thesis using send_block_inv [OF assms(1,2)] assms(3) by simp
next
  case (Clean now)
  then show ?thesis using clean_inv [OF assms(2)] by simp
qed

lemma reachable_inv:
  assumes "env_ok e" "reachable e fn"
  shows "fn_inv e fn"
  using assms(2)
proof induction
  case start
  show ?case by (rule fn_inv_start)
next
  case (step fn ev fn')
  with exec_inv [OF assms(1) step.IH step.hyps(2)] show ?case by auto
qed

subsection \<open>Progress\<close>

text \<open>How many rounds of the leader's loop a league can take at most until it is final or rejected.\<close>

fun rank :: "Fairnode \<Rightarrow> FnStatus \<Rightarrow> nat" where
  "rank fn PENDING = 62 + (LEAGUE_WAIE_TIME_OUT - leageuWaitAttampt fn)"
| "rank fn MAKE_LEAGUE = 61"
| "rank fn MAKE_JOIN_TX = 60"
| "rank fn MAKE_BLOCK = 59"
| "rank fn LEAGUE_BROADCASTING = 58"
| "rank fn VOTE_START = 57"
| "rank fn VOTE_COUNTING = 56"
| "rank fn VOTE_COMPLETE = 55"
| "rank fn SEND_BLOCK = 2 + (SEND_BLOCK_TIME_OUT - sendBlockAttampt fn)"
| "rank fn REQ_FAIRNODE_SIGN = 1"
| "rank fn _ = 0"

lemma rank_bound: "rank fn s \<le> 87"
  by (cases s) (simp_all add: LEAGUE_WAIE_TIME_OUT_def SEND_BLOCK_TIME_OUT_def)

lemma attempts_set_league [simp]:
  "leageuWaitAttampt (set_league h l fn) = leageuWaitAttampt fn" "sendBlockAttampt (set_league h l fn) = sendBlockAttampt fn"
  by (simp_all add: set_league_def)

definition decided :: "Fairnode \<Rightarrow> Hash \<Rightarrow> bool" where
  "decided fn c \<longleftrightarrow>
     currentLeague fn = Some c \<and> (\<exists>l. map_of (leagues fn) c = Some l \<and> Status l \<in> {FINALIZE, REJECT})"

lemma tick_progress:
  assumes "env_ok e" "fn_inv e fn" "currentLeague fn = Some c" "map_of (leagues fn) c = Some l" "\<not> decided fn c"
    and "exec e Tick fn = Inr fn'"
  shows "currentLeague fn' = Some c \<and> (\<exists>l'. map_of (leagues fn') c = Some l' \<and> rank fn' (Status l') < rank fn (Status l))"
proof -
  have L: "league_inv e fn c l" using assms(2,4) by (auto simp: fn_inv_def leagues_inv_def)
  have st: "Status l \<notin> {FINALIZE, REJECT}" using assms(3-5) by (auto simp: decided_def)
  then have "\<not> signalled fn" using L assms(3) by (auto simp: league_inv_def)
  then have p: "processManageLoop (e_keccak e) (e_iter e) (e_votes_hash e) fn = Inr fn'" using assms(6) by simp
  have bad: "Status l \<notin> {SAVE_OTPRN, MAKE_PENDING_LEAGUE, SEND_BLOCK_WAIT}" using L unfolding league_inv_def by blast
  note p' = p [unfolded processManageLoop_def assms(3,4) option.case]
  note limits = LEAGUE_WAIE_TIME_OUT_def SEND_BLOCK_TIME_OUT_def
  show ?thesis
  proof (cases "Status l")
    case PENDING
    then show ?thesis using p' assms(3,4) by (auto simp: tick_pending_def Let_def limits)
  next
    case MAKE_JOIN_TX
    then show ?thesis using p' assms(3) by (auto simp: tick_make_join_tx_def)
  next
    case VOTE_COUNTING
    then show ?thesis using p' assms(3)
      by (auto simp: tick_vote_counting_def Let_def split: option.splits if_splits)
  next
    case SEND_BLOCK
    then show ?thesis using p' assms(3,4)
      by (auto simp: tick_send_block_def Let_def limits split: option.splits if_splits)
  qed (use p' st bad assms(3) in \<open>auto simp: limits\<close>)
qed

text \<open>Every other event leaves the current league and the counters alone while it is undecided.\<close>

definition same_leagues :: "Fairnode \<Rightarrow> Fairnode \<Rightarrow> bool" where
  "same_leagues fn fn' \<longleftrightarrow>
     currentLeague fn' = currentLeague fn \<and> leagues fn' = leagues fn \<and>
     leageuWaitAttampt fn' = leageuWaitAttampt fn \<and> sendBlockAttampt fn' = sendBlockAttampt fn"

lemma same_leagues_simps [simp]: "same_leagues fn fn" "same_leagues fn (fn\<lparr>db := m\<rparr>)"
  by (simp_all add: same_leagues_def)

lemma same_leagues_rank: "same_leagues fn fn' \<Longrightarrow> rank fn' s = rank fn s"
  by (cases s) (simp_all add: same_leagues_def)

lemma serve_leagues:
  assumes "serve r fn = Inr fn'" "\<And>x. r = Inr x \<Longrightarrow> same_leagues fn x"
  shows "same_leagues fn fn'"
  using assms by (cases r) (auto simp: serve_def split: rpc_error.splits)

lemma other_event_keeps:
  assumes "ev \<noteq> Tick" "exec e ev fn = Inr fn'" "currentLeague fn \<noteq> None" "\<not> signalled fn"
  shows "same_leagues fn fn'"
proof (cases ev)
  case (EvHeartBeat cfg ip now m)
  have "same_leagues fn x" if "HeartBeat_rpc (e_keccak e) (e_recover e) cfg ip now m fn = Inr x" for x
    using that by (auto simp: HeartBeat_rpc_def split: option.splits if_splits)
  with assms(2) show ?thesis unfolding EvHeartBeat exec.simps by (rule serve_leagues)
next
  case (EvRequestOtprn m)
  have "same_leagues fn x" if "map_sum id snd (RequestOtprn (e_keccak e) (e_recover e) (e_int63 e) m fn) = Inr x" for x
    using that
    by (cases "RequestOtprn (e_keccak e) (e_recover e) (e_int63 e) m fn")
      (auto simp: RequestOtprn_def Let_def split: option.splits if_splits sum.splits bool.splits)
  with assms(2) show ?thesis unfolding EvRequestOtprn exec.simps by (rule serve_leagues)
next
  case (EvVote m)
  have "same_leagues fn x" if "Vote_rpc (e_keccak e) (e_recover e) m fn = Inr x" for x
    using that by (auto simp: Vote_rpc_def Let_def split: option.splits if_splits sum.splits)
  with assms(2) show ?thesis unfolding EvVote exec.simps by (rule serve_leagues)
next
  case (EvSendBlock m)
  have "same_leagues fn x" if "SendBlock (e_keccak e) (e_recover e) (e_sign e) m fn = Inr x" for x
    by (rule SendBlock_Inr [OF that]) simp
  with assms(2) show ?thesis unfolding EvSendBlock exec.simps by (rule serve_leagues)
qed (use assms in \<open>auto simp: makeOtprn_timer_def cleanOldNode_def\<close>)

inductive run :: "env \<Rightarrow> Fairnode \<Rightarrow> fn_event list \<Rightarrow> Fairnode \<Rightarrow> bool" for e :: env where
  run_Nil: "run e fn [] fn"
| run_Cons: "admissible e ev fn \<Longrightarrow> exec e ev fn = Inr fn1 \<Longrightarrow> run e fn1 evs fn2 \<Longrightarrow> run e fn (ev # evs) fn2"

inductive_cases run_ConsE: "run e fn (ev # evs) fn2"

lemma run_decides:
  assumes "env_ok e"
  shows "run e fn evs fn2 \<Longrightarrow> fn_inv e fn \<Longrightarrow> currentLeague fn = Some c \<Longrightarrow> map_of (leagues fn) c = Some l \<Longrightarrow>
    rank fn (Status l) < count_list evs Tick \<Longrightarrow>
    \<exists>evs1 fn1 evs2. evs = evs1 @ evs2 \<and> run e fn evs1 fn1 \<and> decided fn1 c"
proof (induction arbitrary: l rule: run.induct)
  case (run_Nil fn)
  then show ?case by simp
next
  case (run_Cons ev fn fn1 evs fn2)
  show ?case
  proof (cases "decided fn c")
    case True
    then show ?thesis using run.run_Nil by (intro exI [of _ "[]"]) auto
  next
    case False
    have inv1: "fn_inv e fn1" using exec_inv [OF assms run_Cons.prems(1) run_Cons.hyps(1)] run_Cons.hyps(2) by auto
    have "\<exists>l1. currentLeague fn1 = Some c \<and> map_of (leagues fn1) c = Some l1 \<and> rank fn1 (Status l1) < count_list evs Tick"
    proof (cases "ev = Tick")
      case True
      then show ?thesis
        using tick_progress [OF assms run_Cons.prems(1-3) False] run_Cons.hyps(2) run_Cons.prems(4) by fastforce
    next
      case nt: False
      have "league_inv e fn c l" using run_Cons.prems(1,3) by (auto simp: fn_inv_def leagues_inv_def)
      then have "\<not> signalled fn" using False run_Cons.prems(2,3) by (auto simp: league_inv_def decided_def)
      then have k: "same_leagues fn fn1"
        using other_event_keeps [OF nt run_Cons.hyps(2)] run_Cons.prems(2) by simp
      then show ?thesis using run_Cons.prems(2-4) nt same_leagues_rank [OF k] by (auto simp: same_leagues_def)
    qed
    then obtain l1 where "currentLeague fn1 = Some c" "map_of (leagues fn1) c = Some l1" "rank fn1 (Status l1) < count_list evs Tick"
      by blast
    from run_Cons.IH [OF inv1 this] obtain evs1 fn' evs2 where "evs = evs1 @ evs2" "run e fn1 evs1 fn'" "decided fn' c" by blast
    with run_Cons.hyps show ?thesis
      by (intro exI [of _ "ev # evs1"] exI [of _ fn'] exI [of _ evs2]) (auto intro: run.run_Cons)
  qed
qed

end
