(* ===== verification/FairProps.thy ===== *)
theory FairProps
  imports FairSafety
begin

text \<open>
  Properties of the fairnode in every reachable state, and a run of one round with two miners that shows
  that the states the properties speak about exist.
\<close>

subsection \<open>A round with two miners\<close>

text \<open>Runs as a computation: \<open>play\<close> checks every event and performs it.\<close>

fun play :: "env \<Rightarrow> fn_event list \<Rightarrow> Fairnode \<Rightarrow> Fairnode option" where
  "play e [] fn = Some fn"
| "play e (ev # evs) fn =
     (if admissible e ev fn then (case exec e ev fn of Inl _ \<Rightarrow> None | Inr fn' \<Rightarrow> play e evs fn') else None)"

lemma play_run: "play e evs fn = Some fn' \<Longrightarrow> run e fn evs fn'"
  by (induction evs arbitrary: fn) (auto intro: run.intros split: if_splits sum.splits)

lemma run_reachable: "run e fn evs fn' \<Longrightarrow> reachable e fn \<Longrightarrow> reachable e fn'"
  by (induction rule: run.induct) (auto intro: reachable.step)

definition zero_hash :: hash_fun where
  "zero_hash b = 0"

definition sample_env :: env where
  "sample_env = \<lparr>e_keccak = zero_hash, e_recover = (\<lambda>_ _. Some 7), e_sign = (\<lambda>_. Some [1]), e_addr = 7,
     e_iter = (\<lambda>xs. xs), e_votes_hash = (\<lambda>_. 0), e_int63 = (\<lambda>_. 0)\<rparr>"

definition sample_config :: ChainConfig where
  "sample_config = \<lparr>MinMiner = 2, BlockNumber = 0, FnFee = [], Mminer = 2, Epoch = 10, NodeVersion = [],
       cc_Price = \<lparr>JoinTxPrice = [], Price_GasPrice = 0, Price_GasLimit = 5000\<rparr>, cc_Sign = []\<rparr>"

definition league_otprn :: Otprn where
  "league_otprn = \<lparr>Rand = 1, FnAddr = 7, Cminer = 2, otp_Data = sample_config, otp_Sign = [1]\<rparr>"

definition round_header :: Header where
  "round_header = zero_header\<lparr>hd_Otprn := EncodeOtprn league_otprn\<rparr>"

definition round_block :: Block where
  "round_block = \<lparr>header = round_header, transactions = [], voters = []\<rparr>"

definition heartbeat_of :: "byte \<Rightarrow> HeartBeatMsg" where
  "heartbeat_of n = \<lparr>hb_Enode = [n], hb_MinerAddress = [0x37], hb_ChainID = [1], hb_NodeVersion = [1], hb_Ip = [],
     hb_Port = 30303, hb_Head = [0x30], hb_Sign = [1]\<rparr>"

definition vote_msg :: VoteMsg where
  "vote_msg = \<lparr>vm_Header = Header_Byte round_header, vm_VoterAddress = [0x37], vm_VoterSign = [1]\<rparr>"

definition send_msg :: ReqBlock where
  "send_msg = \<lparr>rb_Block = block_EncodeRLP round_block, rb_Address = [0x37], rb_Sign = [1]\<rparr>"

definition round_start :: "fn_event list" where
  "round_start =
     [EvHeartBeat (Some sample_config) (Some [1]) 0 (heartbeat_of 1), EvHeartBeat (Some sample_config) (Some [1]) 0 (heartbeat_of 2),
      Timer 1 (Some sample_config),
      EvRequestOtprn \<lparr>ro_Enode = [1], ro_MinerAddress = [0x37], ro_Sign = [1]\<rparr>,
      EvRequestOtprn \<lparr>ro_Enode = [2], ro_MinerAddress = [0x37], ro_Sign = [1]\<rparr>]"

lemma zero_hashes [simp]:
  "rlpHash zero_hash x = 0" "Header_Hash zero_hash h = 0" "HashOtprn zero_hash otp = 0" "rlpHash_args zero_hash vs = 0"
  "block_Hash zero_hash b = 0" "fairnode_hash zero_hash h = 0" "ChainConfig_Hash zero_hash c = 0"
  "heartbeat_hash zero_hash hb = 0" "vote_hash zero_hash a d = 0"
  by (simp_all add: rlpHash_def zero_hash_def Header_Hash_def HashOtprn_def rlpHash_args_def block_Hash_def fairnode_hash_def
      ChainConfig_Hash_def heartbeat_hash_def vote_hash_def split: option.splits)

lemma sample_env_simps [simp]:
  "e_keccak sample_env = zero_hash" "e_recover sample_env = (\<lambda>_ _. Some 7)" "e_sign sample_env = (\<lambda>_. Some [1])"
  "e_addr sample_env = 7" "e_iter sample_env = (\<lambda>xs. xs)" "e_votes_hash sample_env = (\<lambda>_. 0)" "e_int63 sample_env = (\<lambda>_. 0)"
  by (simp_all add: sample_env_def)

lemma sample_env_ok: "env_ok sample_env"
  by (simp add: env_ok_def)

lemma hex_seven [simp]: "HexToAddress [0x37] = 7"
  by code_simp

lemma hex_zero [simp]: "HexToHash [0x30] = 0"
  by code_simp

lemmas handlers =
  HeartBeat_rpc_def check_sign_def ValidationSignHash_def check_head_def CurrentInfo_def RequestOtprn_def GetActiveNode_def
  SaveActiveNode_def SaveLeague_def CurrentOtprn_def ValidateSignature_def IsJoinOK_def SaveOtprn_def
  makeOtprn_timer_def newOtprn_def logged_def SignOtprn_def NewOtprn_def addLeague_def set_league_def serve_def
  config_ok_def fresh_otprn_def half_epoch_def Let_def

lemma round_otprn_length: "length (encode (otprn_item league_otprn)) \<le> 200"
  by code_simp

lemma round_otprn_small: "length (encode (otprn_item league_otprn)) < 2 ^ 64"
  using round_otprn_length by (rule le_less_trans) simp

lemma round_otprn [simp]: "DecodeOtprn (EncodeOtprn league_otprn) = Inr league_otprn"
  unfolding DecodeOtprn_def EncodeOtprn_def by (rule otprn_codec.DecodeBytes_to_encode [OF round_otprn_small])

lemma length_EncodeOtprn: "length (EncodeOtprn league_otprn) \<le> 200"
  unfolding EncodeOtprn_def EncodeToBytes_encode [OF round_otprn_small] by (rule round_otprn_length)

lemma round_header_length: "length (encode (header_item round_header)) \<le> 1300"
  using length_header_item [of round_header] length_EncodeOtprn by (simp add: round_header_def zero_header_def)

lemma round_header_small: "length (encode (header_item round_header)) < 2 ^ 64"
  using round_header_length by (rule le_less_trans) simp

lemma round_block_small: "length (encode (block_item round_block)) < 2 ^ 64"
proof -
  have "length (encode (Lst [])) = 1" by code_simp
  then have "length (encode (block_item round_block)) \<le> 2000"
    unfolding block_item_def using round_header_length
    by (intro order_trans [OF length_encode_Lst]) (simp add: round_block_def)
  then show ?thesis by (rule le_less_trans) simp
qed

lemma round_header_decode [simp]: "DecodeBytes_to decodeHeader (Header_Byte round_header) = Inr round_header"
  unfolding Header_Byte_def by (rule header_codec.DecodeBytes_to_encode [OF round_header_small])

lemma round_block_decode [simp]: "DecodeBlock (block_EncodeRLP round_block) = Inr round_block"
  by (rule DecodeBlock_encode [OF _ round_block_small]) (simp add: legacy_only_def round_block_def)

lemma round_header_not_empty [simp]: "Header_Byte round_header \<noteq> []"
  unfolding Header_Byte_def EncodeToBytes_encode [OF round_header_small] by (rule encode_not_Nil)

lemma round_block_not_empty [simp]: "block_EncodeRLP round_block \<noteq> []"
  unfolding block_EncodeRLP_def EncodeToBytes_encode [OF round_block_small] by (rule encode_not_Nil)

lemma zero_rand: "MakeRand zero_hash j x y z = 0"
  unfolding MakeRand_eq by (simp add: csprng_def image_constant_conv zero_hash_def)

lemma round_difficulty [simp]: "ValidationDifficulty zero_hash round_header"
  by (simp add: ValidationDifficulty_def calcDifficultyDeb_eq zero_rand round_header_def zero_header_def Let_def)

definition round_events :: "fn_event list" where
  "round_events = round_start @ [EvVote vote_msg, Tick, Tick, Tick, Tick, Tick, Tick, Tick, Tick, EvSendBlock send_msg]"

lemmas handlers' = handlers Vote_rpc_def find_league_def SaveVote_def SendBlock_def SaveFinalBlock_def no_second_preimage_def
  processManageLoop_def tick_pending_def tick_make_join_tx_def tick_vote_counting_def GetLeagueList_def GetVoters_def

lemma one_vote_final: "ValidationFinalBlockHash zero_hash (\<lambda>xs. xs) [\<lparr>vt_Header = Header_Byte round_header, vt_Voter = a, VoteSign = sg\<rparr>] = Some 0"
  by (simp add: ValidationFinalBlockHash_def voteResult_def add_vote_def top_vote_def)

lemma round_header_simps [simp]: "hd_Otprn round_header = EncodeOtprn league_otprn" "Number round_header = 1" "VoteHash round_header = 0"
  by (simp_all add: round_header_def zero_header_def)

lemma round_block_simps [simp]: "header round_block = round_header" "FnAddr league_otprn = 7"
  by (simp_all add: round_block_def league_otprn_def)

lemma round_plays:
  "\<exists>fn l. play sample_env round_events new_fairnode = Some fn \<and> BlockChain (db fn) = [WithFairnodeSign [1] round_block] \<and>
     currentLeague fn = Some 0 \<and> map_of (leagues fn) 0 = Some l \<and> Status l = SEND_BLOCK \<and> BlockHash l = Some 0 \<and>
     Votehash l = Some 0 \<and> \<not> signalled fn"
  by (simp add: round_events_def round_start_def handlers' heartbeat_of_def new_fairnode_def NewMemDatabase_def sample_config_def
      vote_msg_def send_msg_def one_vote_final)

lemma round_reachable:
  "\<exists>fn l. reachable sample_env fn \<and> BlockChain (db fn) = [WithFairnodeSign [1] round_block] \<and>
     currentLeague fn = Some 0 \<and> map_of (leagues fn) 0 = Some l \<and> Status l = SEND_BLOCK \<and> BlockHash l = Some 0 \<and>
     Votehash l = Some 0 \<and> \<not> signalled fn"
  using round_plays run_reachable [OF play_run reachable.start] by metis

subsection \<open>Properties\<close>





text \<open>
  C10: Every block the fairnode has stored carries a signature that the miners accept: the check
  \<^verbatim>\<open>VerifyFairnodeSign\<close> of the deb engine succeeds on its header.
\<close>

theorem final_blocks_verify:
  assumes "env_ok e" "reachable e fn"
  shows "\<forall>b \<in> set (BlockChain (db fn)). VerifyFairnodeSign (e_keccak e) (e_recover e) (header b) = Inr ()"
  using reachable_inv [OF assms] by (simp add: fn_inv_def db_inv_def)

theorem final_blocks_verify_witness:
  "\<exists>fn. reachable sample_env fn \<and> BlockChain (db fn) = [WithFairnodeSign [1] round_block] \<and>
     VerifyFairnodeSign zero_hash (\<lambda>_ _. Some 7) (header (WithFairnodeSign [1] round_block)) = Inr ()"
proof -
  obtain fn where fn: "reachable sample_env fn" "BlockChain (db fn) = [WithFairnodeSign [1] round_block]"
    using round_reachable by blast
  with final_blocks_verify [OF sample_env_ok fn(1)] show ?thesis by auto
qed



text \<open>
  C14: A league always comes to an end.  Whatever requests arrive in between, after at most 88 rounds of the
  leader's loop the current league has been finalised or rejected.
\<close>

theorem league_decided_in_time:
  assumes "env_ok e" "reachable e fn" "currentLeague fn = Some c" "run e fn evs fn2" "88 \<le> count_list evs Tick"
  shows "\<exists>evs1 fn1 evs2. evs = evs1 @ evs2 \<and> run e fn evs1 fn1 \<and> decided fn1 c"
proof -
  have i: "fn_inv e fn" by (rule reachable_inv [OF assms(1,2)])
  then obtain l where "map_of (leagues fn) c = Some l" using assms(3) by (auto simp: fn_inv_def leagues_inv_def)
  with run_decides [OF assms(1,4) i assms(3)] rank_bound [of fn "Status l"] assms(5) show ?thesis by fastforce
qed

lemma count_ticks: "count_list (replicate n x) x = n"
  by (induction n) auto

lemma run_ticks:
  assumes "env_ok e"
  shows "fn_inv e fn \<Longrightarrow> \<exists>fn2. run e fn (replicate n Tick) fn2"
proof (induction n arbitrary: fn)
  case (Suc n)
  obtain fn1 where f: "exec e Tick fn = Inr fn1" "fn_inv e fn1" using exec_inv [OF assms Suc.prems, of Tick] by auto
  then obtain fn2 where "run e fn1 (replicate n Tick) fn2" using Suc.IH by blast
  with f(1) show ?case by (auto intro!: exI run.run_Cons)
qed (auto intro: run.run_Nil)

theorem league_decided_in_time_witness:
  "\<exists>fn evs1 fn1 evs2. reachable sample_env fn \<and> replicate 88 Tick = evs1 @ evs2 \<and> run sample_env fn evs1 fn1 \<and> decided fn1 0"
proof -
  obtain fn where fn: "reachable sample_env fn" "currentLeague fn = Some 0" using round_reachable by blast
  obtain fn2 where "run sample_env fn (replicate 88 Tick) fn2"
    using run_ticks [OF sample_env_ok reachable_inv [OF sample_env_ok fn(1)]] by blast
  moreover have "88 \<le> count_list (replicate 88 Tick) Tick" by (simp only: count_ticks)
  ultimately show ?thesis using league_decided_in_time [OF sample_env_ok fn(1,2)] fn(1) by blast
qed

primrec repeat_vote :: "hash_fun \<Rightarrow> recover_fun \<Rightarrow> VoteMsg \<Rightarrow> nat \<Rightarrow> Fairnode \<Rightarrow> rpc_error + Fairnode" where
  "repeat_vote keccak recover v 0 fn = Inr fn"
| "repeat_vote keccak recover v (Suc n) fn = result_bind (Vote_rpc keccak recover v fn) (repeat_vote keccak recover v n)"

lemma Vote_rpc_Inr:
  assumes "Vote_rpc keccak recover v fn = Inr fn1"
  obtains h otp where "DecodeBytes_to decodeHeader (vm_Header v) = Inr h" "DecodeOtprn (hd_Otprn h) = Inr otp"
    "\<And>m. Vote_rpc keccak recover v (fn\<lparr>db := m\<rparr>) = Inr (fn\<lparr>db := SaveVote (HashOtprn keccak otp) (Number h)
       \<lparr>vt_Header = vm_Header v, vt_Voter = HexToAddress (vm_VoterAddress v), VoteSign = vm_VoterSign v\<rparr> m\<rparr>)"
  using assms by (auto simp: Vote_rpc_def Let_def find_league_def split: sum.splits option.splits if_splits)



end
