(* ===== verification/DebClient.thy ===== *)
theory DebClient
  imports FairProps
begin

text \<open>
  The miner's side of the protocol (\<^verbatim>\<open>src/consensus/deb/client\<close>): the requests it signs and what it does with the
  replies and with the stream of statuses.

  \<open>sign\<close> is the wallet's \<^verbatim>\<open>SignHash\<close> with the miner's account.  The chain, the transaction pool and the
  worker behind the event feed are not part of the client: what it reads from them are arguments, what it
  tells them are actions.
\<close>

record DebClient =
  dc_Node :: HeartBeatMsg
  dc_Miner :: Address
  dc_FnAddress :: Address
  dc_otprn :: "(Hash \<times> Otprn) list"

datatype client_error = ErrClientSign | ErrRpc | ErrDecodeOtprn rlp_error | ErrVerify sig_error | ErrBalance | ErrBlockNumber

subsection \<open>Requests\<close>

definition submit :: "hash_fun \<Rightarrow> (Hash \<Rightarrow> byte list option) \<Rightarrow> Hash \<Rightarrow> DebClient \<Rightarrow> client_error + HeartBeatMsg" where
  "submit keccak sign head dc =
     (let node = (dc_Node dc)\<lparr>hb_Head := Hash_String head\<rparr>
      in case sign (Miner_Hash keccak node) of
           None \<Rightarrow> Inl ErrClientSign
         | Some sg \<Rightarrow> Inr (node\<lparr>hb_Sign := sg\<rparr>))"

definition otprn_request :: "hash_fun \<Rightarrow> (Hash \<Rightarrow> byte list option) \<Rightarrow> DebClient \<Rightarrow> client_error + ReqOtprn" where
  "otprn_request keccak sign dc =
     (case sign (rlpHash_args keccak [GoString (hb_Enode (dc_Node dc)), GoString (hb_MinerAddress (dc_Node dc))]) of
        None \<Rightarrow> Inl ErrClientSign
      | Some sg \<Rightarrow> Inr \<lparr>ro_Enode = hb_Enode (dc_Node dc), ro_MinerAddress = hb_MinerAddress (dc_Node dc), ro_Sign = sg\<rparr>)"

text \<open>The reply to an OTPRN request; the flag says that a status loop is started for the new OTPRN.\<close>

definition reqOtprn_reply ::
  "hash_fun \<Rightarrow> recover_fun \<Rightarrow> bool \<times> byte list \<Rightarrow> DebClient \<Rightarrow> client_error + bool \<times> DebClient" where
  "reqOtprn_reply keccak recover res dc =
     (case res of (success, bs) \<Rightarrow>
        if \<not> success then Inr (False, dc)
        else if bs = [] then Inr (False, dc)
        else
          (case DecodeOtprn bs of
             Inl e \<Rightarrow> Inl (ErrDecodeOtprn e)
           | Inr otp \<Rightarrow>
               (case ValidateSignature keccak recover otp of
                  Inl e \<Rightarrow> Inl (ErrVerify e)
                | Inr _ \<Rightarrow>
                    (case map_of (dc_otprn dc) (HashOtprn keccak otp) of
                       Some _ \<Rightarrow> Inr (False, dc)
                     | None \<Rightarrow>
                         Inr (True, dc\<lparr>dc_otprn := AList.update (HashOtprn keccak otp) otp (dc_otprn dc)\<rparr>)))))"

definition participate :: "hash_fun \<Rightarrow> (Hash \<Rightarrow> byte list option) \<Rightarrow> Otprn \<Rightarrow> DebClient \<Rightarrow> client_error + Participate" where
  "participate keccak sign otp dc =
     (let m = \<lparr>pa_Enode = hb_Enode (dc_Node dc), pa_MinerAddress = hb_MinerAddress (dc_Node dc),
               pa_OtprnHash = hash_bytes (HashOtprn keccak otp), pa_Sign = []\<rparr>
      in case sign (participate_hash keccak m) of None \<Rightarrow> Inl ErrClientSign | Some sg \<Rightarrow> Inr (m\<lparr>pa_Sign := sg\<rparr>))"

definition client_vote :: "hash_fun \<Rightarrow> (Hash \<Rightarrow> byte list option) \<Rightarrow> Address \<Rightarrow> Block \<Rightarrow> client_error + VoteMsg" where
  "client_vote keccak sign addr block =
     (let m = \<lparr>vm_Header = Header_Byte (header block), vm_VoterAddress = Address_String keccak addr, vm_VoterSign = []\<rparr>
      in case sign (vote_hash keccak (vm_Header m) (vm_VoterAddress m)) of
           None \<Rightarrow> Inl ErrClientSign
         | Some sg \<Rightarrow> Inr (m\<lparr>vm_VoterSign := sg\<rparr>))"

definition vote_result_request :: "hash_fun \<Rightarrow> (Hash \<Rightarrow> byte list option) \<Rightarrow> Otprn \<Rightarrow> DebClient \<Rightarrow> client_error + ReqVoteResult" where
  "vote_result_request keccak sign otp dc =
     (let m = \<lparr>rv_OtprnHash = hash_bytes (HashOtprn keccak otp), rv_Address = hb_MinerAddress (dc_Node dc), rv_Sign = []\<rparr>
      in case sign (rlpHash_args keccak [GoBytes (rv_OtprnHash m), GoString (rv_Address m)]) of
           None \<Rightarrow> Inl ErrClientSign
         | Some sg \<Rightarrow> Inr (m\<lparr>rv_Sign := sg\<rparr>))"

fun accept_votes :: "hash_fun \<Rightarrow> recover_fun \<Rightarrow> VoteMsg list \<Rightarrow> Voter list option" where
  "accept_votes keccak recover [] = Some []"
| "accept_votes keccak recover (v # vs) =
     (case ValidationSignHash recover (vm_VoterSign v) (vote_hash keccak (vm_Header v) (vm_VoterAddress v))
             (HexToAddress (vm_VoterAddress v)) of
        Inl _ \<Rightarrow> None
      | Inr _ \<Rightarrow>
          (case accept_votes keccak recover vs of
             None \<Rightarrow> None
           | Some ws \<Rightarrow>
               Some (\<lparr>vt_Header = vm_Header v, vt_Voter = HexToAddress (vm_VoterAddress v), VoteSign = vm_VoterSign v\<rparr> # ws)))"

text \<open>A reply without votes leaves the slice of voters nil, which the caller takes for a failure.\<close>

definition nil_slice :: "'a list option \<Rightarrow> 'a list option" where
  "nil_slice r = (if r = Some [] then None else r)"

definition requestVoteResult :: "hash_fun \<Rightarrow> recover_fun \<Rightarrow> DebClient \<Rightarrow> ResVoteResult \<Rightarrow> Voter list option" where
  "requestVoteResult keccak recover dc res =
     (case ValidationSignHash recover (vr_Sign res) (vote_result_hash keccak res) (dc_FnAddress dc) of
        Inl _ \<Rightarrow> None
      | Inr _ \<Rightarrow> if vr_Success res then nil_slice (accept_votes keccak recover (vr_Voters res)) else None)"

definition seal_request :: "hash_fun \<Rightarrow> (Hash \<Rightarrow> byte list option) \<Rightarrow> Otprn \<Rightarrow> Block \<Rightarrow> DebClient \<Rightarrow> client_error + ReqConfirmSeal" where
  "seal_request keccak sign otp block dc =
     (let m = \<lparr>rc_OtprnHash = hash_bytes (HashOtprn keccak otp), rc_BlockHash = hash_bytes (block_Hash keccak block),
               rc_VoteHash = hash_bytes (VoteHash (header block)), rc_Address = hb_MinerAddress (dc_Node dc), rc_Sign = []\<rparr>
      in case sign (seal_hash keccak m) of None \<Rightarrow> Inl ErrClientSign | Some sg \<Rightarrow> Inr (m\<lparr>rc_Sign := sg\<rparr>))"

definition sendBlock :: "hash_fun \<Rightarrow> (Hash \<Rightarrow> byte list option) \<Rightarrow> Block \<Rightarrow> DebClient \<Rightarrow> client_error + ReqBlock" where
  "sendBlock keccak sign block dc =
     (let m = \<lparr>rb_Block = block_EncodeRLP block, rb_Address = hb_MinerAddress (dc_Node dc), rb_Sign = []\<rparr>
      in case sign (rlpHash_args keccak [GoBytes (rb_Block m), GoString (rb_Address m)]) of
           None \<Rightarrow> Inl ErrClientSign
         | Some sg \<Rightarrow> Inr (m\<lparr>rb_Sign := sg\<rparr>))"

definition requestFairnodeSign_reply :: "hash_fun \<Rightarrow> recover_fun \<Rightarrow> DebClient \<Rightarrow> ResFairnodeSign \<Rightarrow> byte list option" where
  "requestFairnodeSign_reply keccak recover dc res =
     (case ValidationSignHash recover (fs_Sign res) (rlpHash_args keccak [GoBytes (fs_Signature res)]) (dc_FnAddress dc) of
        Inl _ \<Rightarrow> None
      | Inr _ \<Rightarrow> Some (fs_Signature res))"

subsection \<open>The status loops\<close>

datatype client_action =
    ActSetOtprn Otprn
  | ActJoinTx TxData
  | ActMakeBlock Otprn
  | ActBroadcast
  | ActVote
  | ActVoteComplete
  | ActFinalize
  | ActDeleteOtprn Hash
  | ActSendBlock
  | ActRequestSign
  | ActNone

text \<open>
  What the client reads from the chain when it joins: the number of the head, balance, nonce and join nonce
  of the miner, and the least balance (\<^verbatim>\<open>JoinTxPrice\<close> times epoch, computed in \<^verbatim>\<open>big.Float\<close>).
\<close>

record chain_view =
  cv_number :: nat
  cv_balance :: nat
  cv_limit :: nat
  cv_nonce :: u64
  cv_joinNonce :: u64
  cv_jtx :: Address

definition make_join_tx ::
  "hash_fun \<Rightarrow> (TxData \<Rightarrow> TxData option) \<Rightarrow> chain_view \<Rightarrow> ProcessMessage \<Rightarrow> Otprn \<Rightarrow> DebClient \<Rightarrow> client_error + client_action" where
  "make_join_tx keccak signTx cv m otp dc =
     (if cv_number cv = be_val (pm_CurrentBlockNum m) then
        (if cv_balance cv < cv_limit cv then Inl ErrBalance
         else
           (case NewJoinTransaction keccak (cv_jtx cv) (cv_nonce cv) (cv_joinNonce cv) (EncodeOtprn otp) (dc_Miner dc) of
              None \<Rightarrow> Inl ErrClientSign
            | Some tx \<Rightarrow> (case signTx tx of None \<Rightarrow> Inl ErrClientSign | Some stx \<Rightarrow> Inr (ActJoinTx stx))))
      else Inl ErrBlockNumber)"

text \<open>
  One message of the stream, \<open>stCode\<close> being the last code seen: a bad signature ends the loop, a repeated
  code is skipped.
\<close>

definition receive_status ::
  "hash_fun \<Rightarrow> recover_fun \<Rightarrow> (TxData \<Rightarrow> TxData option) \<Rightarrow> chain_view \<Rightarrow> Otprn \<Rightarrow> ProcessMessage \<Rightarrow> ProcessStatus \<Rightarrow> DebClient \<Rightarrow>
   client_error + ProcessStatus \<times> client_action \<times> DebClient" where
  "receive_status keccak recover signTx cv otp m stCode dc =
     (case ValidationSignHash recover (pm_Sign m) (process_hash keccak m) (dc_FnAddress dc) of
        Inl e \<Rightarrow> Inl (ErrVerify e)
      | Inr _ \<Rightarrow>
          if stCode = pm_Code m then Inr (stCode, ActNone, dc)
          else
            (case pm_Code m of
               PS_MAKE_LEAGUE \<Rightarrow> Inr (pm_Code m, ActSetOtprn otp, dc)
             | PS_MAKE_JOIN_TX \<Rightarrow> result_bind (make_join_tx keccak signTx cv m otp dc) (\<lambda>a. Inr (pm_Code m, a, dc))
             | PS_MAKE_BLOCK \<Rightarrow> Inr (pm_Code m, ActMakeBlock otp, dc)
             | PS_LEAGUE_BROADCASTING \<Rightarrow> Inr (pm_Code m, ActBroadcast, dc)
             | PS_VOTE_START \<Rightarrow> Inr (pm_Code m, ActVote, dc)
             | PS_VOTE_COMPLETE \<Rightarrow> Inr (pm_Code m, ActVoteComplete, dc)
             | PS_FINALIZE \<Rightarrow> Inr (pm_Code m, ActFinalize, dc)
             | PS_REJECT \<Rightarrow>
                 Inr (pm_Code m, ActDeleteOtprn (HashOtprn keccak otp), dc\<lparr>dc_otprn := AList.delete (HashOtprn keccak otp) (dc_otprn dc)\<rparr>)
             | _ \<Rightarrow> Inr (pm_Code m, ActNone, dc)))"

text \<open>One message of the seal confirmation; the reply to \<open>ActRequestSign\<close> decides whether the loop goes on.\<close>

definition receive_seal ::
  "hash_fun \<Rightarrow> recover_fun \<Rightarrow> DebClient \<Rightarrow> ProcessStatus \<times> byte list \<Rightarrow> ProcessStatus \<Rightarrow> client_error + ProcessStatus \<times> client_action" where
  "receive_seal keccak recover dc m stCode =
     (case m of (code, sg) \<Rightarrow>
        (case ValidationSignHash recover sg (confirm_hash keccak code) (dc_FnAddress dc) of
           Inl e \<Rightarrow> Inl (ErrVerify e)
         | Inr _ \<Rightarrow>
             if stCode = code then Inr (stCode, ActNone)
             else
               (case code of
                  PS_SEND_BLOCK \<Rightarrow> Inr (code, ActSendBlock)
                | PS_REQ_FAIRNODE_SIGN \<Rightarrow> Inr (code, ActRequestSign)
                | _ \<Rightarrow> Inr (code, ActNone))))"

definition client_close :: "DebClient \<Rightarrow> DebClient" where
  "client_close dc = dc\<lparr>dc_otprn := []\<rparr>"

subsection \<open>Both sides together\<close>

lemma accept_checked_votes:
  "check_votes keccak recover vs = Inr ms \<Longrightarrow> accept_votes keccak recover ms = Some vs"
proof (induction vs arbitrary: ms)
  case (Cons v vs)
  then show ?case by (auto simp: check_sign_def split: sum.splits)
qed simp

lemma RequestVoteResult_Inr:
  assumes "RequestVoteResult keccak recover sign iter m fn = Inr res"
  obtains l final where "map_of (leagues fn) (BytesToHash (rv_OtprnHash m)) = Some l"
    "check_votes keccak recover (GetVoters (MakeVoteKey (BytesToHash (rv_OtprnHash m)) (Current l + 1)) (db fn)) = Inr (vr_Voters res)"
    "ValidationFinalBlockHash keccak iter (GetVoters (MakeVoteKey (BytesToHash (rv_OtprnHash m)) (Current l + 1)) (db fn)) = Some final"
    "vr_BlockHash res = Hash_String final" "vr_Success res"
    "sign (vote_result_hash keccak (res\<lparr>vr_Sign := []\<rparr>)) = Some (vr_Sign res)"
    "GetVoters (MakeVoteKey (BytesToHash (rv_OtprnHash m)) (Current l + 1)) (db fn) \<noteq> []"
proof -
  from assms obtain l ms where l: "find_league (BytesToHash (rv_OtprnHash m)) fn = Inr l"
    "check_votes keccak recover (GetVoters (MakeVoteKey (BytesToHash (rv_OtprnHash m)) (Current l + 1)) (db fn)) = Inr ms"
    "GetVoters (MakeVoteKey (BytesToHash (rv_OtprnHash m)) (Current l + 1)) (db fn) \<noteq> []"
    and f: "(case ValidationFinalBlockHash keccak iter (GetVoters (MakeVoteKey (BytesToHash (rv_OtprnHash m)) (Current l + 1)) (db fn)) of
       None \<Rightarrow> Inl RpcPanic
     | Some final \<Rightarrow>
         (let msg = \<lparr>vr_Success = True, vr_BlockHash = Hash_String final, vr_Voters = ms, vr_Sign = []\<rparr>
          in case sign (vote_result_hash keccak msg) of None \<Rightarrow> Inl ErrSignHash | Some sg \<Rightarrow> Inr (msg\<lparr>vr_Sign := sg\<rparr>))) = Inr res"
    by (auto simp: RequestVoteResult_def Let_def split: if_split_asm)
  from l(1) have "map_of (leagues fn) (BytesToHash (rv_OtprnHash m)) = Some l"
    by (simp add: find_league_def split: option.split_asm)
  moreover from f obtain final sg where
    "ValidationFinalBlockHash keccak iter (GetVoters (MakeVoteKey (BytesToHash (rv_OtprnHash m)) (Current l + 1)) (db fn)) = Some final"
    "sign (vote_result_hash keccak \<lparr>vr_Success = True, vr_BlockHash = Hash_String final, vr_Voters = ms, vr_Sign = []\<rparr>) = Some sg"
    "res = \<lparr>vr_Success = True, vr_BlockHash = Hash_String final, vr_Voters = ms, vr_Sign = sg\<rparr>"
    by (auto simp: Let_def split: option.split_asm)
  ultimately show thesis using l(2,3) that [of l final] by simp
qed

text \<open>
  C21: The miners see the votes the fairnode counted.  When \<^verbatim>\<open>RequestVoteResult\<close> answers, a miner that knows the
  fairnode's address accepts the reply and obtains exactly the list of votes in the fairnode's database for
  the league's next block, in order; the block hash in the reply reads back as the hash the fairnode chose
  from these votes.
\<close>

theorem vote_result_roundtrip:
  assumes "RequestVoteResult keccak recover sign iter m fn = Inr res"
    and "\<forall>h sg. sign h = Some sg \<longrightarrow> recover h sg = Some (dc_FnAddress dc)"
  shows "\<exists>l final. map_of (leagues fn) (BytesToHash (rv_OtprnHash m)) = Some l \<and>
    requestVoteResult keccak recover dc res =
      Some (GetVoters (MakeVoteKey (BytesToHash (rv_OtprnHash m)) (Current l + 1)) (db fn)) \<and>
    ValidationFinalBlockHash keccak iter (GetVoters (MakeVoteKey (BytesToHash (rv_OtprnHash m)) (Current l + 1)) (db fn)) = Some final \<and>
    HexToHash (vr_BlockHash res) = final"
proof -
  obtain l final where r: "map_of (leagues fn) (BytesToHash (rv_OtprnHash m)) = Some l"
    "check_votes keccak recover (GetVoters (MakeVoteKey (BytesToHash (rv_OtprnHash m)) (Current l + 1)) (db fn)) = Inr (vr_Voters res)"
    "ValidationFinalBlockHash keccak iter (GetVoters (MakeVoteKey (BytesToHash (rv_OtprnHash m)) (Current l + 1)) (db fn)) = Some final"
    "vr_BlockHash res = Hash_String final" "vr_Success res"
    "sign (vote_result_hash keccak (res\<lparr>vr_Sign := []\<rparr>)) = Some (vr_Sign res)"
    "GetVoters (MakeVoteKey (BytesToHash (rv_OtprnHash m)) (Current l + 1)) (db fn) \<noteq> []"
    by (rule RequestVoteResult_Inr [OF assms(1)])
  have "vote_result_hash keccak (res\<lparr>vr_Sign := []\<rparr>) = vote_result_hash keccak res" by (simp add: vote_result_hash_def)
  then have "recover (vote_result_hash keccak res) (vr_Sign res) = Some (dc_FnAddress dc)" using assms(2) r(6) by simp
  then have "requestVoteResult keccak recover dc res =
      Some (GetVoters (MakeVoteKey (BytesToHash (rv_OtprnHash m)) (Current l + 1)) (db fn))"
    using r(5,7) accept_checked_votes [OF r(2)] by (simp add: requestVoteResult_def ValidationSignHash_def nil_slice_def)
  with r(1,3,4) show ?thesis by simp
qed

definition voting_fairnode :: Fairnode where
  "voting_fairnode = new_fairnode\<lparr>db := SaveVote 0 1 \<lparr>vt_Header = Header_Byte round_header, vt_Voter = 7, VoteSign = [1]\<rparr> NewMemDatabase,
     leagues := [(0, \<lparr>lg_Otprn = league_otprn, Status = VOTE_COMPLETE, Current = 0, BlockHash = Some 0, Votehash = Some 0\<rparr>)]\<rparr>"

definition sample_client :: DebClient where
  "sample_client = \<lparr>dc_Node = heartbeat_of 1, dc_Miner = 7, dc_FnAddress = 7, dc_otprn = []\<rparr>"

lemma zero_result [simp]: "BytesToHash [0] = 0" "vote_result_hash zero_hash r = 0"
  by (code_simp, simp add: vote_result_hash_def)

lemma voting_votes: "GetVoters (MakeVoteKey 0 (Suc 0)) (db voting_fairnode) = [\<lparr>vt_Header = Header_Byte round_header, vt_Voter = 7, VoteSign = [1]\<rparr>]"
  by (simp add: voting_fairnode_def GetVoters_SaveVote) (simp add: GetVoters_def NewMemDatabase_def)

theorem vote_result_roundtrip_witness:
  "\<exists>res. RequestVoteResult zero_hash (\<lambda>_ _. Some 7) (\<lambda>_. Some [1]) (\<lambda>xs. xs)
       \<lparr>rv_OtprnHash = [0], rv_Address = [0x37], rv_Sign = [1]\<rparr> voting_fairnode = Inr res \<and>
     requestVoteResult zero_hash (\<lambda>_ _. Some 7) sample_client res = Some [\<lparr>vt_Header = Header_Byte round_header, vt_Voter = 7, VoteSign = [1]\<rparr>]"
proof -
  let ?m = "\<lparr>rv_OtprnHash = [0], rv_Address = [0x37], rv_Sign = [1]\<rparr>"
  have l: "map_of (leagues voting_fairnode) 0 = Some \<lparr>lg_Otprn = league_otprn, Status = VOTE_COMPLETE, Current = 0, BlockHash = Some 0, Votehash = Some 0\<rparr>"
    by (simp add: voting_fairnode_def)
  obtain res where r: "RequestVoteResult zero_hash (\<lambda>_ _. Some 7) (\<lambda>_. Some [1]) (\<lambda>xs. xs) ?m voting_fairnode = Inr res"
    by (simp add: RequestVoteResult_def check_sign_def ValidationSignHash_def find_league_def l voting_votes one_vote_final Let_def)
  from vote_result_roundtrip [OF r, of sample_client] r l voting_votes show ?thesis by (auto simp: sample_client_def)
qed

subsection \<open>A vote that does not verify again\<close>

text \<open>A hash that tells the vote with the address spelt \<^verbatim>\<open>7\<close> from everything else.\<close>

definition spelt_vote :: item where
  "spelt_vote = Lst [Str (Header_Byte round_header), Str [0x37]]"

definition spelling_hash :: hash_fun where
  "spelling_hash b = (if b = EncodeToBytes spelt_vote then 1 else 0)"

lemma hd_encode_Lst: "hd (encode (Lst xs)) \<noteq> 0x30"
proof -
  have tag: "c + word_of_nat n \<noteq> (0x30 :: byte)" if "0xC0 \<le> unat c" "unat c + n < 256 + 48" for c :: byte and n
  proof
    assume "c + word_of_nat n = (0x30 :: byte)"
    from arg_cong [OF this, of unat] have "(unat c + n) mod 256 = 48" by (simp add: unat_word_ariths unat_of_nat mod_simps)
    with that show False by (cases "unat c + n < 256") (simp_all add: le_mod_geq)
  qed
  have "n < 56 \<Longrightarrow> 0xC0 + word_of_nat n \<noteq> (0x30 :: byte)" "0xF7 + word_of_nat (length (putint n)) \<noteq> (0x30 :: byte)" for n
    using length_putint(2) [of n] by (intro tag; simp)+
  then show ?thesis by (simp only: encode.simps puthead_def Let_def append.simps list.sel split: if_split) simp
qed

lemma round_header_bytes: "length (Header_Byte round_header) \<le> 1300"
  unfolding Header_Byte_def EncodeToBytes_encode [OF round_header_small] by (rule round_header_length)

lemma spelt_vote_small: "length (encode spelt_vote) < 2 ^ 64"
proof -
  from round_header_bytes have "length (encode spelt_vote) \<le> 2000"
    unfolding spelt_vote_def
    using length_encode_Str [of "Header_Byte round_header"] length_encode_Str [of "[0x37]"]
    by (intro order_trans [OF length_encode_Lst]) simp
  then show ?thesis by (rule le_less_trans) simp
qed

lemma spelling_hash_item: "x \<noteq> spelt_vote \<Longrightarrow> length (encode x) < 2 ^ 64 \<Longrightarrow> rlpHash spelling_hash x = 0"
  using encode_inject [of x spelt_vote]
  by (auto simp: rlpHash_def spelling_hash_def EncodeToBytes_encode [OF spelt_vote_small] EncodeToBytes_encode [of x])

lemma spelling_difficulty: "ValidationDifficulty spelling_hash round_header"
proof -
  have "csprng spelling_hash 0 x y z = 0" for x y z
  proof -
    have "hd (EncodeToBytes spelt_vote) \<noteq> 0x30"
      unfolding EncodeToBytes_encode [OF spelt_vote_small] unfolding spelt_vote_def by (rule hd_encode_Lst)
    then have "0x30 # b \<noteq> EncodeToBytes spelt_vote" for b by (metis list.sel(1))
    then show ?thesis by (simp add: csprng_def spelling_hash_def itoa.simps)
  qed
  then have "MakeRand spelling_hash 0 x y z = 0" for x y z
    by (simp add: MakeRand_eq rounds_def)
  then show ?thesis
    by (simp add: ValidationDifficulty_def calcDifficultyDeb_eq round_header_def zero_header_def Let_def)
qed

lemma spelling_otprn: "HashOtprn spelling_hash league_otprn = 0"
proof -
  let ?x = "Lst [array_item 20 (Rand league_otprn), rlp_uint (unat (Cminer league_otprn)), config_item (otp_Data league_otprn),
     array_item 20 (FnAddr league_otprn)]"
  have "length (encode (config_item (otp_Data league_otprn))) \<le> length (encode (otprn_item league_otprn))"
    unfolding otprn_item_def encode.simps Let_def length_append by (rule trans_le_add2, rule length_encode_elem) simp
  with round_otprn_length have c: "length (encode (config_item (otp_Data league_otprn))) \<le> 200" by (rule order_trans [rotated])
  have "unat (Cminer league_otprn) < 256 ^ 8" using unat_u64_less by simp
  note bounds = length_encode_array [of 20 "Rand league_otprn"] length_encode_uint [OF this] c length_encode_array [of 20 "FnAddr league_otprn"]
  have "length (encode ?x) \<le> 400"
    by (rule order_trans [OF length_encode_Lst]) (use bounds in \<open>simp only: list.map sum_list.Cons sum_list.Nil\<close>)
  then have "length (encode ?x) < 2 ^ 64" by (rule le_less_trans) simp
  then show ?thesis unfolding HashOtprn_def by (rule spelling_hash_item [rotated]) (simp only: spelt_vote_def item.inject list.inject, blast)
qed

lemma league_otprn_sign: "otp_Sign league_otprn = [1]"
  by (simp add: league_otprn_def)

lemma spelling_raw: "vote_hash spelling_hash (Header_Byte round_header) [0x37] = 1"
  by (simp add: vote_hash_def rlpHash_args_def rlpHash_def spelling_hash_def spelt_vote_def)

lemma spelling_canonical: "vote_hash spelling_hash (Header_Byte round_header) (Address_String k a) = 0"
proof -
  let ?x = "Lst [Str (Header_Byte round_header), Str (Address_String k a)]"
  have a: "length (Address_String k a) = 42" by (simp add: Address_String_def Let_def)
  have "length (Header_Byte round_header) \<le> 1300" by (rule round_header_bytes)
  then have "length (encode ?x) \<le> 2000"
    using length_encode_Str [of "Header_Byte round_header"] length_encode_Str [of "Address_String k a"] a
    by (intro order_trans [OF length_encode_Lst]) simp
  then have "length (encode ?x) < 2 ^ 64" by (rule le_less_trans) simp
  moreover have "?x \<noteq> spelt_vote" using a by (auto simp: spelt_vote_def)
  ultimately have "rlpHash spelling_hash ?x = 0" by (rule spelling_hash_item [rotated])
  then show ?thesis by (simp add: vote_hash_def rlpHash_args_def)
qed

text \<open>
  C39: One vote can block everybody's vote result.  \<^verbatim>\<open>Vote\<close> checks the signature over the voter's address as the
  voter spells it, \<^verbatim>\<open>RequestVoteResult\<close> checks it again over the checksummed spelling.  As soon as a vote is
  stored whose signature holds for the former but not for the latter, no miner gets a vote result for that
  block.
\<close>

theorem misspelt_vote_blocks_result:
  assumes "Vote_rpc keccak recover v fn = Inr fn1"
    and "DecodeBytes_to decodeHeader (vm_Header v) = Inr h" "DecodeOtprn (hd_Otprn h) = Inr otp"
    and "map_of (leagues fn) (HashOtprn keccak otp) = Some l" "Number h = Current l + 1"
    and "recover (vote_hash keccak (vm_Header v) (Address_String keccak (HexToAddress (vm_VoterAddress v)))) (vm_VoterSign v)
      \<noteq> Some (HexToAddress (vm_VoterAddress v))"
    and "BytesToHash (rv_OtprnHash m) = HashOtprn keccak otp"
  shows "\<exists>e. RequestVoteResult keccak recover sign iter m fn1 = Inl e"
proof (rule ccontr)
  assume "\<not> ?thesis"
  then obtain res where r: "RequestVoteResult keccak recover sign iter m fn1 = Inr res"
    by (cases "RequestVoteResult keccak recover sign iter m fn1") auto
  let ?w = "\<lparr>vt_Header = vm_Header v, vt_Voter = HexToAddress (vm_VoterAddress v), VoteSign = vm_VoterSign v\<rparr>"
  have fn1: "fn1 = fn\<lparr>db := SaveVote (HashOtprn keccak otp) (Number h) ?w (db fn)\<rparr>"
    using assms(1-3) by (auto simp: Vote_rpc_def Let_def split: sum.splits if_splits)
  have bad: "?w \<in> set vs \<Longrightarrow> check_votes keccak recover vs \<noteq> Inr ms" for vs ms
    using assms(6) by (induction vs arbitrary: ms) (auto simp: check_sign_def ValidationSignHash_def split: sum.splits option.splits if_splits)
  from RequestVoteResult_Inr [OF r] obtain l' where "map_of (leagues fn1) (HashOtprn keccak otp) = Some l'"
    "check_votes keccak recover (GetVoters (MakeVoteKey (HashOtprn keccak otp) (Current l' + 1)) (db fn1)) = Inr (vr_Voters res)"
    unfolding assms(7) by metis
  with assms(4,5) fn1 have "check_votes keccak recover (GetVoters (MakeVoteKey (HashOtprn keccak otp) (Number h)) (db fn1)) = Inr (vr_Voters res)"
    by simp
  moreover have "?w \<in> set (GetVoters (MakeVoteKey (HashOtprn keccak otp) (Number h)) (db fn1))"
    by (simp add: fn1 GetVoters_SaveVote)
  ultimately show False using bad by blast
qed

theorem misspelt_vote_blocks_result_witness:
  "\<exists>fn1 e. Vote_rpc spelling_hash (\<lambda>h sg. if h = 1 \<or> sg = [1] then Some 7 else None)
       \<lparr>vm_Header = Header_Byte round_header, vm_VoterAddress = [0x37], vm_VoterSign = [2]\<rparr>
       (new_fairnode\<lparr>leagues := [(0, \<lparr>lg_Otprn = league_otprn, Status = VOTE_START, Current = 0, BlockHash = None, Votehash = None\<rparr>)]\<rparr>)
       = Inr fn1 \<and>
     RequestVoteResult spelling_hash (\<lambda>h sg. if h = 1 \<or> sg = [1] then Some 7 else None) (\<lambda>_. Some [1]) (\<lambda>xs. xs)
       \<lparr>rv_OtprnHash = [0], rv_Address = [0x37], rv_Sign = [1]\<rparr> fn1 = Inl e"
proof -
  let ?r = "\<lambda>h sg. if h = 1 \<or> sg = [1] then Some 7 else None :: Address option"
  let ?v = "\<lparr>vm_Header = Header_Byte round_header, vm_VoterAddress = [0x37], vm_VoterSign = [2]\<rparr>"
  let ?l = "\<lparr>lg_Otprn = league_otprn, Status = VOTE_START, Current = 0, BlockHash = None, Votehash = None\<rparr>"
  let ?fn = "new_fairnode\<lparr>leagues := [(0, ?l)]\<rparr>"
  obtain fn1 where v: "Vote_rpc spelling_hash ?r ?v ?fn = Inr fn1"
    by (simp add: Vote_rpc_def check_sign_def ValidationSignHash_def ValidateSignature_def find_league_def spelling_otprn
        spelling_difficulty spelling_raw league_otprn_sign)
  note blocks = misspelt_vote_blocks_result [OF v, where h = round_header and otp = league_otprn and l = ?l
      and m = "\<lparr>rv_OtprnHash = [0], rv_Address = [0x37], rv_Sign = [1]\<rparr>" and sign = "\<lambda>_. Some [1]" and iter = "\<lambda>xs. xs"]
  have "\<exists>e. RequestVoteResult spelling_hash ?r (\<lambda>_. Some [1]) (\<lambda>xs. xs) \<lparr>rv_OtprnHash = [0], rv_Address = [0x37], rv_Sign = [1]\<rparr> fn1 = Inl e"
    by (rule blocks) (simp_all only: VoteMsg.simps round_header_decode round_header_simps round_otprn spelling_otprn spelling_canonical
        hex_seven ReqVoteResult.simps, simp_all add: BytesToHash_def)
  with v show ?thesis by blast
qed

end
