(* ===== verification/Trie_Keys.thy ===== *)
theory Trie_Keys
  imports Messages
begin

unbundle bit_operations_syntax

text \<open>
  The three encodings of trie keys (\<^verbatim>\<open>src/trie/encoding.go\<close>): bytes, nibbles with a terminator (\<^verbatim>\<open>HEX\<close>) and
  the compact form stored in nodes.

  An index out of range panics in Go and is \<open>None\<close> here.  \<open>decodeNibbles\<close> is called by its two callers
  on an even number of nibbles only.
\<close>

definition hasTerm :: "byte list \<Rightarrow> bool" where
  "hasTerm s = (length s > 0 \<and> s ! (length s - 1) = 16)"

fun decodeNibbles :: "byte list \<Rightarrow> byte list" where
  "decodeNibbles (a # b # ns) = (push_bit 4 a OR b) # decodeNibbles ns"
| "decodeNibbles _ = []"

definition hexToCompact :: "byte list \<Rightarrow> byte list" where
  "hexToCompact hex0 =
     (let terminator = (if hasTerm hex0 then 1 else 0 :: byte);
          hex = (if hasTerm hex0 then take (length hex0 - 1) hex0 else hex0);
          flag = push_bit 5 terminator
      in if odd (length hex) then (flag OR push_bit 4 1 OR hex ! 0) # decodeNibbles (drop 1 hex)
         else flag # decodeNibbles hex)"

definition keybytesToHex :: "byte list \<Rightarrow> byte list" where
  "keybytesToHex bs = concat (map (\<lambda>b. [b div 16, b mod 16]) bs) @ [16]"

definition compactToHex :: "byte list \<Rightarrow> byte list option" where
  "compactToHex compact =
     (let base = keybytesToHex compact;
          base' = (if base ! 0 < 2 then take (length base - 1) base else base);
          chop = unat (2 - (base ! 0 AND 1))
      in if chop \<le> length base' then Some (drop chop base') else None)"

definition hexToKeybytes :: "byte list \<Rightarrow> byte list option" where
  "hexToKeybytes hex0 =
     (let hex = (if hasTerm hex0 then take (length hex0 - 1) hex0 else hex0)
      in if odd (length hex) then None else Some (decodeNibbles hex))"

fun prefixLen :: "byte list \<Rightarrow> byte list \<Rightarrow> nat" where
  "prefixLen (a # as) (b # bs) = (if a = b then Suc (prefixLen as bs) else 0)"
| "prefixLen _ _ = 0"

subsection \<open>Well-formed keys\<close>

definition nibbles :: "byte list \<Rightarrow> bool" where
  "nibbles k \<longleftrightarrow> list_all (\<lambda>x. x < 16) k"

definition term_key :: "byte list \<Rightarrow> bool" where
  "term_key k \<longleftrightarrow> k \<noteq> [] \<and> last k = 16 \<and> nibbles (butlast k)"

lemma nibbles_simps [simp]:
  "nibbles []" "nibbles (x # k) \<longleftrightarrow> x < 16 \<and> nibbles k" "nibbles (k @ k') \<longleftrightarrow> nibbles k \<and> nibbles k'"
  by (simp_all add: nibbles_def)

lemma nibbles_take_drop: "nibbles k \<Longrightarrow> nibbles (take n k)" "nibbles k \<Longrightarrow> nibbles (drop n k)"
  by (auto simp: nibbles_def list_all_iff dest: in_set_takeD in_set_dropD)

lemma term_key_Nil [simp]: "\<not> term_key []"
  by (simp add: term_key_def)

lemma term_key_Cons: "term_key (x # k) \<longleftrightarrow> (if k = [] then x = 16 else x < 16 \<and> term_key k)"
  by (auto simp: term_key_def)

lemma term_key_append: "k' \<noteq> [] \<Longrightarrow> term_key (k @ k') \<longleftrightarrow> nibbles k \<and> term_key k'"
  by (induction k) (auto simp: term_key_Cons)

lemma term_key_iff: "term_key k \<longleftrightarrow> (\<exists>n. k = n @ [16] \<and> nibbles n)"
  unfolding term_key_def by (metis append_butlast_last_id butlast_snoc last_snoc snoc_eq_iff_butlast)

lemma hasTerm_last: "hasTerm k \<longleftrightarrow> k \<noteq> [] \<and> last k = 16"
  by (auto simp: hasTerm_def last_conv_nth)

lemma hasTerm_term: "term_key k \<Longrightarrow> hasTerm k"
  by (simp add: hasTerm_last term_key_def)

lemma hasTerm_nibbles: "nibbles k \<Longrightarrow> \<not> hasTerm k"
  by (auto simp: hasTerm_last nibbles_def list_all_iff) (metis last_in_set order_less_irrefl)

subsection \<open>Round trips\<close>

lemma nibble_pair:
  assumes "a < (16 :: byte)" "b < 16"
  shows "(push_bit 4 a OR b) div 16 = a \<and> (push_bit 4 a OR b) mod 16 = b"
proof -
  have "list_all (\<lambda>a. list_all (\<lambda>b. (push_bit 4 a OR b) div 16 = a \<and> (push_bit 4 a OR b) mod 16 = b)
      (map word_of_nat [0..<16])) (map word_of_nat [0..<16] :: byte list)"
    by code_simp
  with nibble_in [OF assms(1)] nibble_in [OF assms(2)] show ?thesis unfolding list_all_iff by blast
qed

lemma byte_nibbles: "push_bit 4 (b div 16) OR b mod 16 = (b :: byte)" "b div 16 < (16 :: byte)" "b mod 16 < (16 :: byte)"
proof -
  have d: "b div 16 = drop_bit 4 b" by (simp add: drop_bit_eq_div)
  have "b mod 2 ^ 4 = b AND mask 4" by (simp only: take_bit_eq_mod [symmetric] take_bit_eq_mask)
  then have m: "b mod 16 = b AND 15" by (simp add: mask_eq_exp_minus_1)
  show "push_bit 4 (b div 16) OR b mod 16 = b" "b div 16 < (16 :: byte)" "b mod 16 < (16 :: byte)"
    unfolding d m by (rule nibbles nibbles_less)+
qed

definition to_nibbles :: "byte list \<Rightarrow> byte list" where
  "to_nibbles bs = concat (map (\<lambda>b. [b div 16, b mod 16]) bs)"

lemma to_nibbles_simps [simp]: "to_nibbles [] = []" "to_nibbles (b # cs) = b div 16 # b mod 16 # to_nibbles cs"
  by (simp_all add: to_nibbles_def)

lemma keybytesToHex_eq: "keybytesToHex bs = to_nibbles bs @ [16]"
  by (simp add: keybytesToHex_def to_nibbles_def)

lemma nibbles_to_nibbles [simp]: "nibbles (to_nibbles bs)"
  by (induction bs) (simp_all add: byte_nibbles)

lemma even_to_nibbles [simp]: "even (length (to_nibbles bs))"
  by (induction bs) simp_all

lemma decode_to_nibbles [simp]: "decodeNibbles (to_nibbles bs) = bs"
  by (induction bs) (simp_all add: byte_nibbles)

lemma to_nibbles_decode: "nibbles ns \<Longrightarrow> even (length ns) \<Longrightarrow> to_nibbles (decodeNibbles ns) = ns"
  by (induction ns rule: decodeNibbles.induct) (auto simp: nibble_pair)

lemma term_keybytes [simp]: "term_key (keybytesToHex bs)"
  by (auto simp: term_key_iff keybytesToHex_eq)

lemma hexToKeybytes_keybytesToHex: "hexToKeybytes (keybytesToHex bs) = Some bs"
  by (simp add: hexToKeybytes_def keybytesToHex_eq hasTerm_last)

lemma keybytesToHex_inject [simp]: "keybytesToHex a = keybytesToHex b \<longleftrightarrow> a = b"
  by (metis hexToKeybytes_keybytesToHex option.inject)

text \<open>The flag byte in nibbles.\<close>

lemma flag_nibbles:
  assumes "x < (16 :: byte)"
  shows "(16 OR x) div 16 = 1" "(16 OR x) mod 16 = x" "(32 OR 16 OR x) div 16 = 3" "(32 OR 16 OR x) mod 16 = x"
proof -
  have "list_all (\<lambda>x. (16 OR x) div 16 = 1 \<and> (16 OR x) mod 16 = x \<and> (32 OR 16 OR x) div 16 = 3 \<and> (32 OR 16 OR x) mod 16 = x)
     (map word_of_nat [0..<16] :: byte list)" by code_simp
  with nibble_in [OF assms] show "(16 OR x) div 16 = 1" "(16 OR x) mod 16 = x" "(32 OR 16 OR x) div 16 = 3" "(32 OR 16 OR x) mod 16 = x"
    unfolding list_all_iff by blast+
qed

lemma compactToHex_hexToCompact:
  assumes "nibbles k \<or> term_key k"
  shows "compactToHex (hexToCompact k) = Some k"
proof -
  obtain t ns where k: "nibbles ns" "t \<in> {0, 1 :: byte}" "k = ns @ (if t = 1 then [16] else [])" "hasTerm k \<longleftrightarrow> t = 1"
  proof (cases "term_key k")
    case True
    then obtain ns where "k = ns @ [16]" "nibbles ns" by (auto simp: term_key_iff)
    then show ?thesis by (intro that [of ns 1]) (auto simp: hasTerm_last)
  next
    case False
    with assms have "nibbles k" by simp
    then show ?thesis by (intro that [of k 0]) (simp_all add: hasTerm_nibbles)
  qed
  have c: "hexToCompact k = (if odd (length ns) then (push_bit 5 t OR push_bit 4 1 OR ns ! 0) # decodeNibbles (drop 1 ns)
      else push_bit 5 t # decodeNibbles ns)"
    using k(2-4) by (auto simp: hexToCompact_def Let_def)
  show ?thesis
  proof (cases ns)
    case Nil
    with k(2,3) c show ?thesis by (auto simp: compactToHex_def keybytesToHex_eq Let_def flag_nibbles)
  next
    case (Cons x ms)
    with k(1) have x: "x < 16" "nibbles ms" by auto
    show ?thesis
    proof (cases "odd (length ns)")
      case True
      with Cons x(2) have "to_nibbles (decodeNibbles ms) = ms" by (intro to_nibbles_decode) simp_all
      with True Cons c k(2,3) x show ?thesis
        by (auto simp: compactToHex_def keybytesToHex_eq Let_def flag_nibbles)
    next
      case False
      with k(1) have "to_nibbles (decodeNibbles ns) = ns" by (intro to_nibbles_decode) simp_all
      with False Cons c k(2,3) show ?thesis
        by (auto simp: compactToHex_def keybytesToHex_eq Let_def flag_nibbles)
    qed
  qed
qed

lemma hexToCompact_inject:
  "nibbles k \<or> term_key k \<Longrightarrow> nibbles k' \<or> term_key k' \<Longrightarrow> hexToCompact k = hexToCompact k' \<longleftrightarrow> k = k'"
  by (metis compactToHex_hexToCompact option.inject)

subsection \<open>Common prefixes\<close>

lemma prefixLen_le: "prefixLen a b \<le> length a" "prefixLen a b \<le> length b"
  by (induction a b rule: prefixLen.induct) auto

lemma prefixLen_take: "take (prefixLen a b) a = take (prefixLen a b) b"
  by (induction a b rule: prefixLen.induct) auto

lemma prefixLen_differ: "prefixLen a b < length a \<Longrightarrow> prefixLen a b < length b \<Longrightarrow> a ! prefixLen a b \<noteq> b ! prefixLen a b"
  by (induction a b rule: prefixLen.induct) auto

lemma prefixLen_full: "prefixLen a b = length b \<longleftrightarrow> (\<exists>c. a = b @ c)"
  by (induction a b rule: prefixLen.induct) auto

end
