(* ===== verification/Trie_Tree.thy ===== *)
theory Trie_Tree
  imports Trie_Keys
begin

text \<open>
  The tree that a Merkle Patricia trie stands for, without caching data and with every node loaded: what a
  lookup, an insertion and a deletion mean, and the canonical form.

  Canonical trees with the same content are equal, so the tree, and whatever is computed from it, does
  not depend on the order in which its entries were made.  The theory \<open>Trie\<close> shows that the operations of
  the code implement these.
\<close>

datatype ptree = PNil | PValue "byte list" | PShort "byte list" ptree | PFull "ptree list"

fun strip :: "byte list \<Rightarrow> byte list \<Rightarrow> byte list option" where
  "strip [] r = Some r"
| "strip (x # xs) [] = None"
| "strip (x # xs) (y # ys) = (if x = y then strip xs ys else None)"

lemma strip_Some [simp]: "strip k key = Some r \<longleftrightarrow> key = k @ r"
  by (induction k key rule: strip.induct) auto

lemma strip_append: "strip (a @ b) key = Option.bind (strip a key) (strip b)"
  by (induction a key rule: strip.induct) auto

lemma strip_self [simp]: "strip k (k @ r) = Some r" "strip k k = Some []"
  by simp_all

lemma strip_None: "strip k key = None \<longleftrightarrow> (\<forall>r. key \<noteq> k @ r)"
  by (cases "strip k key") auto

lemma size_child [termination_simp]: "i < length cs \<Longrightarrow> size_class.size (cs ! i) < Suc (size_list size_class.size (cs :: ptree list))"
  unfolding less_Suc_eq_le by (rule size_list_estimation' [OF nth_mem order_refl])

lemma size_child_take [termination_simp]: "c \<in> set (take n cs) \<Longrightarrow> size_class.size c < Suc (size_list size_class.size (cs :: ptree list))"
  unfolding less_Suc_eq_le by (rule size_list_estimation' [OF in_set_takeD order_refl])

fun plookup :: "ptree \<Rightarrow> byte list \<Rightarrow> byte list option" where
  "plookup PNil k = None"
| "plookup (PValue v) k = (if k = [] then Some v else None)"
| "plookup (PShort p c) k = (case strip p k of None \<Rightarrow> None | Some r \<Rightarrow> plookup c r)"
| "plookup (PFull cs) [] = None"
| "plookup (PFull cs) (i # k) = (if unat i < length cs then plookup (cs ! unat i) k else None)"

definition put :: "byte list \<Rightarrow> ptree \<Rightarrow> ptree" where
  "put k c = (if k = [] then c else PShort k c)"

definition branch :: "byte list \<Rightarrow> ptree \<Rightarrow> byte list \<Rightarrow> ptree \<Rightarrow> ptree list" where
  "branch k c key v = (replicate 17 PNil)[unat (hd k) := put (tl k) c, unat (hd key) := put (tl key) v]"

fun pinsert :: "ptree \<Rightarrow> byte list \<Rightarrow> ptree \<Rightarrow> ptree" where
  "pinsert n [] v = v"
| "pinsert (PShort k c) (i # key) v =
     (let m = prefixLen (i # key) k
      in if m = length k then PShort k (pinsert c (drop m (i # key)) v)
         else put (take m (i # key)) (PFull (branch (drop m k) c (drop m (i # key)) v)))"
| "pinsert (PFull cs) (i # key) v =
     (if unat i < length cs then PFull (cs[unat i := pinsert (cs ! unat i) key v]) else PFull cs)"
| "pinsert n (i # key) v = PShort (i # key) v"

definition live :: "ptree list \<Rightarrow> nat list" where
  "live cs = filter (\<lambda>i. cs ! i \<noteq> PNil) [0..<length cs]"

definition preduce :: "ptree list \<Rightarrow> ptree" where
  "preduce cs =
     (case live cs of
        [p] \<Rightarrow> (case cs ! p of
                  PShort k c \<Rightarrow> if p \<noteq> 16 then PShort (word_of_nat p # k) c else PShort [word_of_nat p] (cs ! p)
                | _ \<Rightarrow> PShort [word_of_nat p] (cs ! p))
      | _ \<Rightarrow> PFull cs)"

definition pjoin :: "byte list \<Rightarrow> ptree \<Rightarrow> ptree" where
  "pjoin k c = (case c of PShort k' c' \<Rightarrow> PShort (k @ k') c' | _ \<Rightarrow> PShort k c)"

fun pdelete :: "ptree \<Rightarrow> byte list \<Rightarrow> ptree" where
  "pdelete PNil key = PNil"
| "pdelete (PValue v) key = PNil"
| "pdelete (PShort k c) key =
     (case strip k key of
        None \<Rightarrow> PShort k c
      | Some r \<Rightarrow> if r = [] then PNil else pjoin k (pdelete c r))"
| "pdelete (PFull cs) [] = PFull cs"
| "pdelete (PFull cs) (i # key) =
     (if unat i < length cs then preduce (cs[unat i := pdelete (cs ! unat i) key]) else PFull cs)"

subsection \<open>Canonical form\<close>

fun canon :: "ptree \<Rightarrow> bool" where
  "canon PNil = False"
| "canon (PValue v) = False"
| "canon (PShort k c) =
     (k \<noteq> [] \<and> (case c of PValue v \<Rightarrow> v \<noteq> [] \<and> term_key k | PFull cs \<Rightarrow> nibbles k \<and> canon c | _ \<Rightarrow> False))"
| "canon (PFull cs) =
     (length cs = 17 \<and> 2 \<le> length (live cs) \<and> (\<forall>c \<in> set (take 16 cs). c = PNil \<or> canon c) \<and>
      (case cs ! 16 of PNil \<Rightarrow> True | PValue v \<Rightarrow> v \<noteq> [] | _ \<Rightarrow> False))"

text \<open>What may stand at the end of a path: with the key used up a value, before that an inner node.\<close>

definition fits :: "ptree \<Rightarrow> byte list \<Rightarrow> bool" where
  "fits n key = (if key = [] then (case n of PNil \<Rightarrow> True | PValue v \<Rightarrow> v \<noteq> [] | _ \<Rightarrow> False)
                 else term_key key \<and> (n = PNil \<or> canon n))"

lemma term_append_cases: "term_key (k @ r) \<Longrightarrow> (r = [] \<and> term_key k) \<or> (r \<noteq> [] \<and> nibbles k \<and> term_key r)"
  by (cases "r = []") (auto simp: term_key_append)

lemma not_term_nibbles: "term_key k \<Longrightarrow> \<not> nibbles k"
  using hasTerm_term hasTerm_nibbles by blast

lemma fits_short: "canon (PShort k c) \<Longrightarrow> term_key (k @ r) \<Longrightarrow> fits c r"
  using term_append_cases [of k r] not_term_nibbles [of k] by (auto simp: fits_def split: ptree.splits)

lemma canon_full:
  "canon (PFull cs) \<longleftrightarrow> length cs = 17 \<and> 2 \<le> length (live cs) \<and> (\<forall>i < 16. cs ! i = PNil \<or> canon (cs ! i)) \<and>
     (cs ! 16 = PNil \<or> (\<exists>v. v \<noteq> [] \<and> cs ! 16 = PValue v))"
proof -
  have t: "set (take 16 cs) = (!) cs ` {0..<16}" if "length cs = 17"
    by (rule nth_image [symmetric]) (simp add: that)
  have v: "(case cs ! 16 of PNil \<Rightarrow> True | PValue v \<Rightarrow> v \<noteq> [] | _ \<Rightarrow> False) \<longleftrightarrow>
      cs ! 16 = PNil \<or> (\<exists>v. v \<noteq> [] \<and> cs ! 16 = PValue v)"
    by (cases "cs ! 16") simp_all
  show ?thesis
  proof (cases "length cs = 17")
    case True
    show ?thesis unfolding canon.simps v t [OF True] by fastforce
  qed (simp only: canon.simps, simp)
qed

declare canon.simps(4) [simp del]

lemma fits_simps:
  "fits n [] \<longleftrightarrow> n = PNil \<or> (\<exists>v. v \<noteq> [] \<and> n = PValue v)"
  "fits n (i # key) \<longleftrightarrow> term_key (i # key) \<and> (n = PNil \<or> canon n)"
  by (auto simp: fits_def split: ptree.splits)

lemma fits_full:
  assumes "canon (PFull cs)" "term_key (i # key)"
  shows "unat i < length cs" "fits (cs ! unat i) key"
proof -
  have c: "length cs = 17" "\<forall>i < 16. cs ! i = PNil \<or> canon (cs ! i)" "cs ! 16 = PNil \<or> (\<exists>v. v \<noteq> [] \<and> cs ! 16 = PValue v)"
    using assms(1) unfolding canon_full by blast+
  show "unat i < length cs"
    using assms(2) c(1) by (cases "key = []") (auto simp: term_key_Cons word_less_nat_alt)
  show "fits (cs ! unat i) key"
  proof (cases key)
    case Nil
    with assms(2) have "i = 16" by (simp add: term_key_Cons)
    with Nil c(3) show ?thesis by (simp add: fits_simps)
  next
    case (Cons j key')
    with assms(2) have i: "i < 16" "term_key key" by (simp_all add: term_key_Cons [of i])
    then have "unat i < 16" by (simp add: word_less_nat_alt)
    with Cons c(2) i(2) show ?thesis by (auto simp: fits_simps)
  qed
qed

lemma plookup_put: "plookup (put k c) key = (case strip k key of None \<Rightarrow> None | Some r \<Rightarrow> plookup c r)"
  by (simp add: put_def)

lemma plookup_branch:
  assumes "x \<noteq> y" "unat x < 17" "unat y < 17"
  shows "plookup (PFull (branch (y # b) c (x # a) d)) (z # r) =
    (if z = x then plookup (put a d) r else if z = y then plookup (put b c) r else None)"
  using assms by (auto simp: branch_def nth_list_update word_unat_eq_iff)

lemma plookup_put_value: "plookup (put a (PValue v)) r = (if r = a then Some v else None)"
  by (cases "strip a r") (auto simp: plookup_put)

lemma plookup_split:
  assumes "x \<noteq> y" "unat x < 17" "unat y < 17"
  shows "plookup (put p (PFull (branch (y # b) c (x # a) (PValue v)))) key =
    (if key = p @ x # a then Some v else plookup (PShort (p @ y # b) c) key)"
proof (cases "strip p key")
  case None
  then show ?thesis by (auto simp: plookup_put strip_append)
next
  case (Some r)
  then have k: "key = p @ r" by simp
  have l: "plookup (put p t) key = plookup t r" for t unfolding k by (simp add: plookup_put)
  have s: "plookup (PShort (p @ y # b) c) key = (case strip (y # b) r of None \<Rightarrow> None | Some r \<Rightarrow> plookup c r)"
    using Some by (simp add: strip_append del: strip_Some)
  show ?thesis
  proof (cases r)
    case (Cons z r')
    then show ?thesis unfolding l s unfolding Cons plookup_branch [OF assms] plookup_put_value unfolding plookup_put
      using assms(1) k Cons by auto
  qed (use k l s in simp)
qed

text \<open>Where a key leaves a short node.\<close>

lemma short_diverges:
  assumes "canon (PShort k c)" "term_key key" "prefixLen key k \<noteq> length k"
  obtains p x a y b where "key = p @ x # a" "k = p @ y # b" "x \<noteq> y" "prefixLen key k = length p"
proof -
  let ?m = "prefixLen key k"
  have mk: "?m < length k" using assms(3) prefixLen_le(2) [of key k] by simp
  have eq: "take ?m key = take ?m k" by (rule prefixLen_take)
  have "?m < length key"
  proof (rule ccontr)
    assume "\<not> ?thesis"
    with eq have "k = key @ drop ?m k" by (metis append_take_drop_id linorder_not_less take_all)
    then obtain r where k: "k = key @ r" by blast
    from not_term_nibbles [OF assms(2)] have "\<not> nibbles k" unfolding k by simp
    moreover have "\<not> term_key k"
    proof
      assume "term_key k"
      with k mk \<open>\<not> ?m < length key\<close> have "nibbles key" using term_append_cases [of key r] by auto
      with not_term_nibbles [OF assms(2)] show False ..
    qed
    ultimately show False using assms(1) by (auto split: ptree.splits)
  qed
  then have key: "key = take ?m key @ key ! ?m # drop (Suc ?m) key" and "key ! ?m \<noteq> k ! ?m"
    using mk by (simp_all add: id_take_nth_drop [symmetric] prefixLen_differ)
  moreover have "k = take ?m key @ k ! ?m # drop (Suc ?m) k" using mk unfolding eq by (rule id_take_nth_drop)
  ultimately show thesis using that \<open>?m < length key\<close> by (metis length_take min.absorb4)
qed

subsection \<open>Insertion\<close>

lemma canon_put: "canon (PShort (y # b) c) \<Longrightarrow> y = 16 \<and> b = [] \<and> (\<exists>v. v \<noteq> [] \<and> c = PValue v) \<or> y < 16 \<and> canon (put b c)"
  by (cases "b = []") (auto simp: put_def term_key_Cons split: ptree.splits)

lemma canon_put_byte: "canon (PShort (y # b) c) \<Longrightarrow> unat y < 17"
  using canon_put [of y b c] by (auto simp: word_less_nat_alt)

lemma canon_drop: "canon (PShort (p @ y # b) c) \<Longrightarrow> canon (PShort (y # b) c)"
  by (auto simp: term_key_append split: ptree.splits)

lemma canon_prefix: "canon (PShort (p @ y # b) c) \<Longrightarrow> nibbles p"
  by (auto simp: term_key_append split: ptree.splits)

lemma length_live: "length (live cs) = card {i. i < length cs \<and> cs ! i \<noteq> PNil}"
proof -
  have "distinct (live cs)" "set (live cs) = {i. i < length cs \<and> cs ! i \<noteq> PNil}" by (auto simp: live_def)
  then show ?thesis by (metis distinct_card)
qed

lemma live_two: "2 \<le> length (live cs)"
  if "i < length cs" "j < length cs" "i \<noteq> j" "cs ! i \<noteq> PNil" "cs ! j \<noteq> PNil"
proof -
  have "{i, j} \<subseteq> {i. i < length cs \<and> cs ! i \<noteq> PNil}" using that by auto
  from card_mono [OF _ this] that(3) show ?thesis by (simp add: length_live)
qed

lemma put_not_nil: "canon (put b c) \<Longrightarrow> put b c \<noteq> PNil"
  by auto

lemma canon_branch:
  assumes "canon (PShort (y # b) c)" "canon (PShort (x # a) d)" "x \<noteq> y"
  shows "canon (PFull (branch (y # b) c (x # a) d))"
proof -
  let ?cs = "branch (y # b) c (x # a) d"
  have u: "unat x < 17" "unat y < 17" "unat x \<noteq> unat y"
    using assms by (auto intro: canon_put_byte simp: word_unat_eq_iff)
  have n: "?cs ! i = (if i = unat x then put a d else if i = unat y then put b c else PNil)" if "i < 17" for i
    using u that by (simp add: branch_def nth_list_update)
  have px: "unat x < 16 \<and> canon (put a d) \<or> unat x = 16 \<and> (\<exists>v. v \<noteq> [] \<and> put a d = PValue v)"
    and py: "unat y < 16 \<and> canon (put b c) \<or> unat y = 16 \<and> (\<exists>v. v \<noteq> [] \<and> put b c = PValue v)"
    using canon_put [OF assms(1)] canon_put [OF assms(2)] by (auto simp: put_def word_less_nat_alt)
  have "?cs ! unat x \<noteq> PNil" "?cs ! unat y \<noteq> PNil" using n u px py by (auto simp: put_not_nil)
  then have "2 \<le> length (live ?cs)" using u by (intro live_two [of "unat x" _ "unat y"]) (simp_all add: branch_def)
  moreover have "length ?cs = 17" by (simp add: branch_def)
  moreover have "\<forall>i < 16. ?cs ! i = PNil \<or> canon (?cs ! i)" using n u px py by auto
  moreover have "?cs ! 16 = PNil \<or> (\<exists>v. v \<noteq> [] \<and> ?cs ! 16 = PValue v)" using n [of 16] px py by auto
  ultimately show ?thesis unfolding canon_full by blast
qed

lemma canon_update:
  assumes "canon (PFull cs)" "term_key (i # key)" "fits c key" "c \<noteq> PNil"
  shows "canon (PFull (cs[unat i := c]))"
proof -
  have f: "length cs = 17" "2 \<le> length (live cs)" "\<forall>i < 16. cs ! i = PNil \<or> canon (cs ! i)"
    "cs ! 16 = PNil \<or> (\<exists>v. v \<noteq> [] \<and> cs ! 16 = PValue v)"
    using assms(1) unfolding canon_full by blast+
  have i: "unat i < 17" using fits_full(1) [OF assms(1,2)] f(1) by simp
  have "{j. j < length cs \<and> cs ! j \<noteq> PNil} \<subseteq> {j. j < length (cs[unat i := c]) \<and> cs[unat i := c] ! j \<noteq> PNil}"
    using assms(4) i f(1) by (auto simp: nth_list_update split: if_splits)
  from card_mono [OF _ this] f(2) have "2 \<le> length (live (cs[unat i := c]))" by (simp add: length_live)
  moreover have "\<forall>j < 16. cs[unat i := c] ! j = PNil \<or> canon (cs[unat i := c] ! j)"
    using assms(2,3) f(1,3) i by (cases key) (auto simp: nth_list_update fits_simps term_key_Cons split: if_splits)
  moreover have "cs[unat i := c] ! 16 = PNil \<or> (\<exists>v. v \<noteq> [] \<and> cs[unat i := c] ! 16 = PValue v)"
  proof (cases key)
    case Nil
    with assms(2,3) have "i = 16" "c = PNil \<or> (\<exists>v. v \<noteq> [] \<and> c = PValue v)" by (simp_all add: term_key_Cons fits_simps)
    with f(1) show ?thesis by simp
  next
    case (Cons j key')
    with assms(2) have "i < 16" by (simp add: term_key_Cons [of i])
    then have "unat i \<noteq> 16" by (auto simp: word_less_nat_alt)
    with f(1,4) show ?thesis by (simp add: nth_list_update)
  qed
  ultimately show ?thesis using f(1) unfolding canon_full by simp
qed

text \<open>A short node keeps its form when its child is replaced by one of the same kind.\<close>

lemma canon_extend: "canon (PShort k c) \<Longrightarrow> term_key (k @ r) \<Longrightarrow> fits (pinsert c r (PValue v)) r \<Longrightarrow> v \<noteq> [] \<Longrightarrow> canon (PShort k (pinsert c r (PValue v)))"
  using term_append_cases [of k r] not_term_nibbles [of k]
  by (cases r) (auto simp: fits_simps split: ptree.splits if_splits)

lemma pinsert_match: "k \<noteq> [] \<Longrightarrow> pinsert (PShort k c) (k @ r) v = PShort k (pinsert c r v)"
proof -
  assume "k \<noteq> []"
  then obtain i key where k: "k @ r = i # key" by (cases k) auto
  have "prefixLen (i # key) k = length k" "drop (length k) (i # key) = r"
    unfolding k [symmetric] by (simp_all add: prefixLen_full)
  then show ?thesis unfolding k using pinsert.simps(2) [of k c i key v] by (simp add: Let_def del: drop_Cons')
qed

lemma prefixLen_split: "x \<noteq> y \<Longrightarrow> prefixLen (p @ x # a) (p @ y # b) = length p"
  by (induction p) auto

lemma pinsert_split:
  "x \<noteq> y \<Longrightarrow> pinsert (PShort (p @ y # b) c) (p @ x # a) v = put p (PFull (branch (y # b) c (x # a) v))"
proof -
  assume "x \<noteq> y"
  moreover obtain i key where k: "p @ x # a = i # key" by (cases p) auto
  moreover have "take (length p) (i # key) = p" "drop (length p) (i # key) = x # a" unfolding k [symmetric] by simp_all
  ultimately show ?thesis using pinsert.simps(2) [of "p @ y # b" c i key v] prefixLen_split [of x y p a b]
    by (simp add: Let_def del: take_Cons' drop_Cons')
qed

lemma pinsert_fits:
  assumes "fits n key" "v \<noteq> []"
  shows "fits (pinsert n key (PValue v)) key \<and> pinsert n key (PValue v) \<noteq> PNil"
  using assms
proof (induction n key "PValue v" rule: pinsert.induct)
  case (2 k c i key)
  have t: "term_key (i # key)" and c: "canon (PShort k c)" using 2(2) by (simp_all add: fits_simps)
  show ?case
  proof (cases "prefixLen (i # key) k = length k")
    case True
    then obtain r where r: "i # key = k @ r" using prefixLen_full by metis
    then have d: "drop (prefixLen (i # key) k) (i # key) = r" using True by simp
    have f: "fits c r" using fits_short [OF c] t r by simp
    with 2(1) [OF refl True] 2(3) have "fits (pinsert c r (PValue v)) r" unfolding d by auto
    moreover have "pinsert (PShort k c) (i # key) (PValue v) = PShort k (pinsert c r (PValue v))"
      using c pinsert_match unfolding r by simp
    moreover have "term_key (k @ r)" using t r by simp
    ultimately have "canon (pinsert (PShort k c) (i # key) (PValue v))" using canon_extend [OF c _ _ 2(3)] by (simp del: canon.simps)
    then show ?thesis using t by (auto simp only: fits_simps canon.simps)
  next
    case False
    then obtain p x a y b where p: "i # key = p @ x # a" "k = p @ y # b" "x \<noteq> y" "prefixLen (i # key) k = length p"
      by (rule short_diverges [OF c t])
    have "canon (PShort (y # b) c)" "nibbles p" using c p(2) canon_drop canon_prefix by blast+
    moreover have "canon (PShort (x # a) (PValue v))" using t 2(3) unfolding p(1) by (simp add: term_key_append)
    ultimately have "canon (PFull (branch (y # b) c (x # a) (PValue v)))" using p(3) by (intro canon_branch)
    with \<open>nibbles p\<close> have "canon (put p (PFull (branch (y # b) c (x # a) (PValue v))))" by (simp add: put_def)
    moreover have "pinsert (PShort k c) (i # key) (PValue v) = put p (PFull (branch (y # b) c (x # a) (PValue v)))"
      using p by (simp add: pinsert_split)
    ultimately show ?thesis using t by (auto simp only: fits_simps canon.simps)
  qed
next
  case (3 cs i key)
  have t: "term_key (i # key)" and c: "canon (PFull cs)" using 3(2) by (simp_all add: fits_simps)
  note f = fits_full [OF c t]
  with 3(1) [OF f(1) f(2) 3(3)] canon_update [OF c t] t show ?case by (auto simp: fits_simps)
qed (auto simp: fits_simps)

lemma plookup_pinsert:
  assumes "fits n key" "fits n key'" "key = [] \<longleftrightarrow> key' = []"
  shows "plookup (pinsert n key (PValue v)) key' = (if key' = key then Some v else plookup n key')"
  using assms
proof (induction n key "PValue v" arbitrary: key' rule: pinsert.induct)
  case (2 k c i key)
  have t: "term_key (i # key)" and c: "canon (PShort k c)" using 2(2) by (simp_all add: fits_simps)
  have t': "term_key key'" using 2(3,4) by (cases key') (simp_all add: fits_simps)
  show ?case
  proof (cases "prefixLen (i # key) k = length k")
    case True
    then obtain r where r: "i # key = k @ r" using prefixLen_full by metis
    have d: "drop (prefixLen (i # key) k) (i # key) = r" using r True by simp
    have f: "fits c r" using fits_short [OF c] t r by simp
    have e: "pinsert (PShort k c) (i # key) (PValue v) = PShort k (pinsert c r (PValue v))"
      using c pinsert_match unfolding r by simp
    show ?thesis
    proof (cases "strip k key'")
      case None
      with r show ?thesis unfolding e by auto
    next
      case (Some r')
      with t' have f': "fits c r'" using fits_short [OF c, of r'] by simp
      from Some t' t r have "r = [] \<longleftrightarrow> r' = []"
        using term_append_cases [of k r] term_append_cases [of k r'] not_term_nibbles [of k] by auto
      with 2(1) [OF refl True] f f' have "plookup (pinsert c r (PValue v)) r' = (if r' = r then Some v else plookup c r')"
        unfolding d by simp
      with Some r show ?thesis unfolding e by simp
    qed
  next
    case False
    then obtain p x a y b where p: "i # key = p @ x # a" "k = p @ y # b" "x \<noteq> y" "prefixLen (i # key) k = length p"
      by (rule short_diverges [OF c t])
    have u: "unat x < 17" "unat y < 17"
      using canon_put_byte [OF canon_drop [OF c [unfolded p(2)]]] t unfolding p(1)
      by (auto simp: term_key_append term_key_Cons word_less_nat_alt split: if_splits)
    have "pinsert (PShort k c) (i # key) (PValue v) = put p (PFull (branch (y # b) c (x # a) (PValue v)))"
      using p by (simp add: pinsert_split)
    moreover have "plookup (put p (PFull (branch (y # b) c (x # a) (PValue v)))) key' =
      (if key' = p @ x # a then Some v else plookup (PShort (p @ y # b) c) key')"
      using p(3) u by (rule plookup_split)
    ultimately show ?thesis using p(1,2) by simp
  qed
next
  case (3 cs i key)
  have t: "term_key (i # key)" and c: "canon (PFull cs)" using 3(2) by (simp_all add: fits_simps)
  note f = fits_full [OF c t]
  obtain j r where k: "key' = j # r" using 3(4) by (cases key') auto
  have t': "term_key (j # r)" using 3(3) k by (simp add: fits_simps)
  note f' = fits_full [OF c t']
  show ?case
  proof (cases "j = i")
    case True
    with t t' have "key = [] \<longleftrightarrow> r = []" by (auto simp: term_key_Cons split: if_splits)
    with True f f' k 3(1) [OF f(1,2), of r] show ?thesis by simp
  next
    case False
    then have "unat j \<noteq> unat i" by (simp add: word_unat_eq_iff)
    with False k f(1) show ?thesis by (simp add: nth_list_update)
  qed
qed (auto simp: fits_simps split: option.splits)

subsection \<open>Deletion\<close>

lemma plookup_pjoin: "plookup (pjoin k c) key = (case strip k key of None \<Rightarrow> None | Some r \<Rightarrow> plookup c r)"
proof (cases "strip k key")
  case None
  then show ?thesis by (auto simp: pjoin_def strip_append split: ptree.splits)
next
  case (Some r)
  then show ?thesis by (auto simp: pjoin_def strip_append split: ptree.splits)
qed

lemma live_single: "live cs = [p] \<Longrightarrow> p < length cs \<and> cs ! p \<noteq> PNil \<and> (\<forall>i < length cs. i \<noteq> p \<longrightarrow> cs ! i = PNil)"
proof -
  assume "live cs = [p]"
  then have "set (live cs) = {p}" by simp
  then have "{i. i < length cs \<and> cs ! i \<noteq> PNil} = {p}" by (simp add: live_def)
  then show ?thesis by blast
qed

lemma plookup_preduce:
  assumes "length cs = 17" "key \<noteq> []"
  shows "plookup (preduce cs) key = plookup (PFull cs) key"
proof -
  obtain z r where key: "key = z # r" using assms(2) by (cases key) auto
  show ?thesis
  proof (cases "\<exists>p. live cs = [p]")
    case True
    then obtain p where p: "live cs = [p]" by blast
    then have c: "p < 17" "\<forall>i < 17. i \<noteq> p \<longrightarrow> cs ! i = PNil" using live_single [OF p] assms(1) by simp_all
    then have z: "word_of_nat p = z \<longleftrightarrow> unat z = p" for z :: byte
      by (auto simp: word_unat_eq_iff unat_word_of_nat_byte)
    have "plookup (preduce cs) key = (if unat z = p then plookup (cs ! p) r else None)"
      using p key z by (auto simp: preduce_def split: ptree.splits option.splits)
    with c key assms(1) show ?thesis by simp
  next
    case False
    then have "preduce cs = PFull cs" by (auto simp: preduce_def split: list.splits)
    then show ?thesis by simp
  qed
qed

lemma plookup_pdelete:
  assumes "fits n key" "fits n key'" "key = [] \<longleftrightarrow> key' = []"
  shows "plookup (pdelete n key) key' = (if key' = key then None else plookup n key')"
  using assms
proof (induction n key arbitrary: key' rule: pdelete.induct)
  case (3 k c key)
  have "key \<noteq> []" using 3(2) by (auto simp: fits_def)
  then have t: "term_key key" "term_key key'" "canon (PShort k c)" using 3(2-4) by (auto simp: fits_def)
  show ?case
  proof (cases "strip k key")
    case None
    then show ?thesis by (auto simp: strip_None split: option.splits)
  next
    case (Some r)
    have f: "fits c r" using fits_short [OF t(3)] t(1) Some by simp
    show ?thesis
    proof (cases "r = []")
      case True
      with f Some t(2) show ?thesis by (auto simp: fits_simps split: option.splits)
    next
      case False
      show ?thesis
      proof (cases "strip k key'")
        case None
        with Some False show ?thesis by (auto simp: plookup_pjoin)
      next
        case r': (Some r')
        have "fits c r'" using fits_short [OF t(3)] t(2) r' by simp
        moreover have "r' \<noteq> []"
          using False f \<open>fits c r'\<close> t(3) by (auto simp: fits_def split: ptree.splits)
        ultimately show ?thesis using 3(1) [OF Some False f, of r'] False Some r' by (simp add: plookup_pjoin)
      qed
    qed
  qed
next
  case (5 cs i key)
  have t: "term_key (i # key)" and c: "canon (PFull cs)" using 5(2) by (simp_all add: fits_simps)
  note f = fits_full [OF c t]
  have l: "length cs = 17" using c by (simp add: canon_full)
  obtain j r where k: "key' = j # r" using 5(4) by (cases key') auto
  have t': "term_key (j # r)" using 5(3) k by (simp add: fits_simps)
  note f' = fits_full [OF c t']
  have e: "plookup (pdelete (PFull cs) (i # key)) key' = plookup (PFull (cs[unat i := pdelete (cs ! unat i) key])) key'"
    using f(1) l k by (simp add: plookup_preduce del: plookup.simps)
  show ?case
  proof (cases "j = i")
    case True
    with t t' have "key = [] \<longleftrightarrow> r = []" by (auto simp: term_key_Cons split: if_splits)
    with True f f' k 5(1) [OF f(1,2), of r] show ?thesis unfolding e by simp
  next
    case False
    then have "unat j \<noteq> unat i" by (simp add: word_unat_eq_iff)
    with False k f(1) show ?thesis unfolding e by (simp add: nth_list_update)
  qed
qed (auto simp: fits_simps fits_def)

lemma canon_preduce:
  assumes "length cs = 17" "live cs \<noteq> []" "\<forall>i < 16. cs ! i = PNil \<or> canon (cs ! i)"
    and "cs ! 16 = PNil \<or> (\<exists>v. v \<noteq> [] \<and> cs ! 16 = PValue v)"
  shows "canon (preduce cs)"
proof (cases "\<exists>p. live cs = [p]")
  case True
  then obtain p where p: "live cs = [p]" by blast
  then have c: "p < 17" "cs ! p \<noteq> PNil" using live_single [OF p] assms(1) by simp_all
  show ?thesis
  proof (cases "p = 16")
    case True
    with c(2) assms(4) p show ?thesis by (auto simp: preduce_def term_key_Cons)
  next
    case False
    with c(1) have l: "p < 16" by simp
    with c(2) assms(3) have "canon (cs ! p)" by auto
    moreover have "(word_of_nat p :: byte) < 16" using l by (simp add: word_less_nat_alt unat_word_of_nat_byte)
    ultimately show ?thesis using l
      by (cases "cs ! p") (auto simp: preduce_def p term_key_Cons split: ptree.splits)
  qed
next
  case False
  with assms(2) have "2 \<le> length (live cs)" by (cases "live cs"; cases "tl (live cs)") auto
  moreover have "preduce cs = PFull cs" using False by (auto simp: preduce_def split: list.splits)
  ultimately show ?thesis using assms by (simp add: canon_full)
qed

lemma live_update: "2 \<le> length (live cs) \<Longrightarrow> i < length cs \<Longrightarrow> live (cs[i := c]) \<noteq> []"
proof
  assume a: "2 \<le> length (live cs)" "i < length cs" "live (cs[i := c]) = []"
  let ?S = "{i. i < length cs \<and> cs ! i \<noteq> PNil}"
  have "set (live (cs[i := c])) = {}" using a(3) by simp
  then have "?S \<subseteq> {i}" using a(2) by (auto simp: live_def nth_list_update split: if_splits)
  from card_mono [OF _ this] a(1) show False by (simp add: length_live)
qed

lemma canon_pjoin: "canon (PShort k (PFull cs)) \<Longrightarrow> canon c \<Longrightarrow> canon (pjoin k c)"
  by (auto simp: pjoin_def term_key_append split: ptree.splits)

lemma canon_pdelete:
  assumes "canon n" "term_key key"
  shows "canon (pdelete n key) \<or> pdelete n key = PNil \<and> (\<exists>k v. n = PShort k (PValue v))"
  using assms
proof (induction n key rule: pdelete.induct)
  case (3 k c key)
  show ?case
  proof (cases "strip k key")
    case (Some r)
    have f: "fits c r" using fits_short [OF 3(2)] 3(3) Some by simp
    consider v where "c = PValue v" "r = []" | cs where "c = PFull cs" "r \<noteq> []" "term_key r" "canon c"
      using 3(2) f by (auto simp: fits_def split: ptree.splits if_splits)
    then show ?thesis
    proof cases
      case 1
      with Some show ?thesis by simp
    next
      case 2
      with 3(1) [OF Some 2(2,4,3)] have "canon (pdelete c r)" by auto
      with 2 3(2) Some canon_pjoin [of k cs "pdelete c r"] show ?thesis by (simp del: canon.simps)
    qed
  qed (use 3(2) in simp)
next
  case (5 cs i key)
  note f = fits_full [OF 5(2,3)]
  have c: "length cs = 17" "2 \<le> length (live cs)" "\<forall>i < 16. cs ! i = PNil \<or> canon (cs ! i)"
    "cs ! 16 = PNil \<or> (\<exists>v. v \<noteq> [] \<and> cs ! 16 = PValue v)"
    using 5(2) unfolding canon_full by blast+
  let ?cs = "cs[unat i := pdelete (cs ! unat i) key]"
  have i: "unat i < 17" using f(1) c(1) by simp
  have new: "if key = [] then unat i = 16 \<and> pdelete (cs ! unat i) key = PNil
    else unat i < 16 \<and> (pdelete (cs ! unat i) key = PNil \<or> canon (pdelete (cs ! unat i) key))"
  proof (cases key)
    case Nil
    with 5(3) f(2) show ?thesis by (auto simp: term_key_Cons fits_simps)
  next
    case (Cons j key')
    with 5(3) have "i < 16" "term_key key" by (simp_all add: term_key_Cons [of i])
    moreover have "pdelete (cs ! unat i) key = PNil \<or> canon (pdelete (cs ! unat i) key)"
      using 5(1) [OF f(1)] f(2) \<open>term_key key\<close> Cons by (auto simp: fits_simps)
    ultimately show ?thesis using Cons by (simp add: word_less_nat_alt)
  qed
  have "canon (preduce ?cs)"
  proof (rule canon_preduce)
    show "live ?cs \<noteq> []" using c(2) f(1) by (rule live_update)
    show "\<forall>j < 16. ?cs ! j = PNil \<or> canon (?cs ! j)"
      using c(1,3) i new by (auto simp: nth_list_update split: if_splits)
    show "?cs ! 16 = PNil \<or> (\<exists>v. v \<noteq> [] \<and> ?cs ! 16 = PValue v)"
      using c(1,4) i new by (auto simp: nth_list_update split: if_splits)
  qed (simp add: c(1))
  then show ?case using f(1) by simp
qed auto

lemma pdelete_fits: "fits n key \<Longrightarrow> fits (pdelete n key) key"
  using canon_pdelete [of n key] by (cases key) (auto simp: fits_simps)

subsection \<open>The content determines the tree\<close>

lemma canon_has_key: "canon n \<Longrightarrow> \<exists>k. term_key k \<and> plookup n k \<noteq> None"
proof (induction n rule: canon.induct)
  case (3 k c)
  show ?case
  proof (cases c)
    case (PValue v)
    with 3 show ?thesis by (intro exI [of _ k]) simp
  next
    case (PFull cs)
    with 3 obtain r where "term_key r" "plookup c r \<noteq> None" by auto
    moreover have "nibbles k" using 3(2) PFull by simp
    ultimately show ?thesis by (intro exI [of _ "k @ r"]) (cases r, simp_all add: term_key_append)
  qed (use 3 in simp_all)
next
  case (4 cs)
  have c: "length cs = 17" "2 \<le> length (live cs)" "\<forall>i < 16. cs ! i = PNil \<or> canon (cs ! i)"
    "cs ! 16 = PNil \<or> (\<exists>v. v \<noteq> [] \<and> cs ! 16 = PValue v)"
    using 4(2) unfolding canon_full by blast+
  from c(2) obtain p where "p \<in> set (live cs)" by (cases "live cs") auto
  then have p: "p < 17" "cs ! p \<noteq> PNil" using c(1) by (auto simp: live_def)
  have u: "unat (word_of_nat p :: byte) = p" using p(1) by (simp add: unat_word_of_nat_byte)
  show ?case
  proof (cases "p = 16")
    case True
    with p c(4) c(1) show ?thesis by (intro exI [of _ "[16]"]) (auto simp: term_key_Cons)
  next
    case False
    with p have "p < 16" by simp
    with p c(3) have "canon (cs ! p)" "cs ! p \<in> set (take 16 cs)"
      using nth_mem [of p "take 16 cs"] c(1) by auto
    with 4(1) obtain k where k: "term_key k" "plookup (cs ! p) k \<noteq> None" by blast
    have "term_key (word_of_nat p # k)"
      using k(1) \<open>p < 16\<close> by (cases k) (simp_all add: term_key_Cons [of "word_of_nat p"] word_less_nat_alt u)
    with k(2) u c(1) p(1) show ?thesis by (intro exI [of _ "word_of_nat p # k"]) simp
  qed
qed simp_all

lemma full_child_key:
  assumes "canon (PFull cs)" "p < 17" "cs ! p \<noteq> PNil"
  obtains k where "term_key (word_of_nat p # k)" "plookup (PFull cs) (word_of_nat p # k) \<noteq> None"
proof -
  have c: "length cs = 17" "\<forall>i < 16. cs ! i = PNil \<or> canon (cs ! i)" "cs ! 16 = PNil \<or> (\<exists>v. v \<noteq> [] \<and> cs ! 16 = PValue v)"
    using assms(1) unfolding canon_full by blast+
  have u: "unat (word_of_nat p :: byte) = p" using assms(2) by (simp add: unat_word_of_nat_byte)
  show thesis
  proof (cases "p = 16")
    case True
    with assms(3) c show thesis by (intro that [of "[]"]) (auto simp: term_key_Cons)
  next
    case False
    with assms(2) have "p < 16" by simp
    with assms(3) c(2) have "canon (cs ! p)" by blast
    then obtain k where k: "term_key k" "plookup (cs ! p) k \<noteq> None" using canon_has_key by blast
    moreover have "(word_of_nat p :: byte) < 16" using False assms(2) u by (simp add: word_less_nat_alt)
    ultimately show thesis using u c(1) assms(2)
      by (intro that [of k]) (cases k, simp_all add: term_key_Cons [of "word_of_nat p"])
  qed
qed

lemma full_two_keys:
  assumes "canon (PFull cs)"
  obtains x a y b where "x \<noteq> y" "term_key (x # a)" "term_key (y # b)" "plookup (PFull cs) (x # a) \<noteq> None" "plookup (PFull cs) (y # b) \<noteq> None"
proof -
  have c: "length cs = 17" "2 \<le> length (live cs)" using assms unfolding canon_full by blast+
  have "distinct (live cs)" by (simp add: live_def)
  with c(2) obtain p q where pq: "p \<in> set (live cs)" "q \<in> set (live cs)" "p \<noteq> q"
    by (cases "live cs"; cases "tl (live cs)") auto
  then have l: "p < 17" "cs ! p \<noteq> PNil" "q < 17" "cs ! q \<noteq> PNil" using c(1) by (auto simp: live_def)
  obtain a where a: "term_key (word_of_nat p # a)" "plookup (PFull cs) (word_of_nat p # a) \<noteq> None"
    by (rule full_child_key [OF assms l(1,2)])
  obtain b where b: "term_key (word_of_nat q # b)" "plookup (PFull cs) (word_of_nat q # b) \<noteq> None"
    by (rule full_child_key [OF assms l(3,4)])
  have "(word_of_nat p :: byte) \<noteq> word_of_nat q" using pq(3) l by (simp add: word_unat_eq_iff unat_word_of_nat_byte)
  then show thesis using a b that by blast
qed

lemma short_key: "plookup (PShort k c) key \<noteq> None \<Longrightarrow> \<exists>r. key = k @ r \<and> plookup c r \<noteq> None"
  by (auto split: option.splits)

text \<open>All keys below a short node share its key, and no two canonical nodes below share more.\<close>

lemma short_prefix:
  assumes "canon (PShort k (PFull cs))" "k' \<noteq> []"
    and "\<And>key. term_key key \<Longrightarrow> plookup (PShort k (PFull cs)) key \<noteq> None \<Longrightarrow> \<exists>r. key = k' @ r"
  shows "\<exists>r. k = k' @ r"
proof -
  have k: "nibbles k" "canon (PFull cs)" using assms(1) by simp_all
  obtain x a y b where xy: "x \<noteq> y" "term_key (x # a)" "term_key (y # b)" "plookup (PFull cs) (x # a) \<noteq> None" "plookup (PFull cs) (y # b) \<noteq> None"
    by (rule full_two_keys [OF k(2)])
  have "\<exists>r. k @ x # a = k' @ r" "\<exists>r. k @ y # b = k' @ r"
    using k(1) xy(2-5) by (auto intro!: assms(3) simp: term_key_append simp del: plookup.simps(5))
  then obtain r r' where r: "k @ x # a = k' @ r" "k @ y # b = k' @ r'" by blast
  show ?thesis
  proof (cases "length k' \<le> length k")
    case True
    with r(1) show ?thesis by (metis append_eq_append_conv_if append_take_drop_id)
  next
    case False
    then have "(k @ x # a) ! length k = k' ! length k" "(k @ y # b) ! length k = k' ! length k"
      unfolding r by (simp_all add: nth_append)
    with xy(1) show ?thesis by simp
  qed
qed

lemma same_content_kind:
  assumes "canon (PFull cs)" "k \<noteq> []" "\<forall>key. term_key key \<longrightarrow> plookup (PFull cs) key = plookup (PShort k c) key"
  shows False
proof -
  obtain x a y b where xy: "x \<noteq> y" "term_key (x # a)" "term_key (y # b)" "plookup (PFull cs) (x # a) \<noteq> None" "plookup (PFull cs) (y # b) \<noteq> None"
    by (rule full_two_keys [OF assms(1)])
  have "\<exists>r. x # a = k @ r" "\<exists>r. y # b = k @ r"
    using short_key [of k c "x # a"] short_key [of k c "y # b"] assms(3) xy(2-5) by force+
  with xy(1) assms(2) show False by (cases k) auto
qed

lemma same_content_leaf:
  assumes "canon (PShort k (PFull cs))"
    and "\<forall>key. term_key key \<longrightarrow> plookup (PShort k (PFull cs)) key = plookup (PShort k' (PValue v)) key"
  shows False
proof -
  have k: "nibbles k" "canon (PFull cs)" using assms(1) by simp_all
  obtain x a y b where xy: "x \<noteq> y" "term_key (x # a)" "term_key (y # b)" "plookup (PFull cs) (x # a) \<noteq> None" "plookup (PFull cs) (y # b) \<noteq> None"
    by (rule full_two_keys [OF k(2)])
  have one: "key = k'" if "plookup (PShort k' (PValue v)) key \<noteq> None" for key
    using that by (auto split: option.splits if_splits)
  have "term_key (k @ x # a)" "term_key (k @ y # b)" using k(1) xy(2,3) by (simp_all add: term_key_append)
  moreover have "plookup (PShort k (PFull cs)) (k @ x # a) \<noteq> None" "plookup (PShort k (PFull cs)) (k @ y # b) \<noteq> None"
    using xy(4,5) by (simp_all del: plookup.simps(5))
  ultimately have "k @ x # a = k'" "k @ y # b = k'" using assms(2) one by metis+
  with xy(1) show False by auto
qed

lemma same_content_short:
  assumes "canon (PShort k c)" "canon (PShort k' c')"
    and "\<forall>key. term_key key \<longrightarrow> plookup (PShort k c) key = plookup (PShort k' c') key"
  shows "k = k' \<and> (\<forall>r. fits c r \<longrightarrow> fits c' r \<longrightarrow> plookup c r = plookup c' r)"
proof -
  have sub: "k = k' \<Longrightarrow> fits c r \<Longrightarrow> fits c' r \<Longrightarrow> plookup c r = plookup c' r" for r
  proof -
    assume e: "k = k'" "fits c r" "fits c' r"
    then have "term_key (k @ r)" using assms(1) by (cases r) (auto simp: fits_simps term_key_append split: ptree.splits)
    with assms(3) e(1) show ?thesis by (metis option.simps(5) plookup.simps(3) strip_self(1))
  qed
  have "k = k'"
  proof (cases c)
    case (PValue v)
    with assms(1) have "term_key k" "plookup (PShort k c) k = Some v" by simp_all
    then have s: "plookup (PShort k' c') k = Some v" using assms(3) by metis
    show ?thesis
    proof (cases c')
      case (PFull cs)
      with PValue assms same_content_leaf [of k' cs k v] show ?thesis by metis
    qed (use s assms(2) in \<open>auto split: option.splits if_splits\<close>)
  next
    case (PFull cs)
    show ?thesis
    proof (cases c')
      case (PValue v)
      with PFull assms same_content_leaf [of k cs k' v] show ?thesis by metis
    next
      case c': (PFull cs')
      have ne: "k \<noteq> []" "k' \<noteq> []" using assms(1,2) by simp_all
      have "\<exists>r. k = k' @ r" using assms(3) short_key by (intro short_prefix [OF assms(1) [unfolded PFull] ne(2)]) (metis PFull)
      moreover have "\<exists>r. k' = k @ r" using assms(3) short_key by (intro short_prefix [OF assms(2) [unfolded c'] ne(1)]) (metis c')
      ultimately show ?thesis by auto
    qed (use assms(2) in simp_all)
  qed (use assms(1) in simp_all)
  with sub show ?thesis by blast
qed

lemma fits_canon: "term_key key \<Longrightarrow> canon n \<Longrightarrow> fits n key"
  by (cases key) (simp_all add: fits_simps)

lemma canon_unique:
  assumes "canon p" "canon q" "\<forall>key. term_key key \<longrightarrow> plookup p key = plookup q key"
  shows "p = q"
  using assms
proof (induction p arbitrary: q rule: canon.induct)
  case (3 k c)
  show ?case
  proof (cases q)
    case (PShort k' c')
    with 3 have kc: "k = k'" "\<And>r. fits c r \<Longrightarrow> fits c' r \<Longrightarrow> plookup c r = plookup c' r"
      using same_content_short [of k c k' c'] by blast+
    show ?thesis
    proof (cases c)
      case (PValue v)
      then have "c' = PValue v"
        using kc(2) [of "[]"] 3(2,3) kc(1) PShort not_term_nibbles [of k] by (auto simp: fits_simps split: ptree.splits)
      with PShort kc(1) PValue show ?thesis by simp
    next
      case (PFull cs)
      then obtain cs' where c': "c' = PFull cs'" "canon c'"
        using 3(2,3) kc(1) PShort not_term_nibbles [of k] by (auto split: ptree.splits)
      moreover have "canon c" using 3(2) PFull by simp
      ultimately have "\<forall>key. term_key key \<longrightarrow> plookup c key = plookup c' key" using kc(2) fits_canon by blast
      with 3(1) [OF PFull \<open>canon c\<close> c'(2)] PShort kc(1) show ?thesis by simp
    qed (use 3(2) in simp_all)
  next
    case (PFull cs)
    with 3 same_content_kind [of cs k c] show ?thesis by simp
  qed (use 3(3) in simp_all)
next
  case (4 cs)
  show ?case
  proof (cases q)
    case (PShort k c)
    with 4 same_content_kind [of cs k c] show ?thesis by simp
  next
    case (PFull cs')
    note cf = 4(2) [unfolded canon_full] 4(3) [unfolded PFull canon_full]
    have c: "length cs = 17" "length cs' = 17" using cf by blast+
    have f: "\<forall>i < 16. cs ! i = PNil \<or> canon (cs ! i)" "\<forall>i < 16. cs' ! i = PNil \<or> canon (cs' ! i)"
      "cs ! 16 = PNil \<or> (\<exists>v. v \<noteq> [] \<and> cs ! 16 = PValue v)" "cs' ! 16 = PNil \<or> (\<exists>v. v \<noteq> [] \<and> cs' ! 16 = PValue v)"
      using cf by blast+
    have "cs ! p = cs' ! p" if p: "p < 17" for p
    proof (cases "p = 16")
      case True
      have "term_key [16]" by (simp add: term_key_Cons)
      then have "plookup (PFull cs) [16] = plookup (PFull cs') [16]" using 4(4) PFull by blast
      then have "plookup (cs ! 16) [] = plookup (cs' ! 16) []" using c by simp
      with f(3,4) True show ?thesis by auto
    next
      case False
      with p have p: "p < 16" by simp
      then have u: "unat (word_of_nat p :: byte) = p" by (simp add: unat_word_of_nat_byte)
      have l: "plookup (cs ! p) k = plookup (cs' ! p) k" if "term_key k" for k
      proof -
        have "term_key (word_of_nat p # k)"
          using that p u by (cases k) (simp_all add: term_key_Cons [of "word_of_nat p"] word_less_nat_alt)
        then have "plookup (PFull cs) (word_of_nat p # k) = plookup (PFull cs') (word_of_nat p # k)" using 4(4) PFull by blast
        then show ?thesis using c p u by simp
      qed
      have "cs ! p \<in> set (take 16 cs)" using nth_mem [of p "take 16 cs"] p c(1) by simp
      note ih = 4(1) [OF this]
      have d: "cs ! p = PNil \<or> canon (cs ! p)" "cs' ! p = PNil \<or> canon (cs' ! p)" using f(1,2) p by simp_all
      show ?thesis
      proof (cases "canon (cs ! p) \<and> canon (cs' ! p)")
        case True
        with ih l show ?thesis by simp
      next
        case False
        have "\<not> canon (cs ! p)" if "cs' ! p = PNil" using that canon_has_key [of "cs ! p"] l by auto
        moreover have "\<not> canon (cs' ! p)" if "cs ! p = PNil" using that canon_has_key [of "cs' ! p"] l by auto
        ultimately show ?thesis using d False by auto
      qed
    qed
    with c PFull show ?thesis by (simp add: list_eq_iff_nth_eq)
  qed (use 4(3) in simp_all)
qed simp_all

end
