(* ===== verification/Trie.thy ===== *)
theory Trie
  imports Trie_Tree
begin

text \<open>
  The Merkle Patricia trie in memory (\<^verbatim>\<open>src/trie/trie.go\<close>, \<^verbatim>\<open>src/trie/node.go\<close>): lookup, insertion and deletion on
  nodes that are loaded from a database on demand.

  \<open>db\<close> is \<^verbatim>\<open>Database.node\<close> at the trie's cache generation: the node stored under a hash, nil if there is none,
  and \<open>None\<close> where the lookup panics.  A
  key is split into the part already walked (\<open>prefix\<close>, which the error reports) and the rest.  The functions
  are partial: with a database whose nodes refer to each other in a cycle through short nodes without
  a key the code recurses for ever, which is \<open>None\<close> here.  An index out of range, a failed type assertion and
  an invalid node are \<open>TriePanic\<close>.  The tracer is nil in every trie the code makes (\<^verbatim>\<open>New\<close>, \<^verbatim>\<open>NewStackTrie\<close>) and
  is left out.
\<close>

type_synonym u16 = "16 word"

record nodeFlag =
  fl_hash :: "byte list option"
  fl_gen :: u16
  fl_dirty :: bool

datatype node =
    NilNode
  | ValueNode "byte list"
  | HashNode "byte list"
  | ShortNode "byte list" node nodeFlag
  | FullNode "node list" nodeFlag

datatype trie_error = MissingNode Hash "byte list" | TriePanic

type_synonym node_db = "Hash \<Rightarrow> node option"

definition newFlag :: "u16 \<Rightarrow> nodeFlag" where
  "newFlag gen = \<lparr>fl_hash = None, fl_gen = gen, fl_dirty = True\<rparr>"

definition resolveHash :: "node_db \<Rightarrow> byte list \<Rightarrow> byte list \<Rightarrow> trie_error + node" where
  "resolveHash db n prefix =
     (case db (BytesToHash n) of
        None \<Rightarrow> Inl TriePanic
      | Some node \<Rightarrow> if node = NilNode then Inl (MissingNode (BytesToHash n) prefix) else Inr node)"

definition trie_resolve :: "node_db \<Rightarrow> node \<Rightarrow> byte list \<Rightarrow> trie_error + node" where
  "trie_resolve db n prefix = (case n of HashNode h \<Rightarrow> resolveHash db h prefix | _ \<Rightarrow> Inr n)"

subsection \<open>Lookup\<close>

partial_function (option) tryGet ::
  "node_db \<Rightarrow> u16 \<Rightarrow> node \<Rightarrow> byte list \<Rightarrow> byte list \<Rightarrow> (trie_error + byte list option \<times> node \<times> bool) option" where
  "tryGet db gen n prefix key =
     (case n of
        NilNode \<Rightarrow> Some (Inr (None, NilNode, False))
      | ValueNode v \<Rightarrow> Some (Inr (Some v, n, False))
      | ShortNode k c fl \<Rightarrow>
          if length key < length k \<or> k \<noteq> take (length k) key then Some (Inr (None, n, False))
          else
            Option.bind (tryGet db gen c (prefix @ take (length k) key) (drop (length k) key)) (\<lambda>r.
              Some (case r of
                 Inl e \<Rightarrow> Inl e
               | Inr (value, newnode, didResolve) \<Rightarrow>
                   Inr (value, if didResolve then ShortNode k newnode (fl\<lparr>fl_gen := gen\<rparr>) else n, didResolve)))
      | FullNode cs fl \<Rightarrow>
          (case key of
             [] \<Rightarrow> Some (Inl TriePanic)
           | i # rest \<Rightarrow>
               if unat i < length cs then
                 Option.bind (tryGet db gen (cs ! unat i) (prefix @ [i]) rest) (\<lambda>r.
                   Some (case r of
                      Inl e \<Rightarrow> Inl e
                    | Inr (value, newnode, didResolve) \<Rightarrow>
                        Inr (value, if didResolve then FullNode (cs[unat i := newnode]) (fl\<lparr>fl_gen := gen\<rparr>) else n, didResolve)))
               else Some (Inl TriePanic))
      | HashNode h \<Rightarrow>
          (case resolveHash db h prefix of
             Inl e \<Rightarrow> Some (Inl e)
           | Inr child \<Rightarrow>
               Option.bind (tryGet db gen child prefix key) (\<lambda>r.
                 Some (case r of Inl e \<Rightarrow> Inl e | Inr (value, newnode, _) \<Rightarrow> Inr (value, newnode, True)))))"

subsection \<open>Insertion\<close>

text \<open>The result says whether the node changed; if not it is the node itself.\<close>

definition insert_end :: "node \<Rightarrow> node \<Rightarrow> trie_error + bool \<times> node" where
  "insert_end n value =
     (case n of
        ValueNode v \<Rightarrow> (case value of ValueNode w \<Rightarrow> Inr (v \<noteq> w, value) | _ \<Rightarrow> Inl TriePanic)
      | _ \<Rightarrow> Inr (True, value))"

definition if_dirty :: "node \<Rightarrow> (node \<Rightarrow> node) \<Rightarrow> trie_error + bool \<times> node \<Rightarrow> trie_error + bool \<times> node" where
  "if_dirty n f r = (case r of Inl e \<Rightarrow> Inl e | Inr (dirty, nn) \<Rightarrow> Inr (if dirty then (True, f nn) else (False, n)))"

partial_function (option) trie_insert ::
  "node_db \<Rightarrow> u16 \<Rightarrow> node \<Rightarrow> byte list \<Rightarrow> byte list \<Rightarrow> node \<Rightarrow> (trie_error + bool \<times> node) option" where
  "trie_insert db gen n prefix key value =
     (if length key = 0 then Some (insert_end n value)
      else
        (case n of
           ShortNode k c fl \<Rightarrow>
             (let matchlen = prefixLen key k
              in if matchlen = length k then
                   Option.bind (trie_insert db gen c (prefix @ take matchlen key) (drop matchlen key) value) (\<lambda>r.
                     Some (if_dirty n (\<lambda>nn. ShortNode k nn (newFlag gen)) r))
                 else if matchlen \<ge> length key \<or> unat (k ! matchlen) \<ge> 17 \<or> unat (key ! matchlen) \<ge> 17 then Some (Inl TriePanic)
                 else
                   Option.bind (trie_insert db gen NilNode (prefix @ take (matchlen + 1) k) (drop (matchlen + 1) k) c) (\<lambda>r1.
                   Option.bind (trie_insert db gen NilNode (prefix @ take (matchlen + 1) key) (drop (matchlen + 1) key) value) (\<lambda>r2.
                     Some (case (r1, r2) of
                        (Inr (_, b1), Inr (_, b2)) \<Rightarrow>
                          (let branch = FullNode ((replicate 17 NilNode)[unat (k ! matchlen) := b1, unat (key ! matchlen) := b2]) (newFlag gen)
                           in Inr (True, if matchlen = 0 then branch else ShortNode (take matchlen key) branch (newFlag gen)))
                      | (Inl e, _) \<Rightarrow> Inl e
                      | (_, Inl e) \<Rightarrow> Inl e))))
         | FullNode cs fl \<Rightarrow>
             if unat (key ! 0) < length cs then
               Option.bind (trie_insert db gen (cs ! unat (key ! 0)) (prefix @ [key ! 0]) (drop 1 key) value) (\<lambda>r.
                 Some (if_dirty n (\<lambda>nn. FullNode (cs[unat (key ! 0) := nn]) (newFlag gen)) r))
             else Some (Inl TriePanic)
         | NilNode \<Rightarrow> Some (Inr (True, ShortNode key value (newFlag gen)))
         | HashNode h \<Rightarrow>
             (case resolveHash db h prefix of
                Inl e \<Rightarrow> Some (Inl e)
              | Inr rn \<Rightarrow> Option.bind (trie_insert db gen rn prefix key value) (\<lambda>r. Some (if_dirty rn (\<lambda>nn. nn) r)))
         | ValueNode _ \<Rightarrow> Some (Inl TriePanic)))"

subsection \<open>Deletion\<close>

text \<open>\<open>scan\<close> is the loop over the children: the index of the only one left, \<open>-1\<close> for none, \<open>-2\<close> for several.\<close>

primrec scan :: "node list \<Rightarrow> nat \<Rightarrow> int \<Rightarrow> int" where
  "scan [] i pos = pos"
| "scan (c # cs) i pos =
     (if c \<noteq> NilNode then (if pos = -1 then scan cs (i + 1) (int i) else -2) else scan cs (i + 1) pos)"

definition reduce_full :: "node_db \<Rightarrow> u16 \<Rightarrow> node list \<Rightarrow> byte list \<Rightarrow> trie_error + bool \<times> node" where
  "reduce_full db gen cs prefix =
     (let pos = scan cs 0 (-1)
      in if pos \<ge> 0 then
           (if pos \<noteq> 16 then
              (case trie_resolve db (cs ! nat pos) prefix of
                 Inl e \<Rightarrow> Inl e
               | Inr (ShortNode k c _) \<Rightarrow> Inr (True, ShortNode (word_of_int pos # k) c (newFlag gen))
               | Inr _ \<Rightarrow> Inr (True, ShortNode [word_of_int pos] (cs ! nat pos) (newFlag gen)))
            else Inr (True, ShortNode [word_of_int pos] (cs ! nat pos) (newFlag gen)))
         else Inr (True, FullNode cs (newFlag gen)))"

definition join_short :: "u16 \<Rightarrow> byte list \<Rightarrow> node \<Rightarrow> node" where
  "join_short gen k child =
     (case child of ShortNode k' c _ \<Rightarrow> ShortNode (k @ k') c (newFlag gen) | _ \<Rightarrow> ShortNode k child (newFlag gen))"

partial_function (option) trie_delete ::
  "node_db \<Rightarrow> u16 \<Rightarrow> node \<Rightarrow> byte list \<Rightarrow> byte list \<Rightarrow> (trie_error + bool \<times> node) option" where
  "trie_delete db gen n prefix key =
     (case n of
        ShortNode k c fl \<Rightarrow>
          (let matchlen = prefixLen key k
           in if matchlen < length k then Some (Inr (False, n))
              else if matchlen = length key then Some (Inr (True, NilNode))
              else
                Option.bind (trie_delete db gen c (prefix @ take (length k) key) (drop (length k) key)) (\<lambda>r.
                  Some (if_dirty n (join_short gen k) r)))
      | FullNode cs fl \<Rightarrow>
          (case key of
             [] \<Rightarrow> Some (Inl TriePanic)
           | i # rest \<Rightarrow>
               if unat i < length cs then
                 Option.bind (trie_delete db gen (cs ! unat i) (prefix @ [i]) rest) (\<lambda>r.
                   Some (case r of
                      Inl e \<Rightarrow> Inl e
                    | Inr (dirty, nn) \<Rightarrow> if dirty then reduce_full db gen (cs[unat i := nn]) prefix else Inr (False, n)))
               else Some (Inl TriePanic))
      | ValueNode v \<Rightarrow> Some (Inr (True, NilNode))
      | NilNode \<Rightarrow> Some (Inr (False, NilNode))
      | HashNode h \<Rightarrow>
          (case resolveHash db h prefix of
             Inl e \<Rightarrow> Some (Inl e)
           | Inr rn \<Rightarrow> Option.bind (trie_delete db gen rn prefix key) (\<lambda>r. Some (if_dirty rn (\<lambda>nn. nn) r))))"

subsection \<open>The trie\<close>

record Trie =
  root :: node
  cachegen :: u16
  cachelimit :: u16

definition TryGet :: "node_db \<Rightarrow> Trie \<Rightarrow> byte list \<Rightarrow> (trie_error + byte list option \<times> Trie) option" where
  "TryGet db t key =
     map_option (\<lambda>r. case r of
         Inl e \<Rightarrow> Inl e
       | Inr (value, newroot, didResolve) \<Rightarrow> Inr (value, if didResolve then t\<lparr>root := newroot\<rparr> else t))
       (tryGet db (cachegen t) (root t) [] (keybytesToHex key))"

definition TryDelete :: "node_db \<Rightarrow> Trie \<Rightarrow> byte list \<Rightarrow> (trie_error + Trie) option" where
  "TryDelete db t key =
     map_option (\<lambda>r. case r of Inl e \<Rightarrow> Inl e | Inr (_, n) \<Rightarrow> Inr (t\<lparr>root := n\<rparr>))
       (trie_delete db (cachegen t) (root t) [] (keybytesToHex key))"

definition TryUpdate :: "node_db \<Rightarrow> Trie \<Rightarrow> byte list \<Rightarrow> byte list \<Rightarrow> (trie_error + Trie) option" where
  "TryUpdate db t key value =
     (if length value \<noteq> 0 then
        map_option (\<lambda>r. case r of Inl e \<Rightarrow> Inl e | Inr (_, n) \<Rightarrow> Inr (t\<lparr>root := n\<rparr>))
          (trie_insert db (cachegen t) (root t) [] (keybytesToHex key) (ValueNode value))
      else
        map_option (\<lambda>r. case r of Inl e \<Rightarrow> Inl e | Inr (_, n) \<Rightarrow> Inr (t\<lparr>root := n\<rparr>))
          (trie_delete db (cachegen t) (root t) [] (keybytesToHex key)))"

end
