(* ===== verification/Trie_Refine.thy ===== *)
theory Trie_Refine
  imports Trie
begin

text \<open>
  The operations on nodes implement those on trees.  \<open>loads db ok f n p\<close> says that node \<open>n\<close> stands for the
  tree \<open>p\<close>, with every hash on the way present in the database.  \<open>ok f d h p\<close> is what is known of the
  cache of a node for \<open>p\<close>, the hash \<open>h\<close> if it has one and the dirty mark \<open>d\<close>; \<open>f\<close> is true at the root only,
  where a node is hashed however small it is.  A new node is dirty and has no hash.
\<close>

definition inner_node :: "node \<Rightarrow> bool" where
  "inner_node n = (case n of ShortNode _ _ _ \<Rightarrow> True | FullNode _ _ \<Rightarrow> True | _ \<Rightarrow> False)"

lemma inner_node_not_nil: "inner_node n \<Longrightarrow> n \<noteq> NilNode"
  by (auto simp: inner_node_def)

definition flag_ok :: "(bool \<Rightarrow> bool \<Rightarrow> byte list option \<Rightarrow> ptree \<Rightarrow> bool) \<Rightarrow> bool \<Rightarrow> nodeFlag \<Rightarrow> ptree \<Rightarrow> bool" where
  "flag_ok ok f fl p = (fl_hash fl = None \<and> fl_dirty fl \<or> ok f (fl_dirty fl) (fl_hash fl) p)"

inductive loads :: "node_db \<Rightarrow> (bool \<Rightarrow> bool \<Rightarrow> byte list option \<Rightarrow> ptree \<Rightarrow> bool) \<Rightarrow> bool \<Rightarrow> node \<Rightarrow> ptree \<Rightarrow> bool" for db ok where
  loads_nil: "loads db ok f NilNode PNil"
| loads_value: "loads db ok f (ValueNode v) (PValue v)"
| loads_short: "loads db ok False c p \<Longrightarrow> flag_ok ok f fl (PShort k p) \<Longrightarrow> loads db ok f (ShortNode k c fl) (PShort k p)"
| loads_full: "list_all2 (loads db ok False) cs ps \<Longrightarrow> flag_ok ok f fl (PFull ps) \<Longrightarrow> loads db ok f (FullNode cs fl) (PFull ps)"
| loads_hash: "db (BytesToHash h) = Some n \<Longrightarrow> inner_node n \<Longrightarrow> ok f False (Some h) p \<Longrightarrow> loads db ok f n p \<Longrightarrow> loads db ok f (HashNode h) p"

inductive_simps loads_simps [simp]:
  "loads db ok f NilNode p" "loads db ok f (ValueNode v) p" "loads db ok f (ShortNode k c fl) p" "loads db ok f (FullNode cs fl) p"

inductive_cases loads_hashE: "loads db ok f (HashNode h) p"

lemma flag_ok_new [simp]: "flag_ok ok f (newFlag gen) p"
  by (simp add: flag_ok_def newFlag_def)

lemma flag_ok_gen [simp]: "flag_ok ok f (fl\<lparr>fl_gen := gen\<rparr>) p = flag_ok ok f fl p"
  by (cases fl) (simp add: flag_ok_def)

lemma loads_not_nil: "loads db ok f n p \<Longrightarrow> p = PNil \<longleftrightarrow> n = NilNode"
  by (induction rule: loads.induct) (auto simp: inner_node_def split: node.splits)

lemma strip_take: "strip k key = (if length key < length k \<or> k \<noteq> take (length k) key then None else Some (drop (length k) key))"
  by (induction k key rule: strip.induct) auto

lemma if_dirty_Inr [simp]: "if_dirty n f (Inr (d, nn)) = Inr (if d then (True, f nn) else (False, n))"
  by (simp add: if_dirty_def)

lemma list_all2_conj: "list_all2 (\<lambda>x y. P x y \<and> Q x y) xs ys \<Longrightarrow> list_all2 P xs ys"
  by (erule list_all2_mono) simp

subsection \<open>Lookup\<close>

lemma tryGet_loads:
  assumes "loads db ok f n p" "fits p key"
  shows "\<exists>n' d. tryGet db gen n prefix key = Some (Inr (plookup p key, n', d)) \<and> loads db ok f n' p"
  using assms
proof (induction arbitrary: prefix key rule: loads.induct)
  case (loads_nil f)
  then show ?case by (subst tryGet.simps) auto
next
  case (loads_value f v)
  then have "key = []" by (auto simp: fits_def split: if_splits)
  then show ?case by (subst tryGet.simps) auto
next
  case (loads_short c p f fl k)
  then have c: "canon (PShort k p)" "term_key key" by (auto simp: fits_def split: if_splits)
  show ?case
  proof (cases "strip k key")
    case None
    then have "length key < length k \<or> k \<noteq> take (length k) key" unfolding strip_take by (simp split: if_splits)
    with None loads_short(1,2) show ?thesis by (subst tryGet.simps) auto
  next
    case (Some r)
    then have k: "key = k @ r" by simp
    have "fits p r" using fits_short [OF c(1)] c(2) k by simp
    from loads_short.IH [OF this, of "prefix @ k"] obtain n' d
      where "tryGet db gen c (prefix @ k) r = Some (Inr (plookup p r, n', d))" "loads db ok False n' p" by blast
    with loads_short(1,2) k show ?thesis by (subst tryGet.simps) simp
  qed
next
  case (loads_full cs ps f fl)
  have all: "list_all2 (loads db ok False) cs ps" using loads_full.IH by (rule list_all2_conj)
  have "key \<noteq> []" using loads_full.prems by (auto simp: fits_def)
  then obtain i r where k: "key = i # r" by (cases key) auto
  have c: "canon (PFull ps)" "term_key (i # r)" using loads_full.prems k by (auto simp: fits_simps)
  note f = fits_full [OF c]
  have l: "unat i < length cs" using f(1) list_all2_lengthD [OF all] by simp
  from list_all2_nthD [OF loads_full.IH l] f(2) obtain n' d
    where "tryGet db gen (cs ! unat i) (prefix @ [i]) r = Some (Inr (plookup (ps ! unat i) r, n', d))" "loads db ok False n' (ps ! unat i)"
    by blast
  with all k l f(1) loads_full.hyps show ?case
    by (subst tryGet.simps) (auto intro: list_all2_update_cong simp: list_all2_update_cong [of _ cs ps n' "ps ! unat i" "unat i", simplified])
next
  case (loads_hash h n f p)
  from loads_hash.IH [OF loads_hash.prems, of prefix] loads_hash(1,2) show ?case
    by (subst tryGet.simps) (auto simp: resolveHash_def inner_node_not_nil)
qed

subsection \<open>Insertion\<close>

lemma insert_nil:
  "trie_insert db gen NilNode prefix key value = Some (Inr (True, if key = [] then value else ShortNode key value (newFlag gen)))"
  by (subst trie_insert.simps) (simp add: insert_end_def)

lemma loads_put: "loads db ok False c p \<Longrightarrow> loads db ok False (if k = [] then c else ShortNode k c (newFlag gen)) (put k p)"
  by (simp add: put_def)

lemma loads_branch:
  assumes "loads db ok False c p" "loads db ok False d q" "unat x < 17" "unat y < 17"
  shows "loads db ok f (FullNode ((replicate 17 NilNode)[unat y := if b = [] then c else ShortNode b c (newFlag gen),
    unat x := if a = [] then d else ShortNode a d (newFlag gen)]) (newFlag gen))
    (PFull (branch (y # b) p (x # a) q))"
proof -
  have "list_all2 (loads db ok False) (replicate 17 NilNode) (replicate 17 PNil)" by (simp add: list_all2_conv_all_nth)
  then show ?thesis unfolding branch_def list.sel using assms(1,2)
    by (intro loads.intros list_all2_update_cong loads_put flag_ok_new)
qed

lemma trie_insert_loads:
  assumes "loads db ok f n p" "fits p key"
  shows "\<exists>d n'. trie_insert db gen n prefix key (ValueNode v) = Some (Inr (d, n')) \<and>
    loads db ok f n' (pinsert p key (PValue v)) \<and> (d \<or> pinsert p key (PValue v) = p)"
  using assms
proof (induction arbitrary: prefix key rule: loads.induct)
  case (loads_nil f)
  then show ?case by (cases key) (auto simp: insert_nil)
next
  case (loads_value f w)
  then have "key = []" by (auto simp: fits_def split: if_splits)
  then show ?case by (subst trie_insert.simps) (simp add: insert_end_def)
next
  case (loads_short c p f fl k)
  then have c: "canon (PShort k p)" "term_key key" by (auto simp: fits_def split: if_splits)
  then have ne: "key \<noteq> []" "k \<noteq> []" by auto
  show ?case
  proof (cases "prefixLen key k = length k")
    case True
    then obtain r where k: "key = k @ r" using prefixLen_full by metis
    have "fits p r" using fits_short [OF c(1)] c(2) k by simp
    from loads_short.IH [OF this, of "prefix @ k"] obtain d n' where
      "trie_insert db gen c (prefix @ k) r (ValueNode v) = Some (Inr (d, n'))" "loads db ok False n' (pinsert p r (PValue v))"
      "d \<or> pinsert p r (PValue v) = p" by blast
    then show ?thesis using loads_short(1,2) k ne True
      by (subst trie_insert.simps) (rule exI [of _ d], cases d, simp_all add: pinsert_match)
  next
    case False
    then obtain q x a y b where q: "key = q @ x # a" "k = q @ y # b" "x \<noteq> y" "prefixLen key k = length q"
      by (rule short_diverges [OF c])
    have u: "unat x < 17" "unat y < 17"
      using canon_put_byte [OF canon_drop [OF c(1) [unfolded q(2)]]] c(2) unfolding q(1)
      by (auto simp: term_key_append term_key_Cons word_less_nat_alt split: if_splits)
    let ?b = "FullNode ((replicate 17 NilNode)[unat y := if b = [] then c else ShortNode b c (newFlag gen),
      unat x := if a = [] then ValueNode v else ShortNode a (ValueNode v) (newFlag gen)]) (newFlag gen)"
    have "trie_insert db gen (ShortNode k c fl) prefix key (ValueNode v) =
      Some (Inr (True, if q = [] then ?b else ShortNode q ?b (newFlag gen)))"
      using q u False by (subst trie_insert.simps) (simp add: insert_nil)
    moreover have "loads db ok f ?b (PFull (branch (y # b) p (x # a) (PValue v)))"
      using loads_short(1,2) u by (intro loads_branch) simp_all
    ultimately show ?thesis using q(1,2) pinsert_split [OF q(3), of q b p a] by (intro exI [of _ True]) (simp add: put_def)
  qed
next
  case (loads_full cs ps f fl)
  have all: "list_all2 (loads db ok False) cs ps" using loads_full.IH by (rule list_all2_conj)
  have "key \<noteq> []" using loads_full.prems by (auto simp: fits_def)
  then obtain i r where k: "key = i # r" by (cases key) auto
  have c: "canon (PFull ps)" "term_key (i # r)" using loads_full.prems k by (auto simp: fits_simps)
  note f = fits_full [OF c]
  have l: "unat i < length cs" using f(1) list_all2_lengthD [OF all] by simp
  from list_all2_nthD [OF loads_full.IH l] f(2) obtain d n'
    where r: "trie_insert db gen (cs ! unat i) (prefix @ [i]) r (ValueNode v) = Some (Inr (d, n'))"
      "loads db ok False n' (pinsert (ps ! unat i) r (PValue v))" "d \<or> pinsert (ps ! unat i) r (PValue v) = ps ! unat i"
    by blast
  have "list_all2 (loads db ok False) (cs[unat i := n']) (ps[unat i := pinsert (ps ! unat i) r (PValue v)])"
    using all r(2) by (rule list_all2_update_cong)
  with all k l f(1) r loads_full.hyps show ?case by (subst trie_insert.simps) (rule exI [of _ d], cases d, simp_all)
next
  case (loads_hash h n f p)
  show ?case
  proof (cases "key = []")
    case True
    then show ?thesis by (subst trie_insert.simps) (auto simp: insert_end_def)
  next
    case False
    from loads_hash.IH [OF loads_hash.prems, of prefix] obtain d n' where
      "trie_insert db gen n prefix key (ValueNode v) = Some (Inr (d, n'))" "loads db ok f n' (pinsert p key (PValue v))"
      "d \<or> pinsert p key (PValue v) = p" by blast
    with False loads_hash(1-4) show ?thesis
      by (subst trie_insert.simps) (rule exI [of _ d], cases d, simp_all add: resolveHash_def inner_node_not_nil)
  qed
qed

subsection \<open>Deletion\<close>

lemma scan_eq:
  "scan cs i (-1) = (case filter (\<lambda>j. cs ! j \<noteq> NilNode) [0..<length cs] of [] \<Rightarrow> -1 | [p] \<Rightarrow> int (i + p) | _ \<Rightarrow> -2)"
proof (induction cs arbitrary: i)
  case (Cons c cs)
  have later: "pos \<ge> 0 \<Longrightarrow> scan ds j pos = (if filter (\<lambda>j. ds ! j \<noteq> NilNode) [0..<length ds] = [] then pos else -2)" for ds j pos
  proof (induction ds arbitrary: j)
    case (Cons d ds)
    then show ?case
      by (simp add: upt_conv_Cons map_Suc_upt [symmetric] filter_map comp_def del: upt_Suc)
  qed simp
  have "filter (\<lambda>j. (c # cs) ! j \<noteq> NilNode) [0..<length (c # cs)] =
    (if c \<noteq> NilNode then [0] else []) @ map Suc (filter (\<lambda>j. cs ! j \<noteq> NilNode) [0..<length cs])"
    by (simp add: upt_conv_Cons map_Suc_upt [symmetric] filter_map comp_def del: upt_Suc)
  then show ?case using Cons.IH [of "i + 1"] later [of "int i" cs "i + 1"]
    by (cases "filter (\<lambda>j. cs ! j \<noteq> NilNode) [0..<length cs]"; cases "tl (filter (\<lambda>j. cs ! j \<noteq> NilNode) [0..<length cs])") auto
qed simp

lemma scan_live: "list_all2 (loads db ok False) cs ps \<Longrightarrow> scan cs 0 (-1) = (case live ps of [] \<Rightarrow> -1 | [p] \<Rightarrow> int p | _ \<Rightarrow> -2)"
proof -
  assume a: "list_all2 (loads db ok False) cs ps"
  have "filter (\<lambda>j. cs ! j \<noteq> NilNode) [0..<length cs] = live ps"
    unfolding live_def list_all2_lengthD [OF a, symmetric]
    using loads_not_nil [OF list_all2_nthD [OF a]] by (intro filter_cong refl) auto
  then show ?thesis by (simp add: scan_eq split: list.splits)
qed

lemma trie_resolve_loads:
  "loads db ok f n p \<Longrightarrow> \<exists>rn. trie_resolve db n prefix = Inr rn \<and> loads db ok f rn p \<and> (\<forall>h. rn \<noteq> HashNode h)"
  by (erule loads.cases) (auto simp: trie_resolve_def resolveHash_def inner_node_not_nil inner_node_def)

lemma reduce_full_loads:
  assumes "list_all2 (loads db ok False) cs ps"
  shows "\<exists>n'. reduce_full db gen cs prefix = Inr (True, n') \<and> loads db ok f n' (preduce ps) \<and> (\<forall>h. n' \<noteq> HashNode h)"
proof (cases "\<exists>p. live ps = [p]")
  case True
  then obtain p where p: "live ps = [p]" by blast
  then have s: "scan cs 0 (-1) = int p" using scan_live [OF assms] by simp
  have l: "loads db ok False (cs ! p) (ps ! p)" using list_all2_nthD2 [OF assms] live_single [OF p] by blast
  from trie_resolve_loads [OF l, of prefix] obtain rn where
    "trie_resolve db (cs ! p) prefix = Inr rn" "loads db ok False rn (ps ! p)" "\<forall>h. rn \<noteq> HashNode h" by blast
  with l s p show ?thesis by (cases rn) (auto simp: reduce_full_def preduce_def Let_def split: ptree.splits)
next
  case False
  then have "preduce ps = PFull ps" by (auto simp: preduce_def split: list.splits)
  moreover have "scan cs 0 (-1) < 0" using False scan_live [OF assms] by (auto split: list.splits)
  ultimately show ?thesis using assms by (auto simp: reduce_full_def)
qed

lemma loads_join: "loads db ok False c p \<Longrightarrow> \<forall>h. c \<noteq> HashNode h \<Longrightarrow> loads db ok f (join_short gen k c) (pjoin k p)"
  by (cases c) (auto simp: join_short_def pjoin_def)

lemma trie_delete_loads:
  assumes "loads db ok f n p" "fits p key"
  shows "\<exists>d n'. trie_delete db gen n prefix key = Some (Inr (d, n')) \<and> loads db ok f n' (pdelete p key) \<and>
    (if d then \<forall>h. n' \<noteq> HashNode h else pdelete p key = p)"
  using assms
proof (induction arbitrary: prefix key rule: loads.induct)
  case (loads_nil f)
  then show ?case by (subst trie_delete.simps) auto
next
  case (loads_value f w)
  then show ?case by (subst trie_delete.simps) auto
next
  case (loads_short c p f fl k)
  then have c: "canon (PShort k p)" "term_key key" by (auto simp: fits_def split: if_splits)
  show ?case
  proof (cases "strip k key")
    case None
    then have "prefixLen key k \<noteq> length k" by (auto simp: prefixLen_full strip_None)
    then have "prefixLen key k < length k" using prefixLen_le(2) [of key k] by simp
    with None loads_short(1,2) show ?thesis by (subst trie_delete.simps) auto
  next
    case (Some r)
    then have k: "key = k @ r" by simp
    then have m: "prefixLen key k = length k" by (simp add: prefixLen_full)
    have f: "fits p r" using fits_short [OF c(1)] c(2) k by simp
    show ?thesis
    proof (cases "r = []")
      case True
      with k m show ?thesis by (subst trie_delete.simps) auto
    next
      case False
      from loads_short.IH [OF f, of "prefix @ k"] obtain d n' where
        "trie_delete db gen c (prefix @ k) r = Some (Inr (d, n'))" "loads db ok False n' (pdelete p r)"
        "if d then \<forall>h. n' \<noteq> HashNode h else pdelete p r = p" by blast
      moreover have "pjoin k p = PShort k p" using c(1) by (auto simp: pjoin_def split: ptree.splits)
      ultimately show ?thesis using loads_short(1,2) k m False loads_join [of db ok n' "pdelete p r" f gen k]
        by (subst trie_delete.simps) (auto simp: join_short_def split: node.splits if_splits)
    qed
  qed
next
  case (loads_full cs ps f fl)
  have all: "list_all2 (loads db ok False) cs ps" using loads_full.IH by (rule list_all2_conj)
  have "key \<noteq> []" using loads_full.prems by (auto simp: fits_def)
  then obtain i r where k: "key = i # r" by (cases key) auto
  have c: "canon (PFull ps)" "term_key (i # r)" using loads_full.prems k by (auto simp: fits_simps)
  note f = fits_full [OF c]
  have l: "unat i < length cs" using f(1) list_all2_lengthD [OF all] by simp
  from list_all2_nthD [OF loads_full.IH l] f(2) obtain d n'
    where r: "trie_delete db gen (cs ! unat i) (prefix @ [i]) r = Some (Inr (d, n'))"
      "loads db ok False n' (pdelete (ps ! unat i) r)" "if d then \<forall>h. n' \<noteq> HashNode h else pdelete (ps ! unat i) r = ps ! unat i"
    by blast
  have "list_all2 (loads db ok False) (cs[unat i := n']) (ps[unat i := pdelete (ps ! unat i) r])"
    using all r(2) by (rule list_all2_update_cong)
  from reduce_full_loads [OF this, of gen prefix] obtain n'' where
    "reduce_full db gen (cs[unat i := n']) prefix = Inr (True, n'')" "loads db ok f n'' (preduce (ps[unat i := pdelete (ps ! unat i) r]))"
    "\<forall>h. n'' \<noteq> HashNode h" by blast
  moreover have "preduce ps = PFull ps" using c(1) unfolding canon_full by (auto simp: preduce_def split: list.splits)
  ultimately show ?case using all k l f(1) r loads_full.hyps by (subst trie_delete.simps) (auto split: if_splits)
next
  case (loads_hash h n f p)
  have "\<forall>h. n \<noteq> HashNode h" using loads_hash(2) by (auto simp: inner_node_def)
  with loads_hash.IH [OF loads_hash.prems, of prefix] loads_hash(1-4) show ?case
    by (subst trie_delete.simps) (auto simp: resolveHash_def inner_node_not_nil split: if_splits)
qed

end
