(* ===== verification/Trie_Node.thy ===== *)
theory Trie_Node
  imports Trie_Refine
begin

text \<open>
  The stored forms of a trie node: the RLP encoding and its decoder (\<^verbatim>\<open>src/trie/node.go\<close>), and the collapsed
  nodes of the memory database without their caches (\<^verbatim>\<open>src/trie/database.go\<close>).

  The panics of the code are \<open>NodePanic\<close> in the decoder and \<open>None\<close> in the conversions.  The decoder of a
  child is an argument of the functions below \<open>decodeNode\<close>; they only call it on the rest of the same buffer.
\<close>

subsection \<open>Collapsed nodes\<close>

datatype rawnode =
    RawNil
  | RawValue "byte list"
  | RawHash "byte list"
  | RawShort "byte list" rawnode
  | RawFull "rawnode list"

fun raw_item :: "rawnode \<Rightarrow> item" where
  "raw_item RawNil = Lst []"
| "raw_item (RawValue v) = Str v"
| "raw_item (RawHash h) = Str h"
| "raw_item (RawShort k c) = Lst [Str k, raw_item c]"
| "raw_item (RawFull cs) = Lst (map (\<lambda>c. if c = RawNil then Str [] else raw_item c) cs)"

lemma size_take [termination_simp]: "c \<in> set (take n cs) \<Longrightarrow> size_class.size c < Suc (size_list size_class.size cs)"
  unfolding less_Suc_eq_le by (rule size_list_estimation' [OF in_set_takeD order_refl])

fun gatherChildren :: "rawnode \<Rightarrow> Hash list" where
  "gatherChildren (RawShort k c) = gatherChildren c"
| "gatherChildren (RawFull cs) = concat (map gatherChildren (take 16 cs))"
| "gatherChildren (RawHash h) = [BytesToHash h]"
| "gatherChildren _ = []"

fun simplifyNode :: "node \<Rightarrow> rawnode option" where
  "simplifyNode (ShortNode k c _) = map_option (RawShort k) (simplifyNode c)"
| "simplifyNode (FullNode cs _) = map_option RawFull (those (map (\<lambda>c. if c = NilNode then Some RawNil else simplifyNode c) cs))"
| "simplifyNode (ValueNode v) = Some (RawValue v)"
| "simplifyNode (HashNode h) = Some (RawHash h)"
| "simplifyNode NilNode = None"

fun expandNode :: "byte list option \<Rightarrow> rawnode \<Rightarrow> u16 \<Rightarrow> node option" where
  "expandNode hash (RawShort k c) gen =
     (case compactToHex k of
        None \<Rightarrow> None
      | Some key \<Rightarrow>
          map_option (\<lambda>val. ShortNode key val \<lparr>fl_hash = hash, fl_gen = gen, fl_dirty = False\<rparr>) (expandNode None c gen))"
| "expandNode hash (RawFull cs) gen =
     map_option (\<lambda>children. FullNode children \<lparr>fl_hash = hash, fl_gen = gen, fl_dirty = False\<rparr>)
       (those (map (\<lambda>c. if c = RawNil then Some NilNode else expandNode None c gen) cs))"
| "expandNode hash (RawValue v) gen = Some (ValueNode v)"
| "expandNode hash (RawHash h) gen = Some (HashNode h)"
| "expandNode hash RawNil gen = None"

subsection \<open>The decoder\<close>

datatype node_fault =
    UnexpectedEOF
  | ListFault rlp_error
  | SplitFault rlp_error
  | ValueFault rlp_error
  | BadCount nat
  | Oversized nat
  | BadStringSize nat

datatype node_error = NodePanic | NodeFault node_fault | DecodeErr node_fault "string list"

definition wrapError :: "node_error \<Rightarrow> string \<Rightarrow> node_error" where
  "wrapError err ctx =
     (case err of
        NodePanic \<Rightarrow> NodePanic
      | NodeFault w \<Rightarrow> DecodeErr w [ctx]
      | DecodeErr w ctxs \<Rightarrow> DecodeErr w (ctxs @ [ctx]))"

definition decodeRef :: "(byte list \<Rightarrow> node_error + node) \<Rightarrow> byte list \<Rightarrow> node_error + node \<times> byte list" where
  "decodeRef dec buf =
     (case Split buf of
        Inl e \<Rightarrow> Inl (NodeFault (SplitFault e))
      | Inr (kind, val, rest) \<Rightarrow>
          if kind = KList then
            (let sz = length buf - length rest
             in if sz > 32 then Inl (NodeFault (Oversized sz))
                else (case dec buf of Inl e \<Rightarrow> Inl e | Inr n \<Rightarrow> Inr (n, rest)))
          else if kind = KString \<and> length val = 0 then Inr (NilNode, rest)
          else if kind = KString \<and> length val = 32 then Inr (HashNode val, rest)
          else Inl (NodeFault (BadStringSize (length val))))"

definition decodeShort :: "(byte list \<Rightarrow> node_error + node) \<Rightarrow> byte list option \<Rightarrow> byte list \<Rightarrow> u16 \<Rightarrow> node_error + node" where
  "decodeShort dec hash elems gen =
     (case SplitString elems of
        Inl e \<Rightarrow> Inl (NodeFault (SplitFault e))
      | Inr (kbuf, rest) \<Rightarrow>
          (let flag = \<lparr>fl_hash = hash, fl_gen = gen, fl_dirty = False\<rparr>
           in case compactToHex kbuf of
                None \<Rightarrow> Inl NodePanic
              | Some key \<Rightarrow>
                  if hasTerm key then
                    (case SplitString rest of
                       Inl e \<Rightarrow> Inl (NodeFault (ValueFault e))
                     | Inr (val, _) \<Rightarrow> Inr (ShortNode key (ValueNode val) flag))
                  else
                    (case decodeRef dec rest of
                       Inl e \<Rightarrow> Inl (wrapError e ''val'')
                     | Inr (r, _) \<Rightarrow> Inr (ShortNode key r flag))))"

text \<open>The loop of \<^verbatim>\<open>decodeFull\<close> over the sixteen children; the context of an error is \<^verbatim>\<open>[i]\<close>.\<close>

definition index_context :: "nat \<Rightarrow> string" where
  "index_context i = ''['' @ (if i < 10 then [] else [char_of (48 + i div 10)]) @ [char_of (48 + i mod 10)] @ '']''"

primrec decodeChildren :: "(byte list \<Rightarrow> node_error + node) \<Rightarrow> nat \<Rightarrow> byte list \<Rightarrow> node_error + node list \<times> byte list" where
  "decodeChildren dec 0 elems = Inr ([], elems)"
| "decodeChildren dec (Suc n) elems =
     (case decodeRef dec elems of
        Inl e \<Rightarrow> Inl (wrapError e (index_context (15 - n)))
      | Inr (cld, rest) \<Rightarrow>
          (case decodeChildren dec n rest of
             Inl e \<Rightarrow> Inl e
           | Inr (cs, rest') \<Rightarrow> Inr (cld # cs, rest')))"

definition decodeFull :: "(byte list \<Rightarrow> node_error + node) \<Rightarrow> byte list option \<Rightarrow> byte list \<Rightarrow> u16 \<Rightarrow> node_error + node" where
  "decodeFull dec hash elems gen =
     (case decodeChildren dec 16 elems of
        Inl e \<Rightarrow> Inl e
      | Inr (cs, rest) \<Rightarrow>
          (case SplitString rest of
             Inl e \<Rightarrow> Inl (NodeFault (SplitFault e))
           | Inr (val, _) \<Rightarrow>
               Inr (FullNode (cs @ [if length val > 0 then ValueNode val else NilNode])
                 \<lparr>fl_hash = hash, fl_gen = gen, fl_dirty = False\<rparr>)))"

lemma Split_rest: "Split b = Inr (k, val, rest) \<Longrightarrow> length rest < length b \<and> (k = KList \<longrightarrow> length val < length b)"
  by (cases b) (auto simp: Split_def raw_readKind_def Let_def split: if_splits)

lemma decodeRef_rest: "decodeRef dec b = Inr (n, rest) \<Longrightarrow> length rest < length b"
  by (auto simp: decodeRef_def Let_def dest: Split_rest split: sum.splits if_splits)

lemma SplitList_rest: "SplitList b = Inr (val, rest) \<Longrightarrow> length val < length b"
  by (auto simp: SplitList_def dest: Split_rest split: if_splits)

lemma SplitString_rest: "SplitString b = Inr (val, rest) \<Longrightarrow> length rest < length b"
  by (auto simp: SplitString_def dest: Split_rest split: if_splits)

lemma decodeRef_cong [fundef_cong]:
  "b = b' \<Longrightarrow> (\<And>x. length x \<le> length b' \<Longrightarrow> dec x = dec' x) \<Longrightarrow> decodeRef dec b = decodeRef dec' b'"
  by (simp add: decodeRef_def cong: sum.case_cong if_cong)

lemma decodeShort_cong [fundef_cong]:
  assumes "hash = hash'" "b = b'" "gen = gen'" "\<And>x. length x \<le> length b' \<Longrightarrow> dec x = dec' x"
  shows "decodeShort dec hash b gen = decodeShort dec' hash' b' gen'"
proof -
  have "decodeRef dec rest = decodeRef dec' rest" if "SplitString b' = Inr (k, rest)" for k rest
    using SplitString_rest [OF that] assms(4) by (intro decodeRef_cong refl) simp
  then show ?thesis using assms(1-3) by (auto simp: decodeShort_def Let_def split: sum.splits option.splits)
qed

lemma decodeChildren_cong:
  "(\<And>x. length x \<le> length b \<Longrightarrow> dec x = dec' x) \<Longrightarrow> decodeChildren dec n b = decodeChildren dec' n b"
proof (induction n arbitrary: b)
  case (Suc n)
  have "decodeRef dec b = decodeRef dec' b" using Suc.prems by (intro decodeRef_cong refl)
  moreover have "decodeChildren dec n rest = decodeChildren dec' n rest" if "decodeRef dec' b = Inr (c, rest)" for c rest
    using decodeRef_rest [OF that] Suc.prems by (intro Suc.IH) simp
  ultimately show ?case by (auto split: sum.splits)
qed simp

lemma decodeFull_cong [fundef_cong]:
  "hash = hash' \<Longrightarrow> b = b' \<Longrightarrow> gen = gen' \<Longrightarrow> (\<And>x. length x \<le> length b' \<Longrightarrow> dec x = dec' x) \<Longrightarrow>
    decodeFull dec hash b gen = decodeFull dec' hash' b' gen'"
  using decodeChildren_cong [of b' dec dec' 16] by (simp add: decodeFull_def)

function decodeNode :: "byte list option \<Rightarrow> byte list \<Rightarrow> u16 \<Rightarrow> node_error + node" where
  "decodeNode hash buf gen =
     (if length buf = 0 then Inl (NodeFault UnexpectedEOF)
      else
        (case SplitList buf of
           Inl e \<Rightarrow> Inl (NodeFault (ListFault e))
         | Inr (elems, _) \<Rightarrow>
             (let c = (case CountValues elems of Inr c \<Rightarrow> c | Inl _ \<Rightarrow> 0)
              in if c = 2 then
                   (case decodeShort (\<lambda>b. decodeNode None b gen) hash elems gen of
                      Inl e \<Rightarrow> Inl (wrapError e ''short'')
                    | Inr n \<Rightarrow> Inr n)
                 else if c = 17 then
                   (case decodeFull (\<lambda>b. decodeNode None b gen) hash elems gen of
                      Inl e \<Rightarrow> Inl (wrapError e ''full'')
                    | Inr n \<Rightarrow> Inr n)
                 else Inl (NodeFault (BadCount c)))))"
  by pat_completeness auto
termination
  by (relation "measure (\<lambda>(_, buf, _). length buf)") (auto dest: SplitList_rest)

declare decodeNode.simps [simp del]

definition mustDecodeNode :: "byte list option \<Rightarrow> byte list \<Rightarrow> u16 \<Rightarrow> node option" where
  "mustDecodeNode hash buf gen = (case decodeNode hash buf gen of Inl _ \<Rightarrow> None | Inr n \<Rightarrow> Some n)"

end
