(* ===== verification/Trie_Stored.thy ===== *)
theory Trie_Stored
  imports Trie_Node
begin

text \<open>
  The stored form of a tree: what the database holds for each of its nodes, as a function of the tree
  alone.  A child whose encoding has 32 bytes or more is replaced by its hash, a smaller one is embedded.

  Both ways of reading a stored node, expanding a collapsed one and decoding its encoding, give the same
  node, \<open>pnode\<close>.  The hash of a tree determines the tree unless two of its encodings collide.
\<close>

definition raw_enc :: "rawnode \<Rightarrow> byte list" where
  "raw_enc r = EncodeToBytes (raw_item r)"

definition raw_ref :: "hash_fun \<Rightarrow> rawnode \<Rightarrow> rawnode" where
  "raw_ref keccak r =
     (case r of
        RawShort _ _ \<Rightarrow> if length (raw_enc r) < 32 then r else RawHash (hash_bytes (keccak (raw_enc r)))
      | RawFull _ \<Rightarrow> if length (raw_enc r) < 32 then r else RawHash (hash_bytes (keccak (raw_enc r)))
      | _ \<Rightarrow> r)"

fun praw :: "hash_fun \<Rightarrow> ptree \<Rightarrow> rawnode" where
  "praw keccak PNil = RawNil"
| "praw keccak (PValue v) = RawValue v"
| "praw keccak (PShort k c) = RawShort (hexToCompact k) (raw_ref keccak (praw keccak c))"
| "praw keccak (PFull cs) = RawFull (map (\<lambda>c. raw_ref keccak (praw keccak c)) cs)"

definition penc :: "hash_fun \<Rightarrow> ptree \<Rightarrow> byte list" where
  "penc keccak p = raw_enc (praw keccak p)"

definition khash :: "hash_fun \<Rightarrow> ptree \<Rightarrow> Hash" where
  "khash keccak p = keccak (penc keccak p)"

definition big :: "hash_fun \<Rightarrow> ptree \<Rightarrow> bool" where
  "big keccak p = (32 \<le> length (penc keccak p))"

definition stored_flag :: "byte list option \<Rightarrow> u16 \<Rightarrow> nodeFlag" where
  "stored_flag h gen = \<lparr>fl_hash = h, fl_gen = gen, fl_dirty = False\<rparr>"

definition inner :: "ptree \<Rightarrow> bool" where
  "inner p = (case p of PShort _ _ \<Rightarrow> True | PFull _ \<Rightarrow> True | _ \<Rightarrow> False)"

fun pnode :: "hash_fun \<Rightarrow> byte list option \<Rightarrow> u16 \<Rightarrow> ptree \<Rightarrow> node" where
  "pnode keccak h gen PNil = NilNode"
| "pnode keccak h gen (PValue v) = ValueNode v"
| "pnode keccak h gen (PShort k c) =
     ShortNode k (if inner c \<and> big keccak c then HashNode (hash_bytes (khash keccak c)) else pnode keccak None gen c) (stored_flag h gen)"
| "pnode keccak h gen (PFull cs) =
     FullNode (map (\<lambda>c. if inner c \<and> big keccak c then HashNode (hash_bytes (khash keccak c)) else pnode keccak None gen c) cs) (stored_flag h gen)"

definition pchild :: "hash_fun \<Rightarrow> u16 \<Rightarrow> ptree \<Rightarrow> node" where
  "pchild keccak gen c = (if inner c \<and> big keccak c then HashNode (hash_bytes (khash keccak c)) else pnode keccak None gen c)"

lemma inner_simps [simp]: "\<not> inner PNil" "\<not> inner (PValue v)" "inner (PShort k c)" "inner (PFull cs)"
  by (simp_all add: inner_def)

lemma pnode_child [simp]:
  "pnode keccak h gen (PShort k c) = ShortNode k (pchild keccak gen c) (stored_flag h gen)"
  "pnode keccak h gen (PFull cs) = FullNode (map (pchild keccak gen) cs) (stored_flag h gen)"
  by (simp_all add: pchild_def [abs_def])

declare pnode.simps(3,4) [simp del]

lemma pchild_simps [simp]: "pchild keccak gen PNil = NilNode" "pchild keccak gen (PValue v) = ValueNode v"
  by (simp_all add: pchild_def)

lemma inner_canon: "canon p \<Longrightarrow> inner p"
  by (cases p) simp_all

lemma raw_ref_praw:
  "raw_ref keccak (praw keccak p) = (if inner p \<and> big keccak p then RawHash (hash_bytes (khash keccak p)) else praw keccak p)"
  by (cases p) (auto simp: raw_ref_def big_def khash_def penc_def)

lemma canon_induct [consumes 1, case_names leaf ext full]:
  assumes "canon p"
    and "\<And>k v. term_key k \<Longrightarrow> v \<noteq> [] \<Longrightarrow> P (PShort k (PValue v))"
    and "\<And>k cs. k \<noteq> [] \<Longrightarrow> nibbles k \<Longrightarrow> canon (PFull cs) \<Longrightarrow> P (PFull cs) \<Longrightarrow> P (PShort k (PFull cs))"
    and "\<And>cs. canon (PFull cs) \<Longrightarrow> (\<And>i. i < 16 \<Longrightarrow> cs ! i \<noteq> PNil \<Longrightarrow> canon (cs ! i) \<and> P (cs ! i)) \<Longrightarrow> P (PFull cs)"
  shows "P p"
  using assms(1)
proof (induction p rule: canon.induct)
  case (3 k c)
  with assms(2,3) show ?case by (cases c) auto
next
  case (4 cs)
  have c: "length cs = 17" "\<forall>i < 16. cs ! i = PNil \<or> canon (cs ! i)" using 4(2) unfolding canon_full by blast+
  show ?case
  proof (rule assms(4) [OF 4(2)])
    fix i :: nat
    assume i: "i < 16" "cs ! i \<noteq> PNil"
    then have "cs ! i \<in> set (take 16 cs)" using nth_mem [of i "take 16 cs"] c(1) by simp
    with 4(1) c(2) i show "canon (cs ! i) \<and> P (cs ! i)" by auto
  qed
qed simp_all

lemma canon_children:
  assumes "canon (PFull cs)"
  shows "length cs = 17" "i < 16 \<Longrightarrow> cs ! i = PNil \<or> canon (cs ! i)" "cs ! 16 = PNil \<or> (\<exists>v. v \<noteq> [] \<and> cs ! 16 = PValue v)"
  using assms unfolding canon_full by blast+

lemma list_17: "length xs = 17 \<Longrightarrow> xs = take 16 xs @ [xs ! 16]"
  using take_Suc_conv_app_nth [of 16 xs] by simp

subsection \<open>Expanding a collapsed node\<close>

lemma those_map_Some: "(\<And>x. x \<in> set xs \<Longrightarrow> f x = Some (g x)) \<Longrightarrow> those (map f xs) = Some (map g xs)"
  by (induction xs) auto

lemma expand_ref:
  assumes "c = PNil \<or> (\<exists>v. c = PValue v) \<or> expandNode None (praw keccak c) gen = Some (pnode keccak None gen c)"
  shows "(if raw_ref keccak (praw keccak c) = RawNil then Some NilNode else expandNode None (raw_ref keccak (praw keccak c)) gen)
    = Some (pchild keccak gen c)"
  using assms unfolding raw_ref_praw by (cases c) (auto simp: pchild_def)

lemma expandNode_praw: "canon p \<Longrightarrow> expandNode h (praw keccak p) gen = Some (pnode keccak h gen p)"
proof (induction p arbitrary: h rule: canon_induct)
  case (leaf k v)
  then show ?case by (simp add: compactToHex_hexToCompact raw_ref_def stored_flag_def)
next
  case (ext k cs)
  from ext.IH [of None] ext.hyps show ?case
    by (simp add: compactToHex_hexToCompact raw_ref_praw stored_flag_def pchild_def del: praw.simps(4))
next
  case (full cs)
  note c = canon_children [OF full.hyps]
  have "(if raw_ref keccak (praw keccak x) = RawNil then Some NilNode else expandNode None (raw_ref keccak (praw keccak x)) gen)
    = Some (pchild keccak gen x)" if "x \<in> set cs" for x
  proof (rule expand_ref)
    from that c(1) obtain i where i: "i < 17" "x = cs ! i" by (auto simp: in_set_conv_nth)
    show "x = PNil \<or> (\<exists>v. x = PValue v) \<or> expandNode None (praw keccak x) gen = Some (pnode keccak None gen x)"
    proof (cases "i = 16")
      case True
      with i c(3) show ?thesis by auto
    next
      case False
      with i full.IH [of i] show ?thesis by auto
    qed
  qed
  then show ?case using those_map_Some [of cs "\<lambda>x. if raw_ref keccak (praw keccak x) = RawNil then Some NilNode
      else expandNode None (raw_ref keccak (praw keccak x)) gen" "pchild keccak gen"]
    by (simp add: comp_def stored_flag_def)
qed

subsection \<open>Sizes\<close>

text \<open>Keys and values of less than 4 GiB keep every encoding far below the 64 bit limit of the encoder.\<close>

definition bounded :: "ptree \<Rightarrow> bool" where
  "bounded p = (\<forall>key v. plookup p key = Some v \<longrightarrow> length key < 4294967296 \<and> length v < 4294967296)"

lemma bounded_value: "bounded (PValue v) \<Longrightarrow> length v < 4294967296"
  by (auto simp: bounded_def)

lemma bounded_short: "bounded (PShort k c) \<Longrightarrow> bounded c"
  unfolding bounded_def
proof (intro allI impI)
  fix key v
  assume "\<forall>key v. plookup (PShort k c) key = Some v \<longrightarrow> length key < 4294967296 \<and> length v < 4294967296" "plookup c key = Some v"
  from this(1) [rule_format, of "k @ key" v] this(2) show "length key < 4294967296 \<and> length v < 4294967296" by simp
qed

lemma bounded_key: "bounded (PShort k c) \<Longrightarrow> canon (PShort k c) \<Longrightarrow> length k < 4294967296"
proof -
  assume b: "bounded (PShort k c)" and "canon (PShort k c)"
  then obtain key where "plookup (PShort k c) key \<noteq> None" using canon_has_key by blast
  then obtain r v where "key = k @ r" "plookup (PShort k c) key = Some v" by (auto split: option.splits)
  with b show ?thesis unfolding bounded_def by fastforce
qed

lemma bounded_full: "bounded (PFull cs) \<Longrightarrow> i < length cs \<Longrightarrow> i < 256 \<Longrightarrow> bounded (cs ! i)"
  unfolding bounded_def
proof (intro allI impI)
  fix key v
  assume "\<forall>key v. plookup (PFull cs) key = Some v \<longrightarrow> length key < 4294967296 \<and> length v < 4294967296"
    "plookup (cs ! i) key = Some v" and i: "i < length cs" "i < 256"
  from this(1) [rule_format, of "word_of_nat i # key" v] this(2) i show "length key < 4294967296 \<and> length v < 4294967296"
    by (simp add: unat_word_of_nat_byte)
qed

lemma length_puthead_le: "length (puthead a b n) \<le> 9"
  using length_putint [of n] by (simp add: puthead_def Let_def)

lemma length_encode_le:
  "length (encode (Str b)) \<le> length b + 9"
  "length (encode (Lst xs)) \<le> sum_list (map (\<lambda>x. length (encode x)) xs) + 9"
  using length_puthead_le by (simp_all add: encode_bytes_def length_concat comp_def Let_def)

definition child_item :: "hash_fun \<Rightarrow> ptree \<Rightarrow> item" where
  "child_item keccak c = (if c = PNil then Str [] else raw_item (raw_ref keccak (praw keccak c)))"

lemma raw_item_praw:
  "raw_item (praw keccak (PShort k c)) = Lst [Str (hexToCompact k), raw_item (raw_ref keccak (praw keccak c))]"
  "raw_item (praw keccak (PFull cs)) = Lst (map (child_item keccak) cs)"
proof -
  have "raw_ref keccak (praw keccak c) = RawNil \<longleftrightarrow> c = PNil" for c by (cases c) (auto simp: raw_ref_def)
  then show "raw_item (praw keccak (PFull cs)) = Lst (map (child_item keccak) cs)" by (simp add: child_item_def)
qed simp

lemma hash_bytes_not_Nil [simp]: "hash_bytes h \<noteq> []"
  by (metis length_hash_bytes list.size(3) zero_neq_numeral)

lemma length_hash_item: "length (encode (Str (hash_bytes h))) = 33"
  by (simp add: encode_bytes_def puthead_def)

definition enc_ok :: "hash_fun \<Rightarrow> ptree \<Rightarrow> bool" where
  "enc_ok keccak p = (length (encode (raw_item (praw keccak p))) < 1099511627776)"

lemma penc_encode: "enc_ok keccak p \<Longrightarrow> penc keccak p = encode (raw_item (praw keccak p))"
  by (simp add: enc_ok_def penc_def raw_enc_def EncodeToBytes_encode)

lemma child_item_inner:
  "inner p \<Longrightarrow> enc_ok keccak p \<Longrightarrow> length (encode (raw_item (raw_ref keccak (praw keccak p)))) \<le> 33"
  using penc_encode [of keccak p] by (auto simp: raw_ref_praw length_hash_item big_def simp del: encode.simps)

lemma length_child_item:
  assumes "c = PNil \<or> (\<exists>v. c = PValue v) \<or> inner c \<and> enc_ok keccak c" "bounded c"
  shows "length (encode (child_item keccak c)) \<le> 4294967296 + 9"
proof (cases "inner c")
  case True
  then have "child_item keccak c = raw_item (raw_ref keccak (praw keccak c))" by (auto simp: child_item_def)
  moreover have "enc_ok keccak c" using assms(1) True by auto
  ultimately show ?thesis using child_item_inner [of c keccak] True by simp
next
  case False
  then obtain v where "c = PNil \<and> v = [] \<or> c = PValue v" using assms(1) by auto
  then have "child_item keccak c = Str v" "length v < 4294967296"
    using assms(2) bounded_value [of v] by (auto simp: child_item_def raw_ref_def)
  with length_encode_le(1) [of v] show ?thesis by (simp del: encode.simps)
qed

lemma length_decodeNibbles: "length (decodeNibbles k) \<le> length k"
  by (induction k rule: decodeNibbles.induct) auto

lemma length_hexToCompact: "length (hexToCompact k) \<le> length k + 1"
proof -
  have "length (decodeNibbles (drop m (take n k))) \<le> length k" for m n
    using length_decodeNibbles [of "drop m (take n k)"] by simp
  from this [of 0] this [of 1 "length k - 1"] this [of 1 "length k"] this [of 0 "length k"] show ?thesis
    by (auto simp: hexToCompact_def Let_def intro: le_SucI)
qed

lemma canon_enc_ok: "canon p \<Longrightarrow> bounded p \<Longrightarrow> enc_ok keccak p"
proof (induction p rule: canon_induct)
  case (leaf k v)
  have "canon (PShort k (PValue v))" using leaf by auto
  note b = bounded_key [OF leaf(3) this] bounded_value [OF bounded_short [OF leaf(3)]]
  have "length (encode (raw_item (praw keccak (PShort k (PValue v))))) \<le>
      length (encode (Str (hexToCompact k))) + length (encode (Str v)) + 9"
    using length_encode_le(2) [of "[Str (hexToCompact k), Str v]"] by (simp add: raw_ref_def)
  with length_encode_le(1) [of "hexToCompact k"] length_encode_le(1) [of v] length_hexToCompact [of k] b
  show ?case unfolding enc_ok_def by linarith
next
  case (ext k cs)
  have "canon (PShort k (PFull cs))" using ext by auto
  note b = bounded_key [OF ext(5) this] bounded_short [OF ext(5)]
  have "length (encode (raw_item (praw keccak (PShort k (PFull cs))))) \<le>
      length (encode (Str (hexToCompact k))) + length (encode (raw_item (raw_ref keccak (praw keccak (PFull cs))))) + 9"
    using length_encode_le(2) [of "[Str (hexToCompact k), raw_item (raw_ref keccak (praw keccak (PFull cs)))]"]
    by (simp only: raw_item_praw) simp
  with length_encode_le(1) [of "hexToCompact k"] length_hexToCompact [of k] b child_item_inner [OF _ ext.IH]
  show ?case unfolding enc_ok_def by fastforce
next
  case (full cs)
  note c = canon_children [OF full.hyps]
  have "length (encode (child_item keccak x)) \<le> 4294967296 + 9" if "x \<in> set cs" for x
  proof (rule length_child_item)
    from that c(1) obtain i where i: "i < 17" "x = cs ! i" by (auto simp: in_set_conv_nth)
    with bounded_full [OF full.prems, of i] c(1) show "bounded x" by simp
    show "x = PNil \<or> (\<exists>v. x = PValue v) \<or> inner x \<and> enc_ok keccak x"
      using i c(2) [of i] c(3) full.IH [of i] \<open>bounded x\<close> by (cases "i = 16") (auto intro: inner_canon)
  qed
  then have "sum_list (map (\<lambda>x. length (encode (child_item keccak x))) cs) \<le> sum_list (map (\<lambda>x. 4294967296 + 9) cs)"
    by (intro sum_list_mono)
  then have "sum_list (map (\<lambda>x. length (encode x)) (map (child_item keccak) cs)) \<le> 17 * (4294967296 + 9)"
    using c(1) by (simp add: comp_def sum_list_triv)
  from le_trans [OF length_encode_le(2) add_right_mono [OF this]] show ?case unfolding enc_ok_def raw_item_praw
    by (rule le_less_trans) simp
qed

subsection \<open>Decoding an encoded node\<close>

lemma Split_item:
  assumes "length (encode x) < 1099511627776"
  shows "Split (encode x @ rest) = (case tag_split x of (k, _, content) \<Rightarrow> Inr (k, content, rest))"
  using Split_encode_aux [of x _ _ _ rest] assms by (cases "tag_split x") simp

lemma SplitString_Str: "length (encode (Str b)) < 1099511627776 \<Longrightarrow> SplitString (encode (Str b) @ rest) = Inr (b, rest)"
  using Split_item [of "Str b" rest] by (simp add: SplitString_def tag_split_def del: encode.simps)

lemma SplitList_Lst: "length (encode (Lst xs)) < 1099511627776 \<Longrightarrow> SplitList (encode (Lst xs) @ rest) = Inr (concat (map encode xs), rest)"
  using Split_item [of "Lst xs" rest] by (simp add: SplitList_def tag_split_def Let_def del: encode.simps)

lemma CountValues_items: "length (encode (Lst xs)) < 1099511627776 \<Longrightarrow> CountValues (concat (map encode xs)) = Inr (length xs)"
proof -
  assume a: "length (encode (Lst xs)) < 1099511627776"
  have "length (encode x) < 2 ^ 64" if "x \<in> set xs" for x
    using a length_encode_elem [OF that] by (simp add: Let_def)
  then show ?thesis using CountValues_from_encode [of xs 0] by (simp add: CountValues_def)
qed

lemma elem_length: "length (encode (Lst xs)) < 1099511627776 \<Longrightarrow> x \<in> set xs \<Longrightarrow> length (encode x) < 1099511627776"
  using length_encode_elem [of x xs] by (simp add: Let_def)

lemma decodeRef_child:
  assumes "c = PNil \<or> inner c \<and> enc_ok keccak c \<and> dec (encode (raw_item (praw keccak c)) @ rest) = Inr (pnode keccak None gen c)"
  shows "decodeRef dec (encode (child_item keccak c) @ rest) = Inr (pchild keccak gen c, rest)"
proof (cases "c = PNil")
  case True
  then show ?thesis using Split_item [of "Str []" rest] by (simp add: decodeRef_def child_item_def tag_split_def encode_bytes_def puthead_def)
next
  case False
  with assms have i: "inner c" and e: "enc_ok keccak c" and d: "dec (encode (raw_item (praw keccak c)) @ rest) = Inr (pnode keccak None gen c)"
    by auto
  show ?thesis
  proof (cases "big keccak c")
    case True
    then have "child_item keccak c = Str (hash_bytes (khash keccak c))" using i by (auto simp: child_item_def raw_ref_praw)
    then show ?thesis using Split_item [of "Str (hash_bytes (khash keccak c))" rest] True i
      by (simp add: decodeRef_def length_hash_item tag_split_def pchild_def del: encode.simps)
  next
    case nb: False
    have ci: "child_item keccak c = raw_item (praw keccak c)" using i nb by (auto simp: child_item_def raw_ref_praw)
    obtain xs where l: "raw_item (praw keccak c) = Lst xs" using i by (cases c) simp_all
    have "length (encode (Lst xs)) < 32" using nb penc_encode [OF e] l by (simp add: big_def)
    then show ?thesis using Split_item [of "Lst xs" rest] d i nb unfolding ci l
      by (simp add: decodeRef_def tag_split_def Let_def pchild_def del: encode.simps)
  qed
qed

lemma decodeChildren_items:
  assumes "\<And>c rest. c \<in> set cs \<Longrightarrow> decodeRef dec (encode (child_item keccak c) @ rest) = Inr (pchild keccak gen c, rest)"
  shows "decodeChildren dec (length cs) (concat (map (\<lambda>c. encode (child_item keccak c)) cs) @ rest) = Inr (map (pchild keccak gen) cs, rest)"
  using assms by (induction cs) simp_all

lemma decodeNode_leaf:
  assumes "enc_ok keccak (PShort k (PValue v))" "term_key k"
  shows "decodeNode h (encode (raw_item (praw keccak (PShort k (PValue v)))) @ rest) gen = Inr (pnode keccak h gen (PShort k (PValue v)))"
proof -
  let ?xs = "[Str (hexToCompact k), Str v]"
  have r: "raw_item (praw keccak (PShort k (PValue v))) = Lst ?xs" by (simp add: raw_ref_def)
  have l: "length (encode (Lst ?xs)) < 1099511627776" using assms(1) unfolding enc_ok_def r .
  have "encode (Lst ?xs) \<noteq> []" by (rule encode_not_Nil)
  then show ?thesis unfolding r using SplitList_Lst [OF l, of rest] CountValues_items [OF l]
      SplitString_Str [OF elem_length [OF l], of "hexToCompact k" "encode (Str v)"] SplitString_Str [OF elem_length [OF l], of v "[]"]
      compactToHex_hexToCompact [of k] hasTerm_term [OF assms(2)] assms(2)
    by (subst decodeNode.simps) (simp add: decodeShort_def stored_flag_def del: encode.simps)
qed

lemma decodeNode_ext:
  assumes "enc_ok keccak (PShort k (PFull cs))" "nibbles k" "k \<noteq> []" "enc_ok keccak (PFull cs)"
    and "\<And>rest. decodeNode None (encode (raw_item (praw keccak (PFull cs))) @ rest) gen = Inr (pnode keccak None gen (PFull cs))"
  shows "decodeNode h (encode (raw_item (praw keccak (PShort k (PFull cs)))) @ rest) gen = Inr (pnode keccak h gen (PShort k (PFull cs)))"
proof -
  let ?xs = "[Str (hexToCompact k), child_item keccak (PFull cs)]"
  have r: "raw_item (praw keccak (PShort k (PFull cs))) = Lst ?xs" by (simp only: raw_item_praw child_item_def) simp
  have l: "length (encode (Lst ?xs)) < 1099511627776" using assms(1) unfolding enc_ok_def r .
  have "decodeRef (\<lambda>b. decodeNode None b gen) (encode (child_item keccak (PFull cs)) @ []) = Inr (pchild keccak gen (PFull cs), [])"
    by (intro decodeRef_child disjI2 conjI assms(4,5)) simp
  moreover have "encode (Lst ?xs) \<noteq> []" by (rule encode_not_Nil)
  ultimately show ?thesis unfolding r using SplitList_Lst [OF l, of rest] CountValues_items [OF l]
      SplitString_Str [OF elem_length [OF l], of "hexToCompact k" "encode (child_item keccak (PFull cs))"]
      compactToHex_hexToCompact [of k] hasTerm_nibbles [OF assms(2)] assms(2)
    by (subst decodeNode.simps) (simp add: decodeShort_def stored_flag_def del: encode.simps)
qed

lemma decodeNode_full:
  assumes "canon (PFull cs)" "enc_ok keccak (PFull cs)"
    and "\<And>c rest. c \<in> set (take 16 cs) \<Longrightarrow> decodeRef (\<lambda>b. decodeNode None b gen) (encode (child_item keccak c) @ rest) = Inr (pchild keccak gen c, rest)"
  shows "decodeNode h (encode (raw_item (praw keccak (PFull cs))) @ rest) gen = Inr (pnode keccak h gen (PFull cs))"
proof -
  note c = canon_children [OF assms(1)]
  obtain v where v: "child_item keccak (cs ! 16) = Str v" "pchild keccak gen (cs ! 16) = (if v = [] then NilNode else ValueNode v)"
    using c(3) by (cases "cs ! 16") (auto simp: child_item_def raw_ref_def)
  let ?xs = "map (child_item keccak) cs"
  have l: "length (encode (Lst ?xs)) < 1099511627776" using assms(2) unfolding enc_ok_def raw_item_praw .
  have s: "cs = take 16 cs @ [cs ! 16]" using c(1) by (rule list_17)
  have m: "map f cs = map f (take 16 cs) @ [f (cs ! 16)]" for f :: "ptree \<Rightarrow> 'x" by (subst s) simp
  have "Str v \<in> set ?xs" using nth_mem [of 16 ?xs] v(1) c(1) by simp
  note sv = SplitString_Str [OF elem_length [OF l this], of "[]"]
  have "decodeChildren (\<lambda>b. decodeNode None b gen) 16 (concat (map encode ?xs)) = Inr (map (pchild keccak gen) (take 16 cs), encode (Str v))"
    using decodeChildren_items [of "take 16 cs" "\<lambda>b. decodeNode None b gen" keccak gen "encode (Str v)"] assms(3) c(1) v(1)
    unfolding m by (simp add: comp_def)
  moreover have "encode (Lst ?xs) \<noteq> []" by (rule encode_not_Nil)
  ultimately show ?thesis unfolding raw_item_praw using SplitList_Lst [OF l, of rest] CountValues_items [OF l] sv c(1) v(2)
    by (subst decodeNode.simps) (simp add: decodeFull_def stored_flag_def m [of "pchild keccak gen"] del: encode.simps)
qed

lemma decodeNode_praw:
  assumes "canon p" "bounded p"
  shows "decodeNode h (encode (raw_item (praw keccak p)) @ rest) gen = Inr (pnode keccak h gen p)"
  using assms
proof (induction p arbitrary: h rest rule: canon_induct)
  case (leaf k v)
  then have "canon (PShort k (PValue v))" by auto
  from canon_enc_ok [OF this leaf.prems] leaf.hyps(1) show ?case by (rule decodeNode_leaf)
next
  case (ext k cs)
  note b = bounded_short [OF ext.prems]
  have "canon (PShort k (PFull cs))" using ext.hyps by auto
  from canon_enc_ok [OF this ext.prems] ext.hyps(2,1) canon_enc_ok [OF ext.hyps(3) b] ext.IH [OF b] show ?case
    by (rule decodeNode_ext)
next
  case (full cs)
  note c = canon_children [OF full.hyps]
  show ?case
  proof (rule decodeNode_full [OF full.hyps canon_enc_ok [OF full.hyps full.prems]])
    fix x rest
    assume "x \<in> set (take 16 cs)"
    then obtain i where i: "i < 16" "x = cs ! i" using c(1) by (auto simp: in_set_conv_nth)
    with full.prems c(1) have b: "bounded x" using bounded_full [of cs i] by simp
    show "decodeRef (\<lambda>b. decodeNode None b gen) (encode (child_item keccak x) @ rest) = Inr (pchild keccak gen x, rest)"
      using full.IH [of i] i b canon_enc_ok [of x] inner_canon [of x] by (intro decodeRef_child) auto
  qed
qed

lemma decodeNode_penc: "canon p \<Longrightarrow> bounded p \<Longrightarrow> decodeNode h (penc keccak p) gen = Inr (pnode keccak h gen p)"
  using decodeNode_praw [of p h keccak "[]" gen] penc_encode [OF canon_enc_ok] by simp

subsection \<open>The hash determines the tree\<close>

fun psubs :: "ptree \<Rightarrow> ptree list" where
  "psubs (PShort k c) = PShort k c # psubs c"
| "psubs (PFull cs) = PFull cs # concat (map psubs cs)"
| "psubs _ = []"

definition collide :: "hash_fun \<Rightarrow> ptree \<Rightarrow> ptree \<Rightarrow> bool" where
  "collide keccak p q = (\<exists>x \<in> set (psubs p). \<exists>y \<in> set (psubs q). penc keccak x \<noteq> penc keccak y \<and> khash keccak x = khash keccak y)"

lemma psubs_self: "inner p \<Longrightarrow> p \<in> set (psubs p)"
  by (cases p) simp_all

lemma collide_sub: "collide keccak c d \<Longrightarrow> set (psubs c) \<subseteq> set (psubs p) \<Longrightarrow> set (psubs d) \<subseteq> set (psubs q) \<Longrightarrow> collide keccak p q"
  by (auto simp: collide_def)

lemma psubs_short: "set (psubs c) \<subseteq> set (psubs (PShort k c))"
  by (simp add: subset_insertI)

lemma psubs_nth: "i < length cs \<Longrightarrow> set (psubs (cs ! i)) \<subseteq> set (psubs (PFull cs))"
  by (auto intro: nth_mem)

lemma pnode_not_hash: "pnode keccak h gen c \<noteq> HashNode b"
  by (cases c) simp_all

lemma pchild_canon:
  "canon c \<Longrightarrow> pchild keccak gen c = (if big keccak c then HashNode (hash_bytes (khash keccak c)) else pnode keccak None gen c)"
  by (simp add: pchild_def inner_canon)

lemma pchild_Nil: "pchild keccak gen c = NilNode \<longleftrightarrow> c = PNil"
  by (cases c) (simp_all add: pchild_def)

lemma pnode_determines:
  assumes "canon p" "canon q" "bounded p" "bounded q" "penc keccak p = penc keccak q"
  shows "pnode keccak h gen p = pnode keccak h gen q"
  using decodeNode_penc [OF assms(1,3), of h keccak gen] decodeNode_penc [OF assms(2,4), of h keccak gen] assms(5) by simp

lemma pchild_inject:
  assumes "canon c" "canon d" "bounded c" "bounded d" "pchild keccak gen c = pchild keccak gen d"
    and "pnode keccak None gen c = pnode keccak None gen d \<Longrightarrow> c = d \<or> collide keccak c d"
  shows "c = d \<or> collide keccak c d"
proof (cases "big keccak c")
  case True
  then have "pchild keccak gen d = HashNode (hash_bytes (khash keccak c))" using assms(5) pchild_canon [OF assms(1)] by simp
  then have e: "khash keccak c = khash keccak d"
    using pchild_canon [OF assms(2)] pnode_not_hash by (simp split: if_splits)
  show ?thesis
  proof (cases "penc keccak c = penc keccak d")
    case True
    from assms(6) [OF pnode_determines [OF assms(1-4) True]] show ?thesis .
  next
    case False
    with e show ?thesis using psubs_self [OF inner_canon] assms(1,2) unfolding collide_def by blast
  qed
next
  case False
  then have "pchild keccak gen c = pnode keccak None gen c" using pchild_canon [OF assms(1)] by simp
  then have "pnode keccak None gen c = pnode keccak None gen d"
    using assms(5) pchild_canon [OF assms(2)] pnode_not_hash [of keccak None gen c "hash_bytes (khash keccak d)"]
    by (cases "big keccak d") (simp_all add: eq_commute)
  with assms(6) show ?thesis by blast
qed

lemma pnode_inject:
  assumes "canon p" "canon q" "bounded p" "bounded q" "pnode keccak None gen p = pnode keccak None gen q"
  shows "p = q \<or> collide keccak p q"
  using assms
proof (induction p arbitrary: q rule: canon_induct)
  case (leaf k v)
  obtain d where q: "q = PShort k d" "pchild keccak gen d = ValueNode v" using leaf.prems by (cases q) auto
  then show ?case using leaf.prems(1) by (cases d) (auto simp: pchild_def split: if_splits)
next
  case (ext k cs)
  obtain d where q: "q = PShort k d" "pchild keccak gen (PFull cs) = pchild keccak gen d" using ext.prems by (cases q) auto
  have "canon d" using ext.prems(1) q by (cases d) (auto simp: pchild_canon [OF ext.hyps(3)] split: if_splits)
  note b = bounded_short [OF ext.prems(2)] bounded_short [OF ext.prems(3) [unfolded q(1)]]
  have "PFull cs = d \<or> collide keccak (PFull cs) d"
    by (rule pchild_inject [OF ext.hyps(3) \<open>canon d\<close> b q(2) ext.IH [OF \<open>canon d\<close> b]])
  then show ?case using collide_sub [OF _ psubs_short psubs_short] unfolding q(1) by metis
next
  case (full cs)
  obtain ds where q: "q = PFull ds" "map (pchild keccak gen) cs = map (pchild keccak gen) ds"
    using full.prems(1,4) by (cases q) simp_all
  note c = canon_children [OF full.hyps] and d = canon_children [OF full.prems(1) [unfolded q(1)]]
  have e: "pchild keccak gen (cs ! i) = pchild keccak gen (ds ! i)" if "i < 17" for i
    using arg_cong [OF q(2), of "\<lambda>xs. xs ! i"] that c(1) d(1) by simp
  have "cs ! i = ds ! i \<or> collide keccak (cs ! i) (ds ! i)" if i: "i < 16" for i
  proof (cases "cs ! i = PNil \<or> ds ! i = PNil")
    case True
    then have "cs ! i = PNil \<and> ds ! i = PNil"
      using e [of i] i pchild_Nil [of keccak gen "cs ! i"] pchild_Nil [of keccak gen "ds ! i"] by auto
    then show ?thesis by simp
  next
    case False
    have b: "bounded (cs ! i)" "bounded (ds ! i)"
      using bounded_full full.prems(2,3) i c(1) d(1) unfolding q(1) by simp_all
    have k: "canon (cs ! i)" "canon (ds ! i)" using False c(2) d(2) i by blast+
    have ih: "cs ! i = ds ! i \<or> collide keccak (cs ! i) (ds ! i)" if "pnode keccak None gen (cs ! i) = pnode keccak None gen (ds ! i)"
      using full.IH [OF i] False k(2) b that by blast
    have "pchild keccak gen (cs ! i) = pchild keccak gen (ds ! i)" using i by (intro e) simp
    from pchild_inject [OF k b this ih] show ?thesis .
  qed
  moreover have "cs ! 16 = ds ! 16" using e [of 16] c(3) d(3) by auto
  ultimately have "cs ! i = ds ! i \<or> collide keccak (cs ! i) (ds ! i)" if "i < 17" for i
    using that by (cases "i = 16") auto
  then consider "\<forall>i < 17. cs ! i = ds ! i" | i where "i < 17" "collide keccak (cs ! i) (ds ! i)" by blast
  then show ?case
  proof cases
    case 1
    then have "cs = ds" using c(1) d(1) by (intro nth_equalityI) simp_all
    then show ?thesis unfolding q(1) by simp
  next
    case 2
    then show ?thesis using collide_sub [OF 2(2) psubs_nth psubs_nth] c(1) d(1) unfolding q(1) by simp
  qed
qed

lemma khash_inject:
  assumes "canon p" "canon q" "bounded p" "bounded q" "khash keccak p = khash keccak q"
  shows "p = q \<or> collide keccak p q"
proof (cases "penc keccak p = penc keccak q")
  case True
  from pnode_inject [OF assms(1-4) pnode_determines [OF assms(1-4) True]] show ?thesis .
next
  case False
  with assms(5) show ?thesis using psubs_self [OF inner_canon] assms(1,2) unfolding collide_def by blast
qed

end
