(* ===== verification/Trie_Hash.thy ===== *)
theory Trie_Hash
  imports Trie_Stored
begin

text \<open>
  Hashing a trie (\<^verbatim>\<open>src/trie/hasher.go\<close>, \<^verbatim>\<open>Trie.Hash\<close>).

  The hasher reuses the hashes cached in the nodes and, when \<open>storing\<close>, hands every new node to the
  database: the list of hashes, encodings and collapsed nodes it returns.  A collapsed node has its key in
  compact form and its children replaced by their hashes.  \<open>hasher_hash\<close> is only called on nodes that are
  not nil.  The reference is the hash computed from the tree.
\<close>

fun node_item :: "node \<Rightarrow> item" where
  "node_item NilNode = Lst []"
| "node_item (ValueNode v) = Str v"
| "node_item (HashNode h) = Str h"
| "node_item (ShortNode k c _) = Lst [Str k, node_item c]"
| "node_item (FullNode cs _) = Lst (map (\<lambda>c. if c = NilNode then Str [] else node_item c) cs)"

definition node_cache :: "node \<Rightarrow> byte list option \<times> bool" where
  "node_cache n =
     (case n of
        ShortNode _ _ fl \<Rightarrow> (fl_hash fl, fl_dirty fl)
      | FullNode _ fl \<Rightarrow> (fl_hash fl, fl_dirty fl)
      | _ \<Rightarrow> (None, True))"

definition flag_canUnload :: "u16 \<Rightarrow> u16 \<Rightarrow> nodeFlag \<Rightarrow> bool" where
  "flag_canUnload gen limit fl = (\<not> fl_dirty fl \<and> gen - fl_gen fl \<ge> limit)"

definition node_canUnload :: "u16 \<Rightarrow> u16 \<Rightarrow> node \<Rightarrow> bool" where
  "node_canUnload gen limit n =
     (case n of
        ShortNode _ _ fl \<Rightarrow> flag_canUnload gen limit fl
      | FullNode _ fl \<Rightarrow> flag_canUnload gen limit fl
      | _ \<Rightarrow> False)"

fun is_hashNode :: "node \<Rightarrow> bool" where
  "is_hashNode (HashNode _) = True"
| "is_hashNode _ = False"

lemma is_hashNode_iff: "is_hashNode n \<longleftrightarrow> (\<exists>h. n = HashNode h)"
  by (cases n) simp_all

type_synonym trie_write = "Hash \<times> byte list \<times> node"

definition hasher_store :: "hash_fun \<Rightarrow> bool \<Rightarrow> node \<Rightarrow> bool \<Rightarrow> node \<times> trie_write list" where
  "hasher_store keccak storing n force =
     (if n = NilNode \<or> is_hashNode n then (n, [])
      else
        (let enc = EncodeToBytes (node_item n)
         in if length enc < 32 \<and> \<not> force then (n, [])
            else
              (let hash = (case fst (node_cache n) of Some h \<Rightarrow> h | None \<Rightarrow> hash_bytes (keccak enc))
               in (HashNode hash, if storing then [(BytesToHash hash, enc, n)] else []))))"

definition set_flags :: "bool \<Rightarrow> node \<Rightarrow> node \<Rightarrow> node" where
  "set_flags storing hashed cached =
     (let h = (case hashed of HashNode h \<Rightarrow> Some h | _ \<Rightarrow> None);
          upd = (\<lambda>fl. fl\<lparr>fl_hash := h, fl_dirty := (if storing then False else fl_dirty fl)\<rparr>)
      in case cached of
           ShortNode k c fl \<Rightarrow> ShortNode k c (upd fl)
         | FullNode cs fl \<Rightarrow> FullNode cs (upd fl)
         | _ \<Rightarrow> cached)"

function (sequential) hasher_hash :: "hash_fun \<Rightarrow> bool \<Rightarrow> u16 \<Rightarrow> u16 \<Rightarrow> node \<Rightarrow> bool \<Rightarrow> node \<times> node \<times> trie_write list"
  and hashChildren :: "hash_fun \<Rightarrow> bool \<Rightarrow> u16 \<Rightarrow> u16 \<Rightarrow> node \<Rightarrow> node \<times> node \<times> trie_write list" where
  "hasher_hash keccak storing gen limit n force =
     (let walk = (case hashChildren keccak storing gen limit n of (collapsed, cached, ws) \<Rightarrow>
                    (case hasher_store keccak storing collapsed force of (hashed, w) \<Rightarrow>
                       (hashed, set_flags storing hashed cached, ws @ w)))
      in case node_cache n of
           (Some h, dirty) \<Rightarrow>
             if \<not> storing then (HashNode h, n, [])
             else if node_canUnload gen limit n then (HashNode h, HashNode h, [])
             else if \<not> dirty then (HashNode h, n, [])
             else walk
         | (None, _) \<Rightarrow> walk)"
| "hashChildren keccak storing gen limit (ShortNode k c fl) =
     (case c of
        ValueNode v \<Rightarrow> (ShortNode (hexToCompact k) c fl, ShortNode k c fl, [])
      | _ \<Rightarrow>
          (case hasher_hash keccak storing gen limit c False of (ch, cc, ws) \<Rightarrow>
             (ShortNode (hexToCompact k) ch fl, ShortNode k cc fl, ws)))"
| "hashChildren keccak storing gen limit (FullNode cs fl) =
     (let rs = map (\<lambda>c. if c = NilNode then (NilNode, NilNode, []) else hasher_hash keccak storing gen limit c False) (take 16 cs)
      in (FullNode (map fst rs @ drop 16 cs) fl, FullNode (map (fst \<circ> snd) rs @ drop 16 cs) fl, concat (map (snd \<circ> snd) rs)))"
| "hashChildren keccak storing gen limit n = (n, n, [])"
  by pat_completeness auto
termination
  by (relation "measure (\<lambda>x. case x of Inl (_, _, _, _, n, _) \<Rightarrow> 2 * size_class.size n + 1 | Inr (_, _, _, _, n) \<Rightarrow> 2 * size_class.size n)")
    (auto dest: size_take)

declare hasher_hash.simps [simp del]

definition emptyRoot :: Hash where
  "emptyRoot = 0x56e81f171bcc55a6ff8345e692c0f86e5b48e01b996cadc001622fb5e363b421"

definition hashRoot :: "hash_fun \<Rightarrow> bool \<Rightarrow> Trie \<Rightarrow> node \<times> node \<times> trie_write list" where
  "hashRoot keccak storing t =
     (if root t = NilNode then (HashNode (hash_bytes emptyRoot), NilNode, [])
      else hasher_hash keccak storing (cachegen t) (cachelimit t) (root t) True)"

text \<open>The type assertion \<^verbatim>\<open>hash.(hashNode)\<close> holds because the root is always hashed.\<close>

definition root_hash :: "node \<Rightarrow> Hash" where
  "root_hash n = (case n of HashNode h \<Rightarrow> BytesToHash h | _ \<Rightarrow> 0)"

definition trie_Hash :: "hash_fun \<Rightarrow> Trie \<Rightarrow> Hash \<times> Trie" where
  "trie_Hash keccak t =
     (case hashRoot keccak False t of (hash, cached, _) \<Rightarrow> (root_hash hash, t\<lparr>root := cached\<rparr>))"

subsection \<open>What the database holds\<close>

text \<open>
  \<open>has_node keccak dbg q\<close> says that the database, at every cache generation, gives the stored form of \<open>q\<close> under
  its hash, and \<open>stored\<close> that it does for each node of a tree that is not embedded.  \<open>cache_ok\<close> is the
  invariant of the caches: a cached hash is the hash of the tree, and a clean node is in the database.
\<close>

definition has_node :: "hash_fun \<Rightarrow> (u16 \<Rightarrow> node_db) \<Rightarrow> ptree \<Rightarrow> bool" where
  "has_node keccak dbg q = (inner q \<and> (\<forall>gen. dbg gen (khash keccak q) = Some (pnode keccak (Some (hash_bytes (khash keccak q))) gen q)))"

definition stored :: "hash_fun \<Rightarrow> (u16 \<Rightarrow> node_db) \<Rightarrow> bool \<Rightarrow> ptree \<Rightarrow> bool" where
  "stored keccak dbg f p = ((f \<longrightarrow> has_node keccak dbg p) \<and> (\<forall>q \<in> set (psubs p). big keccak q \<longrightarrow> has_node keccak dbg q))"

definition cache_ok :: "hash_fun \<Rightarrow> (u16 \<Rightarrow> node_db) \<Rightarrow> bool \<Rightarrow> bool \<Rightarrow> byte list option \<Rightarrow> ptree \<Rightarrow> bool" where
  "cache_ok keccak dbg f d h p =
     ((case h of
         None \<Rightarrow> d \<or> \<not> f \<and> \<not> big keccak p
       | Some b \<Rightarrow> b = hash_bytes (khash keccak p) \<and> (f \<or> big keccak p)) \<and>
      (\<not> d \<longrightarrow> stored keccak dbg f p))"

definition keeps :: "hash_fun \<Rightarrow> (u16 \<Rightarrow> node_db) \<Rightarrow> (u16 \<Rightarrow> node_db) \<Rightarrow> bool" where
  "keeps keccak dbg dbg' = (\<forall>q. has_node keccak dbg q \<longrightarrow> has_node keccak dbg' q)"

definition leafy :: "ptree \<Rightarrow> bool" where
  "leafy p = (p = PNil \<or> (\<exists>v. p = PValue v))"

lemma canon_leafy: "canon (PFull cs) \<Longrightarrow> i < 17 \<Longrightarrow> leafy (cs ! i) \<or> canon (cs ! i)"
  using canon_children(2) [of cs i] canon_children(3) [of cs] by (cases "i = 16") (auto simp: leafy_def)

lemma stored_short: "stored keccak dbg f (PShort k c) \<Longrightarrow> stored keccak dbg False c"
  by (auto simp: stored_def)

lemma stored_full: "stored keccak dbg f (PFull cs) \<Longrightarrow> i < length cs \<Longrightarrow> stored keccak dbg False (cs ! i)"
  using psubs_nth [of i cs] by (auto simp: stored_def)

lemma stored_keeps: "keeps keccak dbg dbg' \<Longrightarrow> stored keccak dbg f p \<Longrightarrow> stored keccak dbg' f p"
  by (auto simp: stored_def keeps_def)

lemma stored_self: "stored keccak dbg f p \<Longrightarrow> inner p \<Longrightarrow> f \<or> big keccak p \<Longrightarrow> has_node keccak dbg p"
  using psubs_self by (auto simp: stored_def)

lemma loads_avail_hash:
  assumes "has_node keccak dbg p" "f \<or> big keccak p" "inner p" "stored keccak dbg f p"
    and "loads (dbg gen) (cache_ok keccak dbg) f (pnode keccak (Some (hash_bytes (khash keccak p))) gen p) p"
  shows "loads (dbg gen) (cache_ok keccak dbg) f (HashNode (hash_bytes (khash keccak p))) p"
proof (rule loads_hash)
  show "dbg gen (BytesToHash (hash_bytes (khash keccak p))) = Some (pnode keccak (Some (hash_bytes (khash keccak p))) gen p)"
    using assms(1) by (simp add: has_node_def)
  show "inner_node (pnode keccak (Some (hash_bytes (khash keccak p))) gen p)"
    using assms(3) by (cases p) (simp_all add: inner_node_def)
  show "cache_ok keccak dbg f False (Some (hash_bytes (khash keccak p))) p" using assms by (simp add: cache_ok_def)
qed (rule assms(5))

lemma flag_ok_stored:
  "stored keccak dbg f p \<Longrightarrow> flag_ok (cache_ok keccak dbg) f (stored_flag (if f \<or> big keccak p then Some (hash_bytes (khash keccak p)) else None) gen) p"
  by (simp add: flag_ok_def stored_flag_def cache_ok_def)

lemma loads_pchild:
  assumes "leafy c \<or> inner c \<and> stored keccak dbg False c \<and>
      loads (dbg gen) (cache_ok keccak dbg) False (pnode keccak (if big keccak c then Some (hash_bytes (khash keccak c)) else None) gen c) c"
  shows "loads (dbg gen) (cache_ok keccak dbg) False (pchild keccak gen c) c"
proof (cases "leafy c")
  case False
  with assms have a: "inner c" "stored keccak dbg False c"
    "loads (dbg gen) (cache_ok keccak dbg) False (pnode keccak (if big keccak c then Some (hash_bytes (khash keccak c)) else None) gen c) c"
    by auto
  then show ?thesis using loads_avail_hash [of keccak dbg c False gen] stored_self [OF a(2,1)]
    by (cases "big keccak c") (simp_all add: pchild_def)
qed (auto simp: leafy_def)

lemma loads_pnode:
  assumes "canon p" "stored keccak dbg f p"
  shows "loads (dbg gen) (cache_ok keccak dbg) f (pnode keccak (if f \<or> big keccak p then Some (hash_bytes (khash keccak p)) else None) gen p) p"
  using assms
proof (induction p arbitrary: f rule: canon_induct)
  case (leaf k v)
  then show ?case by (simp add: flag_ok_stored)
next
  case (ext k cs)
  from ext.IH [OF stored_short [OF ext.prems]] stored_short [OF ext.prems] ext.prems show ?case
    by (simp add: flag_ok_stored loads_pchild del: pnode_child(2))
next
  case (full cs)
  note c = canon_children [OF full.hyps]
  have "loads (dbg gen) (cache_ok keccak dbg) False (pchild keccak gen (cs ! i)) (cs ! i)" if i: "i < 17" for i
  proof (rule loads_pchild, cases "leafy (cs ! i)")
    case False
    then have "i \<noteq> 16" using c(3) by (auto simp: leafy_def)
    moreover have "cs ! i \<noteq> PNil" using False by (auto simp: leafy_def)
    ultimately have "canon (cs ! i)" "\<And>f. stored keccak dbg f (cs ! i) \<Longrightarrow>
        loads (dbg gen) (cache_ok keccak dbg) f (pnode keccak (if f \<or> big keccak (cs ! i) then Some (hash_bytes (khash keccak (cs ! i))) else None) gen (cs ! i)) (cs ! i)"
      using full.IH [of i] i by auto
    with stored_full [OF full.prems, of i] i c(1) inner_canon show "leafy (cs ! i) \<or> inner (cs ! i) \<and> stored keccak dbg False (cs ! i) \<and>
      loads (dbg gen) (cache_ok keccak dbg) False (pnode keccak (if big keccak (cs ! i) then Some (hash_bytes (khash keccak (cs ! i))) else None) gen (cs ! i)) (cs ! i)"
      by fastforce
  qed simp
  then show ?case using full.prems c(1) by (simp add: flag_ok_stored list_all2_conv_all_nth)
qed

lemma loads_hash_node:
  assumes "canon p" "stored keccak dbg f p" "f \<or> big keccak p"
  shows "loads (dbg gen) (cache_ok keccak dbg) f (HashNode (hash_bytes (khash keccak p))) p"
proof (rule loads_avail_hash)
  show "inner p" by (rule inner_canon [OF assms(1)])
  then show "has_node keccak dbg p" using stored_self assms(2,3) by blast
  show "loads (dbg gen) (cache_ok keccak dbg) f (pnode keccak (Some (hash_bytes (khash keccak p))) gen p) p"
    using loads_pnode [OF assms(1,2), of gen] assms(3) by simp
qed (rule assms)+

text \<open>What stands for a tree still does when the database has grown, at every cache generation.\<close>

lemma cache_ok_keeps: "keeps keccak dbg dbg' \<Longrightarrow> cache_ok keccak dbg f d h p \<Longrightarrow> cache_ok keccak dbg' f d h p"
  using stored_keeps by (auto simp: cache_ok_def)

lemma flag_ok_keeps: "keeps keccak dbg dbg' \<Longrightarrow> flag_ok (cache_ok keccak dbg) f fl p \<Longrightarrow> flag_ok (cache_ok keccak dbg') f fl p"
  using cache_ok_keeps by (auto simp: flag_ok_def)

lemma loads_keeps:
  assumes "keeps keccak dbg dbg'" "loads (dbg gen) (cache_ok keccak dbg) f n p" "leafy p \<or> canon p"
  shows "loads (dbg' gen') (cache_ok keccak dbg') f n p"
  using assms(2,3)
proof (induction rule: loads.induct)
  case (loads_short c p f fl k)
  then have "leafy p \<or> canon p" by (cases p) (auto simp: leafy_def)
  with loads_short flag_ok_keeps [OF assms(1)] show ?case by auto
next
  case (loads_full cs ps f fl)
  then have "canon (PFull ps)" by (simp add: leafy_def)
  note c = canon_children [OF this]
  have "length cs = length ps" using loads_full.IH by (rule list_all2_lengthD)
  moreover have "loads (dbg' gen') (cache_ok keccak dbg') False (cs ! i) (ps ! i)" if "i < 17" for i
    using list_all2_nthD2 [OF loads_full.IH, of i] that c(1) canon_leafy [OF \<open>canon (PFull ps)\<close> that] by simp
  ultimately show ?case using flag_ok_keeps [OF assms(1) loads_full.hyps(1)] c(1) by (simp add: list_all2_conv_all_nth)
next
  case (loads_hash h n f p)
  have "p \<noteq> PNil" "\<forall>v. p \<noteq> PValue v" using loads_hash.hyps by (auto simp: inner_node_def elim: loads.cases split: node.splits)
  with loads_hash.prems have "canon p" by (auto simp: leafy_def)
  moreover have "stored keccak dbg' f p" "h = hash_bytes (khash keccak p)" "f \<or> big keccak p"
    using loads_hash.hyps(3) stored_keeps [OF assms(1)] by (simp_all add: cache_ok_def)
  ultimately show ?case using loads_hash_node by blast
qed simp_all

subsection \<open>The hasher\<close>

lemma those_SomeD: "those xs = Some ys \<Longrightarrow> xs = map Some ys"
  by (induction xs arbitrary: ys) (auto split: option.splits)

lemma simplifyNode_item: "simplifyNode n = Some r \<Longrightarrow> node_item n = raw_item r"
proof (induction n arbitrary: r rule: simplifyNode.induct)
  case (2 cs fl)
  then obtain rs where r: "r = RawFull rs" "those (map (\<lambda>c. if c = NilNode then Some RawNil else simplifyNode c) cs) = Some rs" by auto
  have e: "map (\<lambda>c. if c = NilNode then Some RawNil else simplifyNode c) cs = map Some rs" by (rule those_SomeD [OF r(2)])
  have "length cs = length rs" using arg_cong [OF e, of length] by simp
  moreover have "(if cs ! i = NilNode then Str [] else node_item (cs ! i)) = (if rs ! i = RawNil then Str [] else raw_item (rs ! i))"
    if i: "i < length cs" for i
  proof -
    have "(if cs ! i = NilNode then Some RawNil else simplifyNode (cs ! i)) = Some (rs ! i)"
      using arg_cong [OF e, of "\<lambda>xs. xs ! i"] i \<open>length cs = length rs\<close> by simp
    moreover have "simplifyNode (cs ! i) \<noteq> Some RawNil" by (cases "cs ! i") auto
    ultimately show ?thesis using 2(1) [of "cs ! i" "rs ! i"] i by (auto split: if_splits)
  qed
  ultimately show ?case unfolding r(1) by (auto intro!: nth_equalityI)
qed auto

text \<open>
  What the hasher returns for a node that stands for \<open>p\<close>: the reference to \<open>p\<close>, the stored form of each node it writes,
  and a node that stands for \<open>p\<close> in every larger database that holds what was written.
\<close>

definition written :: "hash_fun \<Rightarrow> trie_write list \<Rightarrow> ptree \<Rightarrow> bool" where
  "written keccak ws q = (\<exists>c. (khash keccak q, penc keccak q, c) \<in> set ws \<and> simplifyNode c = Some (praw keccak q))"

definition write_ok :: "hash_fun \<Rightarrow> ptree \<Rightarrow> trie_write \<Rightarrow> bool" where
  "write_ok keccak p w =
     (\<exists>q c. q \<in> set (psubs p) \<and> canon q \<and> w = (khash keccak q, penc keccak q, c) \<and> simplifyNode c = Some (praw keccak q))"

definition cached_ok :: "hash_fun \<Rightarrow> (u16 \<Rightarrow> node_db) \<Rightarrow> bool \<Rightarrow> bool \<Rightarrow> ptree \<Rightarrow> node \<Rightarrow> trie_write list \<Rightarrow> bool" where
  "cached_ok keccak dbg storing f p n ws =
     (\<forall>dbg' gen. keeps keccak dbg dbg' \<longrightarrow> (\<forall>q \<in> set (psubs p). written keccak ws q \<longrightarrow> has_node keccak dbg' q) \<longrightarrow>
        loads (dbg' gen) (cache_ok keccak dbg') f n p \<and> (storing \<longrightarrow> stored keccak dbg' f p))"

definition hashed_ok :: "hash_fun \<Rightarrow> (u16 \<Rightarrow> node_db) \<Rightarrow> bool \<Rightarrow> bool \<Rightarrow> ptree \<Rightarrow> node \<times> node \<times> trie_write list \<Rightarrow> bool" where
  "hashed_ok keccak dbg storing f p res =
     (case res of (hashed, cached, ws) \<Rightarrow>
        simplifyNode hashed = Some (if f then RawHash (hash_bytes (khash keccak p)) else raw_ref keccak (praw keccak p)) \<and>
        hashed \<noteq> NilNode \<and> list_all (write_ok keccak p) ws \<and> (storing \<or> ws = []) \<and> cached_ok keccak dbg storing f p cached ws)"

fun with_flag :: "nodeFlag \<Rightarrow> node \<Rightarrow> node" where
  "with_flag fl (ShortNode k c _) = ShortNode k c fl"
| "with_flag fl (FullNode cs _) = FullNode cs fl"
| "with_flag fl n = n"

definition walked_ok :: "hash_fun \<Rightarrow> (u16 \<Rightarrow> node_db) \<Rightarrow> bool \<Rightarrow> ptree \<Rightarrow> nodeFlag \<Rightarrow> node \<times> node \<times> trie_write list \<Rightarrow> bool" where
  "walked_ok keccak dbg storing p fl res =
     (case res of (collapsed, cached, ws) \<Rightarrow>
        simplifyNode collapsed = Some (praw keccak p) \<and> inner_node collapsed \<and> node_cache collapsed = (fl_hash fl, fl_dirty fl) \<and>
        inner_node cached \<and> with_flag fl cached = cached \<and> list_all (write_ok keccak p) ws \<and> (storing \<or> ws = []) \<and>
        (\<forall>dbg'. keeps keccak dbg dbg' \<longrightarrow> (\<forall>q \<in> set (psubs p). written keccak ws q \<longrightarrow> has_node keccak dbg' q) \<longrightarrow>
           (\<forall>f gen fl'. flag_ok (cache_ok keccak dbg') f fl' p \<longrightarrow> loads (dbg' gen) (cache_ok keccak dbg') f (with_flag fl' cached) p) \<and>
           (storing \<longrightarrow> (\<forall>f. (f \<or> big keccak p \<longrightarrow> has_node keccak dbg' p) \<longrightarrow> stored keccak dbg' f p))))"

lemma written_append: "written keccak (ws @ ws') q \<longleftrightarrow> written keccak ws q \<or> written keccak ws' q"
  by (auto simp: written_def)

lemma hashed_ok_cached:
  assumes "loads (dbg gen0) (cache_ok keccak dbg) f n p" "canon p" "cache_ok keccak dbg f d (Some h) p" "storing \<longrightarrow> \<not> d"
    and "n' = n \<or> \<not> d \<and> n' = HashNode h"
  shows "hashed_ok keccak dbg storing f p (HashNode h, n', [])"
proof -
  have h: "h = hash_bytes (khash keccak p)" "f \<or> big keccak p" "\<not> d \<longrightarrow> stored keccak dbg f p"
    using assms(3) by (simp_all add: cache_ok_def)
  have "cached_ok keccak dbg storing f p n' []"
    unfolding cached_ok_def
  proof (intro allI impI conjI)
    fix dbg' gen
    assume k: "keeps keccak dbg dbg'"
    show "storing \<Longrightarrow> stored keccak dbg' f p" using assms(4) h(3) stored_keeps [OF k] by blast
    show "loads (dbg' gen) (cache_ok keccak dbg') f n' p"
      using assms(5)
    proof
      assume "n' = n"
      with loads_keeps [OF k assms(1)] assms(2) show ?thesis by simp
    next
      assume "\<not> d \<and> n' = HashNode h"
      with h loads_hash_node [OF assms(2) stored_keeps [OF k]] show ?thesis by simp
    qed
  qed
  then show ?thesis using h inner_canon [OF assms(2)] by (auto simp: hashed_ok_def raw_ref_praw)
qed

lemma flag_after:
  assumes "flag_ok (cache_ok keccak dbg) f fl p" "keeps keccak dbg dbg'" "storing \<longrightarrow> stored keccak dbg' f p"
  shows "flag_ok (cache_ok keccak dbg') f (fl\<lparr>fl_hash := (if f \<or> big keccak p then Some (hash_bytes (khash keccak p)) else None),
    fl_dirty := (if storing then False else fl_dirty fl)\<rparr>) p"
proof -
  have "fl_dirty fl \<or> stored keccak dbg' f p"
    using assms(1) stored_keeps [OF assms(2)] by (auto simp: flag_ok_def cache_ok_def)
  with assms(3) show ?thesis by (cases fl) (auto simp: flag_ok_def cache_ok_def)
qed

lemma store_ok:
  assumes "simplifyNode c = Some (praw keccak p)" "inner_node c" "node_cache c = (fl_hash fl, fl_dirty fl)"
    and "flag_ok (cache_ok keccak dbg) f fl p" "canon p" "hasher_store keccak storing c f = (hashed, w)"
  shows "hashed = (if f \<or> big keccak p then HashNode (hash_bytes (khash keccak p)) else c)"
    and "w = (if storing \<and> (f \<or> big keccak p) then [(khash keccak p, penc keccak p, c)] else [])"
proof -
  have e: "EncodeToBytes (node_item c) = penc keccak p"
    using simplifyNode_item [OF assms(1)] by (simp add: penc_def raw_enc_def)
  have "(case fl_hash fl of Some h \<Rightarrow> h | None \<Rightarrow> hash_bytes (keccak (penc keccak p))) = hash_bytes (khash keccak p)"
    using assms(4) by (auto simp: flag_ok_def cache_ok_def khash_def split: option.splits)
  moreover have "c \<noteq> NilNode" "\<nexists>h. c = HashNode h" using assms(2) by (auto simp: inner_node_def)
  ultimately show "hashed = (if f \<or> big keccak p then HashNode (hash_bytes (khash keccak p)) else c)"
    "w = (if storing \<and> (f \<or> big keccak p) then [(khash keccak p, penc keccak p, c)] else [])"
    using assms(3,6) e by (auto simp: hasher_store_def is_hashNode_iff big_def Let_def split: if_splits)
qed

lemma set_flags_eq:
  assumes "inner_node cached" "with_flag fl cached = cached" "hashed = (if b then HashNode h else c)" "\<nexists>h. c = HashNode h"
  shows "set_flags storing hashed cached =
    with_flag (fl\<lparr>fl_hash := (if b then Some h else None), fl_dirty := (if storing then False else fl_dirty fl)\<rparr>) cached"
  using assms by (cases cached; cases c) (auto simp: set_flags_def inner_node_def)

lemma walk_ok:
  assumes "walked_ok keccak dbg storing p fl (collapsed, cached, ws)" "flag_ok (cache_ok keccak dbg) f fl p" "canon p"
    and "hasher_store keccak storing collapsed f = (hashed, w)"
  shows "hashed_ok keccak dbg storing f p (hashed, set_flags storing hashed cached, ws @ w)"
proof -
  let ?b = "f \<or> big keccak p"
  let ?fl = "fl\<lparr>fl_hash := (if ?b then Some (hash_bytes (khash keccak p)) else None), fl_dirty := (if storing then False else fl_dirty fl)\<rparr>"
  have a: "simplifyNode collapsed = Some (praw keccak p)" "inner_node collapsed" "node_cache collapsed = (fl_hash fl, fl_dirty fl)"
    "inner_node cached" "with_flag fl cached = cached" "list_all (write_ok keccak p) ws" "storing \<or> ws = []"
    using assms(1) by (simp_all add: walked_ok_def)
  note st = store_ok [OF a(1-3) assms(2-4)]
  have sf: "set_flags storing hashed cached = with_flag ?fl cached"
    using a(2) by (intro set_flags_eq [OF a(4,5) st(1)]) (auto simp: inner_node_def)
  have "canon p \<and> p \<in> set (psubs p)" using assms(3) psubs_self inner_canon by blast
  then have w: "list_all (write_ok keccak p) w" "storing \<or> w = []" "storing \<and> ?b \<longrightarrow> written keccak w p"
    using st(2) a(1) by (auto simp: write_ok_def written_def)
  have "cached_ok keccak dbg storing f p (with_flag ?fl cached) (ws @ w)"
    unfolding cached_ok_def
  proof (intro allI impI)
    fix dbg' gen
    assume k: "keeps keccak dbg dbg'" and h: "\<forall>q \<in> set (psubs p). written keccak (ws @ w) q \<longrightarrow> has_node keccak dbg' q"
    have hp: "storing \<and> ?b \<longrightarrow> has_node keccak dbg' p"
      using h w(3) \<open>canon p \<and> p \<in> set (psubs p)\<close> by (auto simp: written_append)
    have l: "\<forall>f gen fl'. flag_ok (cache_ok keccak dbg') f fl' p \<longrightarrow> loads (dbg' gen) (cache_ok keccak dbg') f (with_flag fl' cached) p"
      and s: "storing \<longrightarrow> (\<forall>f. (f \<or> big keccak p \<longrightarrow> has_node keccak dbg' p) \<longrightarrow> stored keccak dbg' f p)"
      using assms(1) k h unfolding walked_ok_def by (auto simp: written_append)
    then have "storing \<longrightarrow> stored keccak dbg' f p" using hp by blast
    with l flag_after [OF assms(2) k this]
    show "loads (dbg' gen) (cache_ok keccak dbg') f (with_flag ?fl cached) p \<and> (storing \<longrightarrow> stored keccak dbg' f p)" by blast
  qed
  moreover have "simplifyNode hashed = Some (if f then RawHash (hash_bytes (khash keccak p)) else raw_ref keccak (praw keccak p))"
    using st(1) a(1) inner_canon [OF assms(3)] by (auto simp: raw_ref_praw)
  moreover have "hashed \<noteq> NilNode" using st(1) a(2) by (auto simp: inner_node_def)
  ultimately show ?thesis using a(6,7) w(1,2) unfolding hashed_ok_def sf by auto
qed

lemma hasher_hash_inner:
  assumes "loads (dbg gen0) (cache_ok keccak dbg) f n p" "canon p" "flag_ok (cache_ok keccak dbg) f fl p"
    and "n = ShortNode k c fl \<or> n = FullNode cs fl"
    and "walked_ok keccak dbg storing p fl (hashChildren keccak storing gen limit n)"
  shows "hashed_ok keccak dbg storing f p (hasher_hash keccak storing gen limit n f)"
proof -
  obtain collapsed cached ws where c: "hashChildren keccak storing gen limit n = (collapsed, cached, ws)" by (metis prod_cases3)
  obtain hashed w where s: "hasher_store keccak storing collapsed f = (hashed, w)" by fastforce
  note walk = walk_ok [OF assms(5) [unfolded c] assms(3,2) s]
  have n: "node_cache n = (fl_hash fl, fl_dirty fl)" using assms(4) by (auto simp: node_cache_def)
  show ?thesis
  proof (cases "fl_hash fl")
    case None
    then show ?thesis using walk c s n by (subst hasher_hash.simps) simp
  next
    case (Some h)
    then have ok: "cache_ok keccak dbg f (fl_dirty fl) (Some h) p" using assms(3) by (auto simp: flag_ok_def)
    have u: "node_canUnload gen limit n \<Longrightarrow> \<not> fl_dirty fl" using assms(4) by (auto simp: node_canUnload_def flag_canUnload_def)
    note cached = hashed_ok_cached [OF assms(1,2) ok]
    show ?thesis using walk c s n Some u cached [of storing n] cached [of storing "HashNode h"]
      by (subst hasher_hash.simps) (cases storing; auto)
  qed
qed

lemma hasher_hash_hashnode:
  assumes "loads (dbg gen0) (cache_ok keccak dbg) f (HashNode h) p" "canon p"
  shows "hashed_ok keccak dbg storing f p (hasher_hash keccak storing gen limit (HashNode h) f)"
proof -
  have "cache_ok keccak dbg f False (Some h) p" using assms(1) by (auto elim: loads_hashE)
  from hashed_ok_cached [OF assms this, of storing "HashNode h"] show ?thesis
    by (subst hasher_hash.simps) (simp add: node_cache_def hasher_store_def set_flags_def)
qed

lemma walked_leaf:
  assumes "term_key k"
  shows "walked_ok keccak dbg storing (PShort k (PValue v)) fl (hashChildren keccak storing gen limit (ShortNode k (ValueNode v) fl))"
  by (auto simp: walked_ok_def inner_node_def node_cache_def raw_ref_def stored_def)

lemma write_ok_sub: "list_all (write_ok keccak c) ws \<Longrightarrow> set (psubs c) \<subseteq> set (psubs p) \<Longrightarrow> list_all (write_ok keccak p) ws"
  by (fastforce simp: list_all_iff write_ok_def)

lemma walked_ext:
  assumes "hashed_ok keccak dbg storing False (PFull cs) (hasher_hash keccak storing gen limit c False)" "\<forall>v. c \<noteq> ValueNode v"
  shows "walked_ok keccak dbg storing (PShort k (PFull cs)) fl (hashChildren keccak storing gen limit (ShortNode k c fl))"
proof -
  let ?p = "PShort k (PFull cs)"
  obtain ch cc ws where r: "hasher_hash keccak storing gen limit c False = (ch, cc, ws)" by (metis prod_cases3)
  have h: "simplifyNode ch = Some (raw_ref keccak (praw keccak (PFull cs)))" "list_all (write_ok keccak (PFull cs)) ws"
    "storing \<or> ws = []" "cached_ok keccak dbg storing False (PFull cs) cc ws"
    using assms(1) unfolding r hashed_ok_def by simp_all
  have e: "hashChildren keccak storing gen limit (ShortNode k c fl) = (ShortNode (hexToCompact k) ch fl, ShortNode k cc fl, ws)"
    using assms(2) r by (cases c) simp_all
  have "loads (dbg' g) (cache_ok keccak dbg') f (ShortNode k cc fl') ?p \<and>
      (storing \<longrightarrow> (\<forall>f. (f \<or> big keccak ?p \<longrightarrow> has_node keccak dbg' ?p) \<longrightarrow> stored keccak dbg' f ?p))"
    if "keeps keccak dbg dbg'" "\<forall>q \<in> set (psubs ?p). written keccak ws q \<longrightarrow> has_node keccak dbg' q" "flag_ok (cache_ok keccak dbg') f fl' ?p"
    for dbg' g f fl'
  proof -
    have "loads (dbg' g) (cache_ok keccak dbg') False cc (PFull cs) \<and> (storing \<longrightarrow> stored keccak dbg' False (PFull cs))"
      using h(4) that(1,2) psubs_short [of "PFull cs" k] unfolding cached_ok_def by blast
    with that(3) show ?thesis by (auto simp: stored_def)
  qed
  note l = this
  have "storing \<longrightarrow> (\<forall>f. (f \<or> big keccak ?p \<longrightarrow> has_node keccak dbg' ?p) \<longrightarrow> stored keccak dbg' f ?p)"
    if "keeps keccak dbg dbg'" "\<forall>q \<in> set (psubs ?p). written keccak ws q \<longrightarrow> has_node keccak dbg' q" for dbg'
    using l [OF that flag_ok_new, of 0 False] by blast
  with l show ?thesis unfolding walked_ok_def e using h(1,3) write_ok_sub [OF h(2) psubs_short, of k]
    by (simp add: inner_node_def node_cache_def del: praw.simps(4) loads_simps psubs.simps)
qed

definition child_ok :: "hash_fun \<Rightarrow> (u16 \<Rightarrow> node_db) \<Rightarrow> bool \<Rightarrow> ptree \<Rightarrow> node \<times> node \<times> trie_write list \<Rightarrow> bool" where
  "child_ok keccak dbg storing c res =
     (case res of (h, cc, ws) \<Rightarrow>
        (if h = NilNode then Some RawNil else simplifyNode h) = Some (raw_ref keccak (praw keccak c)) \<and>
        list_all (write_ok keccak c) ws \<and> (storing \<or> ws = []) \<and> cached_ok keccak dbg storing False c cc ws)"

lemma child_ok_leafy: "n = (case c of PValue v \<Rightarrow> ValueNode v | _ \<Rightarrow> NilNode) \<Longrightarrow> leafy c \<Longrightarrow> child_ok keccak dbg storing c (n, n, [])"
  by (auto simp: child_ok_def leafy_def raw_ref_def cached_ok_def stored_def)

lemma child_ok_hashed: "hashed_ok keccak dbg storing False c res \<Longrightarrow> child_ok keccak dbg storing c res"
  by (auto simp: child_ok_def hashed_ok_def)

lemma stored_fullI:
  assumes "f \<or> big keccak (PFull ps) \<longrightarrow> has_node keccak dbg (PFull ps)" "\<And>i. i < length ps \<Longrightarrow> stored keccak dbg False (ps ! i)"
  shows "stored keccak dbg f (PFull ps)"
proof -
  have "has_node keccak dbg q" if "q \<in> set (psubs (PFull ps))" "big keccak q" for q
  proof (cases "q = PFull ps")
    case False
    with that(1) obtain c where "c \<in> set ps" "q \<in> set (psubs c)" by auto
    then obtain i where "i < length ps" "q \<in> set (psubs (ps ! i))" by (metis in_set_conv_nth)
    with assms(2) [of i] that(2) show ?thesis by (auto simp: stored_def)
  qed (use assms(1) that in simp)
  with assms(1) show ?thesis unfolding stored_def by blast
qed

lemma written_concat: "i < length xs \<Longrightarrow> written keccak (xs ! i) q \<Longrightarrow> written keccak (concat xs) q"
proof -
  assume "i < length xs" "written keccak (xs ! i) q"
  then obtain c where "(khash keccak q, penc keccak q, c) \<in> set (xs ! i)" "simplifyNode c = Some (praw keccak q)"
    by (auto simp: written_def)
  with nth_mem [OF \<open>i < length xs\<close>] show ?thesis unfolding written_def set_concat by blast
qed

lemma walked_children:
  assumes "length ts = length ps" "\<And>i. i < length ps \<Longrightarrow> child_ok keccak dbg storing (ps ! i) (ts ! i)"
  shows "walked_ok keccak dbg storing (PFull ps) fl
    (FullNode (map fst ts) fl, FullNode (map (fst \<circ> snd) ts) fl, concat (map (snd \<circ> snd) ts))"
proof -
  let ?ws = "concat (map (snd \<circ> snd) ts)"
  have t: "(if fst (ts ! i) = NilNode then Some RawNil else simplifyNode (fst (ts ! i))) = Some (raw_ref keccak (praw keccak (ps ! i)))"
    "list_all (write_ok keccak (ps ! i)) (snd (snd (ts ! i)))" "storing \<or> snd (snd (ts ! i)) = []"
    "cached_ok keccak dbg storing False (ps ! i) (fst (snd (ts ! i))) (snd (snd (ts ! i)))" if "i < length ps" for i
    using assms(2) [OF that] by (auto simp: child_ok_def split: prod.splits)
  have m: "map (\<lambda>c. if c = NilNode then Some RawNil else simplifyNode c) (map fst ts) = map Some (map (\<lambda>c. raw_ref keccak (praw keccak c)) ps)"
    using assms(1) t(1) by (intro nth_equalityI) simp_all
  have "simplifyNode (FullNode (map fst ts) fl) = Some (praw keccak (PFull ps))"
    using those_map_Some [of "map (\<lambda>c. raw_ref keccak (praw keccak c)) ps" Some id] unfolding simplifyNode.simps m by simp
  moreover have "list_all (write_ok keccak (PFull ps)) ?ws"
  proof -
    have "list_all (write_ok keccak (PFull ps)) (snd (snd (ts ! i)))" if "i < length ps" for i
      by (rule write_ok_sub [OF t(2) [OF that] psubs_nth [OF that]])
    then show ?thesis using assms(1) by (fastforce simp: list_all_iff in_set_conv_nth)
  qed
  moreover have "storing \<or> ?ws = []" using t(3) assms(1) by (fastforce simp: in_set_conv_nth)
  moreover have "(\<forall>f g fl'. flag_ok (cache_ok keccak dbg') f fl' (PFull ps) \<longrightarrow>
        loads (dbg' g) (cache_ok keccak dbg') f (FullNode (map (fst \<circ> snd) ts) fl') (PFull ps)) \<and>
      (storing \<longrightarrow> (\<forall>f. (f \<or> big keccak (PFull ps) \<longrightarrow> has_node keccak dbg' (PFull ps)) \<longrightarrow> stored keccak dbg' f (PFull ps)))"
    if k: "keeps keccak dbg dbg'" and w: "\<forall>q \<in> set (psubs (PFull ps)). written keccak ?ws q \<longrightarrow> has_node keccak dbg' q" for dbg'
  proof -
    have c: "loads (dbg' g) (cache_ok keccak dbg') False (fst (snd (ts ! i))) (ps ! i) \<and> (storing \<longrightarrow> stored keccak dbg' False (ps ! i))"
      if i: "i < length ps" for i g
    proof -
      have "has_node keccak dbg' q" if "q \<in> set (psubs (ps ! i))" "written keccak (snd (snd (ts ! i))) q" for q
        using w psubs_nth [OF i] that written_concat [of i "map (snd \<circ> snd) ts" keccak q] i assms(1) by auto
      with t(4) [OF i] k show ?thesis unfolding cached_ok_def by blast
    qed
    then show ?thesis using assms(1) by (auto simp: list_all2_conv_all_nth intro!: stored_fullI)
  qed
  ultimately show ?thesis unfolding walked_ok_def by (simp add: inner_node_def node_cache_def del: simplifyNode.simps praw.simps psubs.simps loads_simps)
qed

lemma walked_full:
  assumes "length ns = 17" "length ps = 17" "ns ! 16 = (case ps ! 16 of PValue v \<Rightarrow> ValueNode v | _ \<Rightarrow> NilNode)" "leafy (ps ! 16)"
    and "\<And>i. i < 16 \<Longrightarrow> if ns ! i = NilNode then ps ! i = PNil
      else hashed_ok keccak dbg storing False (ps ! i) (hasher_hash keccak storing gen limit (ns ! i) False)"
  shows "walked_ok keccak dbg storing (PFull ps) fl (hashChildren keccak storing gen limit (FullNode ns fl))"
proof -
  let ?r = "\<lambda>c. if c = NilNode then (NilNode, NilNode, []) else hasher_hash keccak storing gen limit c False"
  let ?ts = "map ?r (take 16 ns) @ [(ns ! 16, ns ! 16, [])]"
  have "child_ok keccak dbg storing (ps ! i) (?ts ! i)" if "i < length ps" for i
  proof (cases "i = 16")
    case True
    then show ?thesis using child_ok_leafy [OF assms(3,4)] assms(1) by (simp add: nth_append)
  next
    case False
    then have i: "i < 16" using that assms(2) by simp
    then have "?ts ! i = ?r (ns ! i)" using assms(1) by (simp add: nth_append)
    then show ?thesis using assms(5) [OF i] child_ok_leafy [of NilNode "ps ! i"] child_ok_hashed
      by (auto simp: leafy_def split: if_splits)
  qed
  from walked_children [OF _ this, of fl] have "walked_ok keccak dbg storing (PFull ps) fl
    (FullNode (map fst ?ts) fl, FullNode (map (fst \<circ> snd) ?ts) fl, concat (map (snd \<circ> snd) ?ts))" using assms(1,2) by simp
  moreover have "drop 16 ns = [ns ! 16]" using assms(1) by (simp add: Cons_nth_drop_Suc [symmetric])
  ultimately show ?thesis by (simp add: Let_def)
qed

text \<open>The children of an inner node, given that the hasher is right on smaller trees.\<close>

lemma hashChildren_walk:
  assumes "canon p" "loads (dbg gen0) (cache_ok keccak dbg) f n p" "inner_node n"
    and IH: "\<And>q n'. size_class.size q < size_class.size p \<Longrightarrow> canon q \<Longrightarrow> loads (dbg gen0) (cache_ok keccak dbg) False n' q \<Longrightarrow>
      hashed_ok keccak dbg storing False q (hasher_hash keccak storing gen limit n' False)"
  shows "\<exists>k c cs fl. (n = ShortNode k c fl \<or> n = FullNode cs fl) \<and> flag_ok (cache_ok keccak dbg) f fl p \<and>
    walked_ok keccak dbg storing p fl (hashChildren keccak storing gen limit n)"
  using assms(2)
proof (cases rule: loads.cases)
  case (loads_short n' q fl k)
  have "walked_ok keccak dbg storing p fl (hashChildren keccak storing gen limit n)"
  proof (cases q)
    case (PValue v)
    then have "n' = ValueNode v" using loads_short by (auto simp: inner_node_def elim: loads.cases split: node.splits)
    moreover have "term_key k" using assms(1) loads_short PValue by simp
    ultimately show ?thesis using walked_leaf loads_short PValue by simp
  next
    case (PFull cs)
    then have "hashed_ok keccak dbg storing False (PFull cs) (hasher_hash keccak storing gen limit n' False)"
      using IH [of q n'] assms(1) loads_short by simp
    moreover have "\<forall>v. n' \<noteq> ValueNode v" using loads_short PFull by auto
    ultimately show ?thesis using walked_ext loads_short PFull by blast
  qed (use assms(1) loads_short in simp_all)
  with loads_short show ?thesis by blast
next
  case (loads_full ns ps fl)
  have f: "canon (PFull ps)" using assms(1) loads_full by simp
  note c = canon_children [OF f]
  have l: "length ns = 17" using list_all2_lengthD loads_full c(1) by fastforce
  have e: "loads (dbg gen0) (cache_ok keccak dbg) False (ns ! i) (ps ! i)" if "i < 17" for i
    using list_all2_nthD [OF loads_full(3)] l that by simp
  have "ns ! 16 = (case ps ! 16 of PValue v \<Rightarrow> ValueNode v | _ \<Rightarrow> NilNode)"
    using e [of 16] c(3) by (auto simp: inner_node_def elim: loads.cases split: node.splits)
  moreover have "leafy (ps ! 16)" using c(3) by (auto simp: leafy_def)
  moreover have "if ns ! i = NilNode then ps ! i = PNil
    else hashed_ok keccak dbg storing False (ps ! i) (hasher_hash keccak storing gen limit (ns ! i) False)" if "i < 16" for i
    using e [of i] loads_not_nil [OF e [of i]] IH [of "ps ! i" "ns ! i"] size_child [of i ps] c(1,2) that loads_full by auto
  ultimately have "walked_ok keccak dbg storing (PFull ps) fl (hashChildren keccak storing gen limit (FullNode ns fl))"
    using l c(1) by (intro walked_full)
  with loads_full show ?thesis by blast
qed (use assms(3) in \<open>simp_all add: inner_node_def\<close>)

lemma hasher_hash_ok:
  assumes "canon p" "loads (dbg gen0) (cache_ok keccak dbg) f n p"
  shows "hashed_ok keccak dbg storing f p (hasher_hash keccak storing gen limit n f)"
  using assms
proof (induction "size_class.size p" arbitrary: p f n rule: less_induct)
  case less
  show ?case
  proof (cases "inner_node n")
    case True
    from hashChildren_walk [OF less.prems True less.hyps] hasher_hash_inner [OF less.prems(2,1)] show ?thesis by blast
  next
    case False
    with less.prems obtain h where "n = HashNode h" by (cases n) (auto simp: inner_node_def)
    with less.prems hasher_hash_hashnode show ?thesis by blast
  qed
qed

lemma hashChildren_ok:
  assumes "canon p" "loads (dbg gen0) (cache_ok keccak dbg) f n p" "inner_node n"
  shows "\<exists>fl. flag_ok (cache_ok keccak dbg) f fl p \<and> walked_ok keccak dbg storing p fl (hashChildren keccak storing gen limit n)"
  using hashChildren_walk [OF assms] hasher_hash_ok by blast

end
