(* ===== verification/Trie_DB.thy ===== *)
theory Trie_DB
  imports Trie_Hash "HOL-Library.AList"
begin

text \<open>
  The trie database (\<^verbatim>\<open>src/trie/database.go\<close>) and what connects it to a trie: \<^verbatim>\<open>New\<close> and \<^verbatim>\<open>Trie.Commit\<close>
  (\<^verbatim>\<open>src/trie/trie.go\<close>).

  Nodes are written to memory and moved to disk later.  \<open>db_disk\<close> is the disk database at the 32 byte
  keys the trie uses, \<open>None\<close> where it has no value; writes to disk do not fail.  The map of external children
  of a node is a list, in the order in which the code iterates over it.  The total size is a
  float64 in the code and an integer here.  A panic is \<open>None\<close>.  The recursion over the children of a
  node has a fuel argument, and \<open>None\<close> also stands for running out of it.
\<close>

subsection \<open>The database\<close>

datatype entry_node = EntryNil | EntryBlob "byte list" | EntryRaw rawnode

record cachedNode =
  cn_node :: entry_node
  cn_size :: u16
  cn_parents :: u16
  cn_children :: "(Hash \<times> u16) list"
  cn_flushPrev :: Hash
  cn_flushNext :: Hash

record Database =
  db_disk :: "Hash \<Rightarrow> byte list option"
  db_nodes :: "Hash \<Rightarrow> cachedNode option"
  db_oldest :: Hash
  db_newest :: Hash
  db_nodesSize :: int

definition NewDatabase :: "(Hash \<Rightarrow> byte list option) \<Rightarrow> Database" where
  "NewDatabase diskdb =
     \<lparr>db_disk = diskdb,
      db_nodes = [0 \<mapsto> \<lparr>cn_node = EntryNil, cn_size = 0, cn_parents = 0, cn_children = [], cn_flushPrev = 0, cn_flushNext = 0\<rparr>],
      db_oldest = 0, db_newest = 0, db_nodesSize = 0\<rparr>"

definition entry_rlp :: "entry_node \<Rightarrow> byte list option" where
  "entry_rlp e = (case e of EntryBlob b \<Rightarrow> Some b | EntryRaw r \<Rightarrow> Some (raw_enc r) | EntryNil \<Rightarrow> None)"

definition entry_obj :: "entry_node \<Rightarrow> Hash \<Rightarrow> u16 \<Rightarrow> node option" where
  "entry_obj e hash gen =
     (case e of
        EntryBlob b \<Rightarrow> mustDecodeNode (Some (hash_bytes hash)) b gen
      | EntryRaw r \<Rightarrow> expandNode (Some (hash_bytes hash)) r gen
      | EntryNil \<Rightarrow> None)"

definition entry_childs :: "entry_node \<Rightarrow> (Hash \<times> u16) list \<Rightarrow> Hash list" where
  "entry_childs e children = map fst children @ (case e of EntryRaw r \<Rightarrow> gatherChildren r | _ \<Rightarrow> [])"

definition Database_node :: "Database \<Rightarrow> u16 \<Rightarrow> Hash \<Rightarrow> node option" where
  "Database_node db gen hash =
     (case db_nodes db hash of
        Some e \<Rightarrow> entry_obj (cn_node e) hash gen
      | None \<Rightarrow>
          (case db_disk db hash of
             None \<Rightarrow> Some NilNode
           | Some enc \<Rightarrow> mustDecodeNode (Some (hash_bytes hash)) enc gen))"

definition Database_Node :: "Database \<Rightarrow> Hash \<Rightarrow> byte list option option" where
  "Database_Node db hash =
     (case db_nodes db hash of
        Some e \<Rightarrow> map_option Some (entry_rlp (cn_node e))
      | None \<Rightarrow> Some (db_disk db hash))"

definition add_parent :: "Hash \<Rightarrow> (Hash \<Rightarrow> cachedNode option) \<Rightarrow> Hash \<Rightarrow> cachedNode option" where
  "add_parent child ns = (case ns child of None \<Rightarrow> ns | Some c \<Rightarrow> ns(child \<mapsto> c\<lparr>cn_parents := cn_parents c + 1\<rparr>))"

definition insert_entry :: "Database \<Rightarrow> Hash \<Rightarrow> byte list \<Rightarrow> entry_node \<Rightarrow> Database option" where
  "insert_entry db hash blob e =
     (let entry = \<lparr>cn_node = e, cn_size = word_of_nat (length blob), cn_parents = 0, cn_children = [],
                   cn_flushPrev = db_newest db, cn_flushNext = 0\<rparr>;
          ns = (fold add_parent (entry_childs e []) (db_nodes db))(hash \<mapsto> entry);
          total = db_nodesSize db + uint (32 + cn_size entry)
      in if db_oldest db = 0 then
           Some (db\<lparr>db_nodes := ns, db_oldest := hash, db_newest := hash, db_nodesSize := total\<rparr>)
         else
           (case ns (db_newest db) of
              None \<Rightarrow> None
            | Some l \<Rightarrow>
                Some (db\<lparr>db_nodes := ns(db_newest db \<mapsto> l\<lparr>cn_flushNext := hash\<rparr>), db_newest := hash, db_nodesSize := total\<rparr>)))"

definition Database_insert :: "Database \<Rightarrow> Hash \<Rightarrow> byte list \<Rightarrow> node \<Rightarrow> Database option" where
  "Database_insert db hash blob n =
     (if db_nodes db hash \<noteq> None then Some db
      else
        (case simplifyNode n of
           None \<Rightarrow> None
         | Some r \<Rightarrow> insert_entry db hash blob (EntryRaw r)))"

definition InsertBlob :: "Database \<Rightarrow> Hash \<Rightarrow> byte list \<Rightarrow> Database option" where
  "InsertBlob db hash blob = (if db_nodes db hash \<noteq> None then Some db else insert_entry db hash blob (EntryBlob blob))"

definition db_reference :: "Database \<Rightarrow> Hash \<Rightarrow> Hash \<Rightarrow> Database option" where
  "db_reference db child parent =
     (case db_nodes db child of
        None \<Rightarrow> Some db
      | Some node \<Rightarrow>
          (case db_nodes db parent of
             None \<Rightarrow> None
           | Some pn \<Rightarrow>
               if map_of (cn_children pn) child \<noteq> None \<and> parent \<noteq> 0 then Some db
               else
                 (let ns = (db_nodes db)(child \<mapsto> node\<lparr>cn_parents := cn_parents node + 1\<rparr>);
                      pn' = the (ns parent);
                      count = (case map_of (cn_children pn') child of None \<Rightarrow> 0 | Some c \<Rightarrow> c) + 1
                  in Some (db\<lparr>db_nodes := ns(parent \<mapsto> pn'\<lparr>cn_children := AList.update child count (cn_children pn')\<rparr>)\<rparr>))))"

text \<open>
  \<^verbatim>\<open>Database.commit\<close>: the node and everything below it that is in memory goes to the batch, children first; a batch
  is the list of its writes, which reach the disk in this order.
\<close>

definition the_childs :: "cachedNode \<Rightarrow> Hash list" where
  "the_childs e = entry_childs (cn_node e) (cn_children e)"

fun bind_all :: "('a \<Rightarrow> 'b list option) \<Rightarrow> 'a list \<Rightarrow> 'b list option" where
  "bind_all f [] = Some []"
| "bind_all f (x # xs) = (case f x of None \<Rightarrow> None | Some ys \<Rightarrow> map_option (\<lambda>zs. ys @ zs) (bind_all f xs))"

fun db_commit :: "nat \<Rightarrow> Database \<Rightarrow> Hash \<Rightarrow> (Hash \<times> byte list) list option" where
  "db_commit 0 db hash = None"
| "db_commit (Suc fuel) db hash =
     (case db_nodes db hash of
        None \<Rightarrow> Some []
      | Some e \<Rightarrow>
          (case bind_all (db_commit fuel db) (the_childs e) of
             None \<Rightarrow> None
           | Some batch \<Rightarrow> map_option (\<lambda>enc. batch @ [(hash, enc)]) (entry_rlp (cn_node e))))"

definition batch_write :: "(Hash \<times> byte list) list \<Rightarrow> (Hash \<Rightarrow> byte list option) \<Rightarrow> Hash \<Rightarrow> byte list option" where
  "batch_write batch disk = fold (\<lambda>(k, v) d. d(k \<mapsto> v)) batch disk"

subsection \<open>Tries on the database\<close>

definition trie_New :: "Hash \<Rightarrow> Database \<Rightarrow> trie_error + Trie" where
  "trie_New r db =
     (if r \<noteq> 0 \<and> r \<noteq> emptyRoot then
        (case resolveHash (Database_node db 0) (hash_bytes r) [] of
           Inl e \<Rightarrow> Inl e
         | Inr n \<Rightarrow> Inr \<lparr>root = n, cachegen = 0, cachelimit = 0\<rparr>)
      else Inr \<lparr>root = NilNode, cachegen = 0, cachelimit = 0\<rparr>)"

fun insert_writes :: "trie_write list \<Rightarrow> Database \<Rightarrow> Database option" where
  "insert_writes [] db = Some db"
| "insert_writes ((hash, blob, n) # ws) db =
     (case Database_insert db hash blob n of None \<Rightarrow> None | Some db' \<Rightarrow> insert_writes ws db')"

text \<open>\<^verbatim>\<open>Trie.Commit\<close> without a leaf callback.\<close>

definition trie_Commit :: "hash_fun \<Rightarrow> Database \<Rightarrow> Trie \<Rightarrow> (Hash \<times> Trie \<times> Database) option" where
  "trie_Commit keccak db t =
     (case hashRoot keccak True t of (hash, cached, ws) \<Rightarrow>
        map_option (\<lambda>db'. (root_hash hash, t\<lparr>root := cached, cachegen := cachegen t + 1\<rparr>, db')) (insert_writes ws db))"

subsection \<open>What the database holds\<close>

text \<open>
  The trees of a set \<open>S\<close>, closed under subtrees, have different hashes, none of them the zero hash or the hash of
  the empty trie.  The database holds stored forms of trees of \<open>S\<close> only.
\<close>

definition no_clash :: "hash_fun \<Rightarrow> ptree set \<Rightarrow> bool" where
  "no_clash keccak S \<longleftrightarrow>
     (\<forall>q \<in> S. canon q \<and> set (psubs q) \<subseteq> S) \<and> inj_on (khash keccak) S \<and> 0 \<notin> khash keccak ` S \<and> emptyRoot \<notin> khash keccak ` S"

definition entries :: "Database \<Rightarrow> Hash \<Rightarrow> entry_node option" where
  "entries db hash = map_option cn_node (db_nodes db hash)"

definition newest_ok :: "Database \<Rightarrow> bool" where
  "newest_ok db \<longleftrightarrow> db_oldest db = 0 \<or> entries db (db_newest db) \<noteq> None"

definition db_sound :: "hash_fun \<Rightarrow> ptree set \<Rightarrow> Database \<Rightarrow> bool" where
  "db_sound keccak S db \<longleftrightarrow>
     (\<forall>h e. entries db h = Some e \<longrightarrow> h = 0 \<or> (\<exists>q \<in> S. h = khash keccak q \<and> e = EntryRaw (praw keccak q))) \<and>
     (\<forall>h b. db_disk db h = Some b \<longrightarrow> (\<exists>q \<in> S. bounded q \<and> h = khash keccak q \<and> b = penc keccak q)) \<and> newest_ok db"

lemma Database_node_entries:
  "Database_node db gen hash =
     (case entries db hash of
        Some e \<Rightarrow> entry_obj e hash gen
      | None \<Rightarrow> (case db_disk db hash of None \<Rightarrow> Some NilNode | Some enc \<Rightarrow> mustDecodeNode (Some (hash_bytes hash)) enc gen))"
  by (simp add: Database_node_def entries_def split: option.splits)

lemma entries_fold: "map_option cn_node (fold add_parent cs ns h) = map_option cn_node (ns h)"
proof (induction cs arbitrary: ns)
  case (Cons c cs)
  have "map_option cn_node (add_parent c ns h) = map_option cn_node (ns h)"
    by (auto simp: add_parent_def split: option.splits)
  with Cons show ?case by simp
qed simp

lemma insert_entry_entries:
  assumes "newest_ok db"
  shows "\<exists>db'. insert_entry db hash blob e = Some db' \<and> entries db' = (entries db)(hash \<mapsto> e) \<and> db_disk db' = db_disk db \<and> newest_ok db'"
proof -
  define entry where "entry = \<lparr>cn_node = e, cn_size = word_of_nat (length blob), cn_parents = 0, cn_children = [],
    cn_flushPrev = db_newest db, cn_flushNext = 0\<rparr>"
  define ns where "ns = (fold add_parent (entry_childs e []) (db_nodes db))(hash \<mapsto> entry)"
  have h: "ns hash = Some entry" by (simp add: ns_def)
  have n: "map_option cn_node (ns h) = ((entries db)(hash \<mapsto> e)) h" for h
    using entries_fold [of "entry_childs e []" "db_nodes db" h] by (simp add: ns_def entry_def entries_def)
  show ?thesis
  proof (cases "db_oldest db = 0")
    case True
    then show ?thesis using n h unfolding insert_entry_def entry_def [symmetric] ns_def [symmetric] Let_def
      by (auto simp: entries_def [abs_def] newest_ok_def fun_eq_iff)
  next
    case False
    with assms n [of "db_newest db"] obtain l where l: "ns (db_newest db) = Some l"
      by (auto simp: newest_ok_def split: if_splits)
    have "map_option cn_node ((ns(db_newest db \<mapsto> l\<lparr>cn_flushNext := hash\<rparr>)) h) = ((entries db)(hash \<mapsto> e)) h" for h
      using n [of h] l by auto
    then show ?thesis using False l h unfolding insert_entry_def entry_def [symmetric] ns_def [symmetric] Let_def
      by (auto simp: entries_def [abs_def] newest_ok_def fun_eq_iff)
  qed
qed

lemma entry_obj_praw: "canon q \<Longrightarrow> entry_obj (EntryRaw (praw keccak q)) h gen = Some (pnode keccak (Some (hash_bytes h)) gen q)"
  by (simp add: entry_obj_def expandNode_praw)

lemma mustDecode_penc: "canon q \<Longrightarrow> bounded q \<Longrightarrow> mustDecodeNode h (penc keccak q) gen = Some (pnode keccak h gen q)"
  by (simp add: mustDecodeNode_def decodeNode_penc)

lemma no_clashD:
  assumes "no_clash keccak S" "q \<in> S"
  shows "canon q" "inner q" "khash keccak q \<noteq> 0" "khash keccak q \<noteq> emptyRoot" "r \<in> S \<Longrightarrow> khash keccak r = khash keccak q \<Longrightarrow> r = q"
proof -
  have a: "canon q" "inj_on (khash keccak) S" "0 \<notin> khash keccak ` S" "emptyRoot \<notin> khash keccak ` S"
    using assms by (simp_all add: no_clash_def)
  show "canon q" "inner q" using a(1) inner_canon by blast+
  show "khash keccak q \<noteq> 0" "khash keccak q \<noteq> emptyRoot" using a(3,4) imageI [OF assms(2), of "khash keccak"] by metis+
  show "r \<in> S \<Longrightarrow> khash keccak r = khash keccak q \<Longrightarrow> r = q" using inj_onD [OF a(2)] assms(2) by blast
qed

lemma sound_has_node:
  assumes "no_clash keccak S" "db_sound keccak S db" "q \<in> S" "entries db (khash keccak q) \<noteq> None \<or> db_disk db (khash keccak q) \<noteq> None"
  shows "has_node keccak (Database_node db) q"
proof -
  note n = no_clashD [OF assms(1,3)]
  have e: "e = EntryRaw (praw keccak q)" if "entries db (khash keccak q) = Some e" for e
    using assms(2) that n(3,5) unfolding db_sound_def by metis
  have d: "bounded q \<and> b = penc keccak q" if "db_disk db (khash keccak q) = Some b" for b
    using assms(2) that n(5) unfolding db_sound_def by metis
  have "Database_node db gen (khash keccak q) = Some (pnode keccak (Some (hash_bytes (khash keccak q))) gen q)" for gen
    unfolding Database_node_entries using e d assms(4) entry_obj_praw [OF n(1)] mustDecode_penc [OF n(1)]
    by (auto split: option.splits)
  with n(2) show ?thesis by (simp add: has_node_def)
qed

lemma has_node_present: "has_node keccak (Database_node db) q \<Longrightarrow> entries db (khash keccak q) \<noteq> None \<or> db_disk db (khash keccak q) \<noteq> None"
  by (cases q) (auto simp: has_node_def Database_node_entries split: option.splits)

lemma Database_insert_sound:
  assumes "no_clash keccak S" "db_sound keccak S db" "q \<in> S" "simplifyNode c = Some (praw keccak q)"
  shows "\<exists>db'. Database_insert db (khash keccak q) blob c = Some db' \<and> db_sound keccak S db' \<and> db_disk db' = db_disk db \<and>
    keeps keccak (Database_node db) (Database_node db') \<and> has_node keccak (Database_node db') q"
proof (cases "entries db (khash keccak q) = None")
  case False
  then have "Database_insert db (khash keccak q) blob c = Some db" by (auto simp: Database_insert_def entries_def)
  moreover have "has_node keccak (Database_node db) q" using sound_has_node [OF assms(1-3)] False by blast
  ultimately show ?thesis using assms(2) by (auto simp: keeps_def)
next
  case True
  note n = no_clashD [OF assms(1,3)]
  from insert_entry_entries [of db "khash keccak q" blob "EntryRaw (praw keccak q)"] assms(2) obtain db' where
    i: "insert_entry db (khash keccak q) blob (EntryRaw (praw keccak q)) = Some db'"
    and e: "entries db' = (entries db)(khash keccak q \<mapsto> EntryRaw (praw keccak q))" and d: "db_disk db' = db_disk db" and o: "newest_ok db'"
    by (auto simp: db_sound_def)
  have s: "db_sound keccak S db'" using assms(2,3) o unfolding db_sound_def e d by auto
  have "has_node keccak (Database_node db') r" if r: "has_node keccak (Database_node db) r" for r
  proof (cases "khash keccak r = khash keccak q")
    case False
    then show ?thesis using r unfolding has_node_def Database_node_entries e d by simp
  next
    case eq: True
    have "has_node keccak (Database_node db) q"
      using has_node_present [OF r] sound_has_node [OF assms(1-3)] unfolding eq by blast
    then have "pnode keccak h gen r = pnode keccak h gen q" if "h = Some (hash_bytes (khash keccak q))" for h gen
      using r eq that by (simp add: has_node_def)
    then show ?thesis using r eq entry_obj_praw [OF n(1)] unfolding has_node_def Database_node_entries e d by simp
  qed
  then have "keeps keccak (Database_node db) (Database_node db')" by (simp add: keeps_def)
  moreover have "has_node keccak (Database_node db') q" using sound_has_node [OF assms(1) s assms(3)] by (simp add: e)
  moreover have "Database_insert db (khash keccak q) blob c = Some db'"
    using True i assms(4) by (auto simp: Database_insert_def entries_def)
  ultimately show ?thesis using s d by blast
qed

lemma keeps_refl: "keeps keccak dbg dbg"
  by (simp add: keeps_def)

lemma keeps_trans: "keeps keccak a b \<Longrightarrow> keeps keccak b c \<Longrightarrow> keeps keccak a c"
  by (simp add: keeps_def)

lemma insert_writes_sound:
  assumes "no_clash keccak S" "db_sound keccak S db" "set (psubs p) \<subseteq> S" "list_all (write_ok keccak p) ws"
  shows "\<exists>db'. insert_writes ws db = Some db' \<and> db_sound keccak S db' \<and> db_disk db' = db_disk db \<and>
    keeps keccak (Database_node db) (Database_node db') \<and> (\<forall>q \<in> S. written keccak ws q \<longrightarrow> has_node keccak (Database_node db') q)"
  using assms(2,4)
proof (induction ws arbitrary: db)
  case Nil
  then show ?case by (simp add: keeps_refl written_def)
next
  case (Cons w ws)
  then obtain q c where w: "q \<in> set (psubs p)" "w = (khash keccak q, penc keccak q, c)" "simplifyNode c = Some (praw keccak q)"
    by (auto simp: write_ok_def)
  with assms(3) have q: "q \<in> S" by blast
  from Database_insert_sound [OF assms(1) Cons.prems(1) q w(3)] obtain db1 where
    1: "Database_insert db (khash keccak q) (penc keccak q) c = Some db1" "db_sound keccak S db1" "db_disk db1 = db_disk db"
    "keeps keccak (Database_node db) (Database_node db1)" "has_node keccak (Database_node db1) q" by blast
  from Cons.IH [OF 1(2)] Cons.prems(2) obtain db2 where
    2: "insert_writes ws db1 = Some db2" "db_sound keccak S db2" "db_disk db2 = db_disk db1"
    "keeps keccak (Database_node db1) (Database_node db2)" "\<forall>q \<in> S. written keccak ws q \<longrightarrow> has_node keccak (Database_node db2) q" by auto
  have "has_node keccak (Database_node db2) r" if "r \<in> S" "written keccak (w # ws) r" for r
    using that 2(4,5) 1(5) no_clashD(5) [OF assms(1) q, of r] unfolding w(2) by (auto simp: written_def keeps_def)
  with 1 2 keeps_trans [OF 1(4) 2(4)] w(2) show ?case by auto
qed

end
