(* ===== verification/Trie_Run.thy ===== *)
theory Trie_Run
  imports Trie_DB
begin

text \<open>
  Sequences of operations on a trie and its database, in any order: \<^verbatim>\<open>TryGet\<close>, \<^verbatim>\<open>TryUpdate\<close>, \<^verbatim>\<open>Hash\<close> and
  \<^verbatim>\<open>Commit\<close>.  Every operation keeps the relation between the trie and the tree it stands for, and the tree is
  determined by the content.
\<close>

definition trie_rep :: "hash_fun \<Rightarrow> Database \<Rightarrow> Trie \<Rightarrow> ptree \<Rightarrow> bool" where
  "trie_rep keccak db t p \<longleftrightarrow>
     (p = PNil \<or> canon p) \<and> loads (Database_node db (cachegen t)) (cache_ok keccak (Database_node db)) True (root t) p"

definition proot :: "hash_fun \<Rightarrow> ptree \<Rightarrow> Hash" where
  "proot keccak p = (if p = PNil then emptyRoot else khash keccak p)"

definition pupdate :: "ptree \<Rightarrow> byte list \<Rightarrow> byte list \<Rightarrow> ptree" where
  "pupdate p key v = (if v = [] then pdelete p (keybytesToHex key) else pinsert p (keybytesToHex key) (PValue v))"

definition pcontent :: "ptree \<Rightarrow> byte list \<Rightarrow> byte list option" where
  "pcontent p key = plookup p (keybytesToHex key)"

definition byte_keys :: "ptree \<Rightarrow> bool" where
  "byte_keys p \<longleftrightarrow> (\<forall>key. term_key key \<longrightarrow> plookup p key \<noteq> None \<longrightarrow> key \<in> range keybytesToHex)"

subsection \<open>One operation\<close>

lemma hex_not_Nil [simp]: "keybytesToHex key \<noteq> []"
  by (simp add: keybytesToHex_def)

lemma fits_hex: "p = PNil \<or> canon p \<Longrightarrow> fits p (keybytesToHex key)"
  using term_keybytes [of key] by (auto simp: fits_def)

lemma TryGet_rep:
  assumes "trie_rep keccak db t p"
  shows "\<exists>t'. TryGet (Database_node db (cachegen t)) t key = Some (Inr (pcontent p key, t')) \<and> trie_rep keccak db t' p"
proof -
  have "fits p (keybytesToHex key)" using assms fits_hex by (simp add: trie_rep_def)
  from tryGet_loads [OF _ this] assms show ?thesis
    unfolding trie_rep_def TryGet_def pcontent_def by fastforce
qed

lemma canon_pupdate: "p = PNil \<or> canon p \<Longrightarrow> pupdate p key v = PNil \<or> canon (pupdate p key v)"
proof -
  assume "p = PNil \<or> canon p"
  then have "fits p (keybytesToHex key)" by (rule fits_hex)
  then have "fits (pupdate p key v) (keybytesToHex key)" using pinsert_fits pdelete_fits by (simp add: pupdate_def)
  then show ?thesis using term_keybytes [of key] by (auto simp: fits_def split: if_splits)
qed

lemma TryUpdate_rep:
  assumes "trie_rep keccak db t p"
  shows "\<exists>t'. TryUpdate (Database_node db (cachegen t)) t key v = Some (Inr t') \<and> trie_rep keccak db t' (pupdate p key v)"
proof -
  have f: "fits p (keybytesToHex key)" using assms fits_hex by (simp add: trie_rep_def)
  note l = assms [unfolded trie_rep_def, THEN conjunct2]
  have "pupdate p key v = PNil \<or> canon (pupdate p key v)" using assms canon_pupdate by (simp add: trie_rep_def)
  then show ?thesis
    using trie_insert_loads [OF l f, of "cachegen t" "[]" v] trie_delete_loads [OF l f, of "cachegen t" "[]"]
    unfolding trie_rep_def TryUpdate_def pupdate_def by fastforce
qed

lemma hashed_root:
  assumes "hashed_ok keccak dbg storing True p (hashed, cached, ws)"
  shows "root_hash hashed = khash keccak p" "list_all (write_ok keccak p) ws" "storing \<or> ws = []" "cached_ok keccak dbg storing True p cached ws"
  using assms by (cases hashed; auto simp: hashed_ok_def root_hash_def)+

lemma trie_Hash_rep:
  assumes "trie_rep keccak db t p"
  shows "\<exists>t'. trie_Hash keccak t = (proot keccak p, t') \<and> trie_rep keccak db t' p"
proof (cases "p = PNil")
  case True
  then have "root t = NilNode" using assms loads_not_nil unfolding trie_rep_def by blast
  with True assms show ?thesis by (auto simp: trie_Hash_def hashRoot_def root_hash_def proot_def trie_rep_def)
next
  case False
  then have r: "root t \<noteq> NilNode" "canon p" using assms loads_not_nil unfolding trie_rep_def by blast+
  obtain hashed cached ws where h: "hashRoot keccak False t = (hashed, cached, ws)" by (metis prod_cases3)
  have "hashed_ok keccak (Database_node db) False True p (hashed, cached, ws)"
    using hasher_hash_ok [OF r(2), of "Database_node db" "cachegen t" keccak True "root t" False "cachegen t" "cachelimit t"] assms r(1) h
    by (simp add: trie_rep_def hashRoot_def)
  note o = hashed_root [OF this]
  then have "loads (Database_node db (cachegen t)) (cache_ok keccak (Database_node db)) True cached p"
    using keeps_refl unfolding cached_ok_def by (auto simp: written_def)
  with h o(1) r(2) False show ?thesis by (simp add: trie_Hash_def proot_def trie_rep_def)
qed

lemma trie_Commit_rep:
  assumes "trie_rep keccak db t p" "no_clash keccak S" "db_sound keccak S db" "p = PNil \<or> p \<in> S"
  shows "\<exists>t' db'. trie_Commit keccak db t = Some (proot keccak p, t', db') \<and> trie_rep keccak db' t' p \<and> db_sound keccak S db' \<and>
    db_disk db' = db_disk db \<and> (p = PNil \<or> stored keccak (Database_node db') True p)"
proof (cases "p = PNil")
  case True
  then have "root t = NilNode" using assms(1) loads_not_nil unfolding trie_rep_def by blast
  with True assms show ?thesis by (auto simp: trie_Commit_def hashRoot_def root_hash_def proot_def trie_rep_def)
next
  case False
  then have r: "root t \<noteq> NilNode" "canon p" "p \<in> S" using assms(1,4) loads_not_nil unfolding trie_rep_def by blast+
  have s: "set (psubs p) \<subseteq> S" using assms(2) r(3) by (auto simp: no_clash_def)
  obtain hashed cached ws where h: "hashRoot keccak True t = (hashed, cached, ws)" by (metis prod_cases3)
  have "hashed_ok keccak (Database_node db) True True p (hashed, cached, ws)"
    using hasher_hash_ok [OF r(2), of "Database_node db" "cachegen t" keccak True "root t" True "cachegen t" "cachelimit t"] assms(1) r(1) h
    by (simp add: trie_rep_def hashRoot_def)
  note o = hashed_root [OF this]
  from insert_writes_sound [OF assms(2,3) s o(2)] obtain db' where
    d: "insert_writes ws db = Some db'" "db_sound keccak S db'" "db_disk db' = db_disk db" "keeps keccak (Database_node db) (Database_node db')"
    "\<forall>q \<in> S. written keccak ws q \<longrightarrow> has_node keccak (Database_node db') q" by blast
  have "loads (Database_node db' (cachegen t + 1)) (cache_ok keccak (Database_node db')) True cached p \<and> stored keccak (Database_node db') True p"
    using o(4) d(4,5) s unfolding cached_ok_def by blast
  with d h o(1) r(2) False show ?thesis by (auto simp: trie_Commit_def proot_def trie_rep_def)
qed

lemma trie_New_rep:
  assumes "no_clash keccak S" "p = PNil \<or> p \<in> S \<and> stored keccak (Database_node db) True p"
  shows "\<exists>t. trie_New (proot keccak p) db = Inr t \<and> trie_rep keccak db t p"
proof (cases "p = PNil")
  case True
  then show ?thesis by (simp add: trie_New_def proot_def trie_rep_def)
next
  case False
  with assms(2) have p: "p \<in> S" "stored keccak (Database_node db) True p" by auto
  note n = no_clashD [OF assms(1) p(1)]
  let ?n = "pnode keccak (Some (hash_bytes (khash keccak p))) 0 p"
  have "has_node keccak (Database_node db) p" using p(2) by (simp add: stored_def)
  then have "Database_node db 0 (khash keccak p) = Some ?n" by (simp add: has_node_def)
  moreover have "?n \<noteq> NilNode" using n(2) by (cases p) simp_all
  moreover have "loads (Database_node db 0) (cache_ok keccak (Database_node db)) True ?n p"
    using loads_pnode [OF n(1) p(2), of 0] by simp
  ultimately show ?thesis using False n(1,3,4) by (simp add: trie_New_def proot_def resolveHash_def trie_rep_def)
qed

subsection \<open>The content\<close>

lemma pcontent_pupdate:
  assumes "p = PNil \<or> canon p"
  shows "pcontent (pupdate p key v) = (pcontent p)(key := if v = [] then None else Some v)"
  using plookup_pinsert [OF fits_hex fits_hex, OF assms assms] plookup_pdelete [OF fits_hex fits_hex, OF assms assms]
    by (auto simp: pcontent_def pupdate_def fun_eq_iff)

lemma byte_keys_pupdate:
  assumes "p = PNil \<or> canon p" "byte_keys p"
  shows "byte_keys (pupdate p key v)"
  unfolding byte_keys_def
proof (intro allI impI)
  fix k
  assume t: "term_key k" and l: "plookup (pupdate p key v) k \<noteq> None"
  then have "fits p k" using assms(1) by (auto simp: fits_def)
  moreover have "k \<noteq> []" using t by auto
  ultimately have "k = keybytesToHex key \<or> plookup p k \<noteq> None"
    using plookup_pinsert [OF fits_hex [OF assms(1)], of k key v] plookup_pdelete [OF fits_hex [OF assms(1)], of k key] l
    by (cases "k = keybytesToHex key") (simp_all add: pupdate_def split: if_splits)
  then show "k \<in> range keybytesToHex" using assms(2) t by (auto simp: byte_keys_def)
qed

lemma content_unique:
  assumes "p = PNil \<or> canon p" "q = PNil \<or> canon q" "byte_keys p" "byte_keys q" "pcontent p = pcontent q"
  shows "p = q"
proof -
  have e: "plookup p k = plookup q k" if "term_key k" for k
  proof (cases "k \<in> range keybytesToHex")
    case True
    then show ?thesis using fun_cong [OF assms(5)] by (auto simp: pcontent_def)
  next
    case False
    then have "plookup p k = None" "plookup q k = None" using assms(3,4) that unfolding byte_keys_def by blast+
    then show ?thesis by simp
  qed
  have "p = PNil \<longleftrightarrow> q = PNil" using e canon_has_key [of p] canon_has_key [of q] assms(1,2) by force
  with assms(1,2) e canon_unique [of p q] show ?thesis by blast
qed

text \<open>
  The contract of a key-value store in which an empty value deletes, and of one whose state is determined by the
  content; the tree is such a store.
\<close>

locale map_store =
  fixes empty :: 's
    and lookup :: "'s \<Rightarrow> byte list \<Rightarrow> byte list option"
    and update :: "'s \<Rightarrow> byte list \<Rightarrow> byte list \<Rightarrow> 's"
    and inv :: "'s \<Rightarrow> bool"
  assumes inv_empty: "inv empty"
    and lookup_empty: "lookup empty = (\<lambda>_. None)"
    and inv_update: "inv s \<Longrightarrow> inv (update s key v)"
    and lookup_update: "inv s \<Longrightarrow> lookup (update s key v) = (lookup s)(key := if v = [] then None else Some v)"
begin

lemma fold_update:
  assumes "\<And>x s. step x s = (case kv x of None \<Rightarrow> s | Some (key, v) \<Rightarrow> update s key v)"
    and "\<And>x m. mstep x m = (case kv x of None \<Rightarrow> m | Some (key, v) \<Rightarrow> m(key := if v = [] then None else Some v))"
    and "inv s"
  shows "inv (fold step xs s) \<and> lookup (fold step xs s) = fold mstep xs (lookup s)"
  using assms(3)
proof (induction xs arbitrary: s)
  case (Cons x xs)
  have "inv (step x s) \<and> lookup (step x s) = mstep x (lookup s)"
    using Cons.prems inv_update lookup_update by (simp add: assms(1,2) split: option.splits prod.splits)
  with Cons.IH [of "step x s"] show ?case by simp
qed simp

end

locale canonical_store = map_store +
  assumes unique: "inv s \<Longrightarrow> inv s' \<Longrightarrow> lookup s = lookup s' \<Longrightarrow> s = s'"
begin

lemma fold_unique:
  assumes "\<And>x s. step x s = (case kv x of None \<Rightarrow> s | Some (key, v) \<Rightarrow> update s key v)"
    and "\<And>x m. mstep x m = (case kv x of None \<Rightarrow> m | Some (key, v) \<Rightarrow> m(key := if v = [] then None else Some v))"
  shows "fold mstep xs (\<lambda>_. None) = fold mstep ys (\<lambda>_. None) \<longleftrightarrow> fold step xs empty = fold step ys empty"
proof -
  have x: "inv (fold step zs empty) \<and> lookup (fold step zs empty) = fold mstep zs (\<lambda>_. None)" for zs
    using fold_update [where xs = zs, OF assms inv_empty] unfolding lookup_empty .
  show ?thesis
  proof
    assume "fold mstep xs (\<lambda>_. None) = fold mstep ys (\<lambda>_. None)"
    with x [of xs] x [of ys] show "fold step xs empty = fold step ys empty" by (intro unique) simp_all
  next
    assume "fold step xs empty = fold step ys empty"
    with x [of xs] x [of ys] show "fold mstep xs (\<lambda>_. None) = fold mstep ys (\<lambda>_. None)" by simp
  qed
qed

end

definition tree_inv :: "ptree \<Rightarrow> bool" where
  "tree_inv p \<longleftrightarrow> (p = PNil \<or> canon p) \<and> byte_keys p"

interpretation tree_store: canonical_store PNil pcontent pupdate tree_inv
proof
  show "tree_inv PNil" "pcontent PNil = (\<lambda>_. None)" by (auto simp: tree_inv_def byte_keys_def pcontent_def)
  show "tree_inv (pupdate s key v)" if "tree_inv s" for s key v
    using that canon_pupdate byte_keys_pupdate by (simp add: tree_inv_def)
  show "pcontent (pupdate s key v) = (pcontent s)(key := if v = [] then None else Some v)" if "tree_inv s" for s key v
    using that pcontent_pupdate by (simp add: tree_inv_def)
  show "s = s'" if "tree_inv s" "tree_inv s'" "pcontent s = pcontent s'" for s s'
    using that content_unique by (simp add: tree_inv_def)
qed

subsection \<open>Sequences of operations\<close>

datatype trie_op = OpGet "byte list" | OpUpdate "byte list" "byte list" | OpHash | OpCommit

definition trie_step :: "hash_fun \<Rightarrow> trie_op \<Rightarrow> Trie \<times> Database \<Rightarrow> (trie_error + Trie \<times> Database) option" where
  "trie_step keccak op st =
     (case st of (t, db) \<Rightarrow>
        (case op of
           OpGet key \<Rightarrow> map_option (map_sum id (\<lambda>(v, t'). (t', db))) (TryGet (Database_node db (cachegen t)) t key)
         | OpUpdate key v \<Rightarrow> map_option (map_sum id (\<lambda>t'. (t', db))) (TryUpdate (Database_node db (cachegen t)) t key v)
         | OpHash \<Rightarrow> Some (Inr (snd (trie_Hash keccak t), db))
         | OpCommit \<Rightarrow> map_option (\<lambda>(_, t', db'). Inr (t', db')) (trie_Commit keccak db t)))"

fun trie_run :: "hash_fun \<Rightarrow> trie_op list \<Rightarrow> Trie \<times> Database \<Rightarrow> (trie_error + Trie \<times> Database) option" where
  "trie_run keccak [] st = Some (Inr st)"
| "trie_run keccak (op # ops) st =
     (case trie_step keccak op st of
        Some (Inr st') \<Rightarrow> trie_run keccak ops st'
      | r \<Rightarrow> r)"

text \<open>What the operations mean: for the tree and for the content.\<close>

definition tree_step :: "trie_op \<Rightarrow> ptree \<Rightarrow> ptree" where
  "tree_step op p = (case op of OpUpdate key v \<Rightarrow> pupdate p key v | _ \<Rightarrow> p)"

definition content_step :: "trie_op \<Rightarrow> (byte list \<Rightarrow> byte list option) \<Rightarrow> byte list \<Rightarrow> byte list option" where
  "content_step op m = (case op of OpUpdate key v \<Rightarrow> m(key := if v = [] then None else Some v) | _ \<Rightarrow> m)"

definition content :: "trie_op list \<Rightarrow> byte list \<Rightarrow> byte list option" where
  "content ops = fold content_step ops (\<lambda>_. None)"

definition tree_of :: "trie_op list \<Rightarrow> ptree" where
  "tree_of ops = fold tree_step ops PNil"

text \<open>The nodes of the trees that are committed.\<close>

fun committed :: "ptree \<Rightarrow> trie_op list \<Rightarrow> ptree list" where
  "committed p [] = []"
| "committed p (op # ops) = (if op = OpCommit then psubs p else []) @ committed (tree_step op p) ops"

definition op_update :: "trie_op \<Rightarrow> (byte list \<times> byte list) option" where
  "op_update op = (case op of OpUpdate key v \<Rightarrow> Some (key, v) | _ \<Rightarrow> None)"

lemma step_update:
  "tree_step op p = (case op_update op of None \<Rightarrow> p | Some (key, v) \<Rightarrow> pupdate p key v)"
  "content_step op m = (case op_update op of None \<Rightarrow> m | Some (key, v) \<Rightarrow> m(key := if v = [] then None else Some v))"
  by (simp_all add: tree_step_def content_step_def op_update_def split: trie_op.splits)

lemma tree_of_ok: "tree_inv (tree_of ops)" "pcontent (tree_of ops) = content ops"
  using tree_store.fold_update [where xs = ops, OF step_update tree_store.inv_empty] tree_store.lookup_empty
  by (simp_all add: tree_of_def content_def)

lemma tree_of_unique: "content ops = content ops' \<longleftrightarrow> tree_of ops = tree_of ops'"
  unfolding tree_of_def content_def by (rule tree_store.fold_unique [OF step_update])

lemma tree_of_canon: "tree_of ops = PNil \<or> canon (tree_of ops)"
  using tree_of_ok(1) by (simp add: tree_inv_def)

lemma tree_of_Nil: "tree_of ops = PNil \<longleftrightarrow> content ops = (\<lambda>_. None)"
  using tree_of_unique [of ops "[]"] by (simp add: tree_of_def content_def)

lemma trie_step_rep:
  assumes "trie_rep keccak db t p" "no_clash keccak S" "db_sound keccak S db" "op = OpCommit \<longrightarrow> set (psubs p) \<subseteq> S"
  shows "\<exists>t' db'. trie_step keccak op (t, db) = Some (Inr (t', db')) \<and> trie_rep keccak db' t' (tree_step op p) \<and> db_sound keccak S db'"
proof (cases op)
  case (OpGet key)
  from TryGet_rep [OF assms(1), of key] assms(3) show ?thesis by (auto simp: OpGet trie_step_def tree_step_def)
next
  case (OpUpdate key v)
  from TryUpdate_rep [OF assms(1), of key v] assms(3) show ?thesis by (auto simp: OpUpdate trie_step_def tree_step_def)
next
  case OpHash
  from trie_Hash_rep [OF assms(1)] assms(3) show ?thesis by (auto simp: OpHash trie_step_def tree_step_def)
next
  case OpCommit
  have "p = PNil \<or> p \<in> S" using assms(1,4) OpCommit psubs_self [OF inner_canon] by (auto simp: trie_rep_def)
  from trie_Commit_rep [OF assms(1-3) this] show ?thesis by (auto simp: OpCommit trie_step_def tree_step_def)
qed

lemma trie_run_rep:
  assumes "trie_rep keccak db t p" "no_clash keccak S" "db_sound keccak S db" "set (committed p ops) \<subseteq> S"
  shows "\<exists>t' db'. trie_run keccak ops (t, db) = Some (Inr (t', db')) \<and> trie_rep keccak db' t' (fold tree_step ops p) \<and> db_sound keccak S db'"
  using assms(1,3,4)
proof (induction ops arbitrary: t db p)
  case (Cons op ops)
  from trie_step_rep [OF Cons.prems(1) assms(2) Cons.prems(2), of op] Cons.prems(3) obtain t1 db1 where
    1: "trie_step keccak op (t, db) = Some (Inr (t1, db1))" "trie_rep keccak db1 t1 (tree_step op p)" "db_sound keccak S db1" by auto
  from Cons.IH [OF 1(2,3)] Cons.prems(3) 1(1) show ?case by auto
qed auto

lemma psubs_canon: "canon p \<Longrightarrow> q \<in> set (psubs p) \<Longrightarrow> canon q \<and> set (psubs q) \<subseteq> set (psubs p)"
proof (induction p rule: canon_induct)
  case (ext k cs)
  then show ?case by (auto simp del: psubs.simps(2))
next
  case (full cs)
  show ?case
  proof (cases "q = PFull cs")
    case False
    with full.prems obtain i where i: "i < length cs" "q \<in> set (psubs (cs ! i))" by (auto simp: in_set_conv_nth Bex_def)
    note c = canon_children [OF full.hyps]
    have "i \<noteq> 16" "cs ! i \<noteq> PNil" using i(2) c(3) by auto
    with i c(1) full.IH [of i] psubs_nth [OF i(1)] show ?thesis by auto
  qed (use full.hyps in simp)
qed (auto split: if_splits)

lemma committed_closed:
  assumes "p = PNil \<or> canon p" "q \<in> set (committed p ops)"
  shows "canon q \<and> set (psubs q) \<subseteq> set (committed p ops)"
  using assms
proof (induction ops arbitrary: p)
  case (Cons op ops)
  have c: "tree_step op p = PNil \<or> canon (tree_step op p)" using Cons.prems(1) canon_pupdate by (cases op) (auto simp: tree_step_def)
  from Cons.prems(2) consider "q \<in> set (committed (tree_step op p) ops)" | "op = OpCommit" "q \<in> set (psubs p)"
    by (auto split: if_splits)
  then show ?case
  proof cases
    case 1
    from Cons.IH [OF c 1] show ?thesis by auto
  next
    case 2
    then have "p \<noteq> PNil" by auto
    with psubs_canon [of p q] Cons.prems(1) 2 show ?thesis by auto
  qed
qed simp

end
