(* ===== verification/Trie_Persist.thy ===== *)
theory Trie_Persist
  imports Trie_Run
begin

text \<open>
  Moving a committed trie to disk (\<^verbatim>\<open>Database.Commit\<close>, \<^verbatim>\<open>Database.commit\<close> in \<^verbatim>\<open>src/trie/database.go\<close>): the batch
  holds every node of the trie, so a database that is opened on the disk alone gives the trie back.
\<close>

definition Database_persist :: "nat \<Rightarrow> Database \<Rightarrow> Hash \<Rightarrow> (Hash \<Rightarrow> byte list option) option" where
  "Database_persist fuel db r = map_option (\<lambda>batch. batch_write batch (db_disk db)) (db_commit fuel db r)"

subsection \<open>References without external children\<close>

definition no_external :: "Database \<Rightarrow> bool" where
  "no_external db \<longleftrightarrow> (\<forall>h e. db_nodes db h = Some e \<longrightarrow> cn_children e = [])"

lemma children_fold: "map_option cn_children (fold add_parent cs ns h) = map_option cn_children (ns h)"
proof (induction cs arbitrary: ns)
  case (Cons c cs)
  have "map_option cn_children (add_parent c ns h) = map_option cn_children (ns h)"
    by (auto simp: add_parent_def split: option.splits)
  with Cons show ?case by simp
qed simp

lemma insert_entry_frame:
  assumes "insert_entry db hash blob e = Some db'" "no_external db"
  shows "no_external db' \<and> db_disk db' = db_disk db"
proof -
  have "cn_children x = []" if "fold add_parent cs (db_nodes db) h = Some x" for cs h x
    using children_fold [of cs "db_nodes db" h] assms(2) that by (cases "db_nodes db h") (auto simp: no_external_def)
  then show ?thesis using assms by (auto simp: insert_entry_def no_external_def Let_def split: if_splits option.splits)
qed

lemma insert_writes_frame:
  assumes "insert_writes ws db = Some db'" "no_external db"
  shows "no_external db' \<and> db_disk db' = db_disk db"
  using assms
proof (induction ws db rule: insert_writes.induct)
  case (2 hash blob n ws db)
  then obtain db1 where 1: "Database_insert db hash blob n = Some db1" "insert_writes ws db1 = Some db'" by (auto split: option.splits)
  then have "no_external db1 \<and> db_disk db1 = db_disk db"
    using insert_entry_frame 2(3) by (auto simp: Database_insert_def split: if_splits option.splits)
  with 2(1) 1 show ?case by auto
qed simp

lemma map_sum_Inr: "map_sum f g z = Inr y \<longleftrightarrow> (\<exists>x. z = Inr x \<and> g x = y)"
  by (cases z) auto

lemma trie_run_frame:
  assumes "trie_run keccak ops (t, db) = Some (Inr (t', db'))" "no_external db"
  shows "no_external db' \<and> db_disk db' = db_disk db"
  using assms
proof (induction ops arbitrary: t db)
  case (Cons op ops)
  then obtain t1 db1 where 1: "trie_step keccak op (t, db) = Some (Inr (t1, db1))" "trie_run keccak ops (t1, db1) = Some (Inr (t', db'))"
    by (auto split: option.splits sum.splits)
  then have "no_external db1 \<and> db_disk db1 = db_disk db"
    using Cons.prems(2) insert_writes_frame
    by (cases op) (auto simp: trie_step_def trie_Commit_def map_sum_Inr split: prod.splits)
  with Cons.IH 1(2) show ?case by auto
qed simp

subsection \<open>The batch\<close>

fun prefs :: "hash_fun \<Rightarrow> ptree \<Rightarrow> ptree list" where
  "prefs keccak (PShort k c) = (if inner c \<and> big keccak c then [c] else prefs keccak c)"
| "prefs keccak (PFull cs) = concat (map (\<lambda>c. if inner c \<and> big keccak c then [c] else prefs keccak c) cs)"
| "prefs keccak _ = []"

lemma gather_ref:
  "leafy c \<or> gatherChildren (praw keccak c) = map (khash keccak) (prefs keccak c) \<Longrightarrow>
    gatherChildren (raw_ref keccak (praw keccak c)) = map (khash keccak) (if inner c \<and> big keccak c then [c] else prefs keccak c)"
  by (auto simp: raw_ref_praw leafy_def)

lemma gatherChildren_praw: "canon p \<Longrightarrow> gatherChildren (praw keccak p) = map (khash keccak) (prefs keccak p)"
proof (induction p rule: canon_induct)
  case (leaf k v)
  then show ?case by (simp add: raw_ref_def)
next
  case (ext k cs)
  then show ?case using gather_ref [of "PFull cs" keccak] by (simp del: praw.simps(4) prefs.simps(2))
next
  case (full cs)
  note c = canon_children [OF full.hyps]
  have "gatherChildren (raw_ref keccak (praw keccak x)) = map (khash keccak) (if inner x \<and> big keccak x then [x] else prefs keccak x)"
    if "x \<in> set (take 16 cs)" for x
  proof (rule gather_ref)
    from that obtain i where "i < 16" "x = cs ! i" using c(1) by (auto simp: in_set_conv_nth)
    with full.IH [of i] show "leafy x \<or> gatherChildren (praw keccak x) = map (khash keccak) (prefs keccak x)"
      by (auto simp: leafy_def)
  qed
  moreover have "prefs keccak (PFull cs) = concat (map (\<lambda>x. if inner x \<and> big keccak x then [x] else prefs keccak x) (take 16 cs))"
    using c(3) by (subst list_17 [OF c(1)]) auto
  ultimately show ?case by (simp add: take_map map_concat comp_def cong: map_cong)
qed

lemma prefs_sub: "c \<in> set (prefs keccak p) \<Longrightarrow> big keccak c \<and> size_class.size c < size_class.size p \<and> c \<in> set (psubs p)"
proof (induction p)
  case (PShort k d)
  then show ?case by (auto split: if_splits intro: psubs_self)
next
  case (PFull cs)
  then obtain d where d: "d \<in> set cs" "c \<in> set (if inner d \<and> big keccak d then [d] else prefs keccak d)" by auto
  have "size_class.size d < size_class.size (PFull cs)" using size_list_estimation' [OF d(1) order_refl, of size_class.size] by simp
  with PFull.IH [OF d(1)] d show ?case by (auto split: if_splits intro: psubs_self)
qed simp_all

lemma psubs_inner: "r \<in> set (psubs c) \<Longrightarrow> inner c"
  by (cases c) simp_all

lemma prefs_cover:
  "r \<in> set (psubs p) \<Longrightarrow> big keccak r \<Longrightarrow> r \<noteq> p \<Longrightarrow> \<exists>c \<in> set (prefs keccak p). r \<in> set (psubs c)"
proof (induction p)
  case (PShort k c)
  then have r: "r \<in> set (psubs c)" by simp
  then have "inner c" by (rule psubs_inner)
  with PShort r show ?case by auto
next
  case (PFull cs)
  then obtain c where c: "c \<in> set cs" "r \<in> set (psubs c)" by auto
  then have "inner c" using psubs_inner by blast
  have m: "x \<in> set (prefs keccak (PFull cs))" if "x \<in> set (if inner c \<and> big keccak c then [c] else prefs keccak c)" for x
    unfolding prefs.simps set_concat set_map using c(1) that by blast
  show ?case
  proof (cases "big keccak c")
    case True
    with \<open>inner c\<close> have "c \<in> set (prefs keccak (PFull cs))" by (intro m) simp
    with c(2) show ?thesis by blast
  next
    case False
    then have "r \<noteq> c" using PFull.prems(2) by auto
    from PFull.IH [OF c PFull.prems(2) this] obtain d where d: "d \<in> set (prefs keccak c)" "r \<in> set (psubs d)" by blast
    have "d \<in> set (prefs keccak (PFull cs))" using d(1) False by (intro m) simp
    with d(2) show ?thesis by blast
  qed
qed simp_all

lemma bind_all_Some:
  assumes "\<And>x. x \<in> set xs \<Longrightarrow> \<exists>ys. f x = Some ys \<and> P x ys"
  shows "\<exists>zs. bind_all f xs = Some zs \<and> (\<forall>z \<in> set zs. \<exists>x \<in> set xs. \<exists>ys. P x ys \<and> z \<in> set ys) \<and>
    (\<forall>x \<in> set xs. \<exists>ys. P x ys \<and> set ys \<subseteq> set zs)"
  using assms
proof (induction xs)
  case (Cons x xs)
  obtain ys where y: "f x = Some ys" "P x ys" using Cons.prems [of x] by auto
  obtain zs where z: "bind_all f xs = Some zs" "\<forall>z \<in> set zs. \<exists>x \<in> set xs. \<exists>ys. P x ys \<and> z \<in> set ys"
    "\<forall>x \<in> set xs. \<exists>ys. P x ys \<and> set ys \<subseteq> set zs" using Cons.IH Cons.prems by (metis list.set_intros(2))
  have "bind_all f (x # xs) = Some (ys @ zs)" using y(1) z(1) by simp
  moreover have "\<forall>w \<in> set (ys @ zs). \<exists>u \<in> set (x # xs). \<exists>ys. P u ys \<and> w \<in> set ys" using y(2) z(2) by (simp, blast)
  moreover have "\<forall>u \<in> set (x # xs). \<exists>vs. P u vs \<and> set vs \<subseteq> set (ys @ zs)" using y(2) z(3) by (simp, blast)
  ultimately show ?case by blast
qed simp

lemma bind_all_map: "bind_all f (map g xs) = bind_all (\<lambda>x. f (g x)) xs"
  by (induction xs) (simp_all cong: option.case_cong)

lemma stored_sub: "stored keccak dbg f p \<Longrightarrow> c \<in> set (psubs p) \<Longrightarrow> set (psubs c) \<subseteq> set (psubs p) \<Longrightarrow> stored keccak dbg False c"
  by (auto simp: stored_def)

lemma db_commit_batch:
  assumes "no_clash keccak S" "db_sound keccak S db" "no_external db" "db_disk db = (\<lambda>_. None)"
    and "q \<in> S" "stored keccak (Database_node db) f q" "f \<or> big keccak q" "size_class.size q < fuel"
  shows "\<exists>batch. db_commit fuel db (khash keccak q) = Some batch \<and>
    (\<forall>(h, b) \<in> set batch. \<exists>r \<in> set (psubs q). h = khash keccak r \<and> b = penc keccak r) \<and>
    (\<forall>r \<in> set (psubs q). r = q \<or> big keccak r \<longrightarrow> khash keccak r \<in> fst ` set batch)"
  using assms(5-8)
proof (induction fuel arbitrary: q f)
  case (Suc fuel)
  note n = no_clashD [OF assms(1) Suc.prems(1)]
  have sub: "set (psubs q) \<subseteq> S" using assms(1) Suc.prems(1) by (auto simp: no_clash_def)
  have "has_node keccak (Database_node db) q" using stored_self [OF Suc.prems(2) n(2) Suc.prems(3)] .
  then obtain e where e: "db_nodes db (khash keccak q) = Some e"
    using has_node_present [of keccak db q] assms(4) by (auto simp: entries_def)
  then have raw: "cn_node e = EntryRaw (praw keccak q)"
    using assms(2) n(3,5) unfolding db_sound_def entries_def by (metis option.simps(9))
  have childs: "the_childs e = map (khash keccak) (prefs keccak q)"
    using assms(3) e raw gatherChildren_praw [OF n(1)] by (simp add: the_childs_def entry_childs_def no_external_def)
  let ?P = "\<lambda>c batch. (\<forall>(h, b) \<in> set batch. \<exists>r \<in> set (psubs c). h = khash keccak r \<and> b = penc keccak r) \<and>
    (\<forall>r \<in> set (psubs c). r = c \<or> big keccak r \<longrightarrow> khash keccak r \<in> fst ` set batch)"
  have "\<exists>ys. db_commit fuel db (khash keccak c) = Some ys \<and> ?P c ys" if c: "c \<in> set (prefs keccak q)" for c
  proof -
    note p = prefs_sub [OF c]
    have "set (psubs c) \<subseteq> set (psubs q)" using psubs_canon [OF n(1), of c] p by blast
    from Suc.IH [OF _ stored_sub [OF Suc.prems(2) _ this]] p sub Suc.prems(4) show ?thesis by auto
  qed
  from bind_all_Some [of "prefs keccak q" "\<lambda>c. db_commit fuel db (khash keccak c)" ?P, OF this] obtain batch where
    b: "bind_all (\<lambda>c. db_commit fuel db (khash keccak c)) (prefs keccak q) = Some batch"
    "\<forall>z \<in> set batch. \<exists>c \<in> set (prefs keccak q). \<exists>ys. ?P c ys \<and> z \<in> set ys"
    "\<forall>c \<in> set (prefs keccak q). \<exists>ys. ?P c ys \<and> set ys \<subseteq> set batch" by blast
  have "bind_all (db_commit fuel db) (the_childs e) = Some batch" using b(1) unfolding childs bind_all_map .
  then have eq: "db_commit (Suc fuel) db (khash keccak q) = Some (batch @ [(khash keccak q, penc keccak q)])"
    using e raw by (simp add: entry_rlp_def penc_def)
  have "\<exists>r \<in> set (psubs q). h = khash keccak r \<and> v = penc keccak r" if "(h, v) \<in> set batch" for h v
  proof -
    from b(2) that obtain c r where "c \<in> set (prefs keccak q)" "r \<in> set (psubs c)" "h = khash keccak r" "v = penc keccak r" by blast
    then show ?thesis using prefs_sub psubs_canon [OF n(1)] by blast
  qed
  moreover have "khash keccak r \<in> fst ` set batch" if r: "r \<in> set (psubs q)" "big keccak r" "r \<noteq> q" for r
  proof -
    from prefs_cover [OF r] obtain c where "c \<in> set (prefs keccak q)" "r \<in> set (psubs c)" by blast
    then show ?thesis using b(3) r(2) by blast
  qed
  ultimately show ?case using psubs_self [OF n(2)] unfolding eq by auto
qed simp

lemma batch_write_map: "batch_write batch disk h = (case map_of (rev batch) h of Some v \<Rightarrow> Some v | None \<Rightarrow> disk h)"
  by (induction batch arbitrary: disk) (auto simp: batch_write_def map_add_def split: option.splits)

lemma bounded_psubs: "canon p \<Longrightarrow> bounded p \<Longrightarrow> q \<in> set (psubs p) \<Longrightarrow> bounded q"
proof (induction p rule: canon_induct)
  case (leaf k v)
  then show ?case by auto
next
  case (ext k cs)
  then show ?case using bounded_short [of k "PFull cs"] by (auto simp del: psubs.simps(2))
next
  case (full cs)
  note c = canon_children [OF full.hyps]
  show ?case
  proof (cases "q = PFull cs")
    case False
    with full.prems(2) obtain i where i: "i < 17" "q \<in> set (psubs (cs ! i))" using c(1) by (auto simp: in_set_conv_nth Bex_def)
    then have "i \<noteq> 16" "cs ! i \<noteq> PNil" using c(3) by auto
    with i full.IH [of i] bounded_full [OF full.prems(1), of i] c(1) show ?thesis by auto
  qed (use full.prems in simp)
qed

lemma persist_sound:
  assumes "no_clash keccak S" "db_sound keccak S db" "no_external db" "db_disk db = (\<lambda>_. None)"
    and "p \<in> S" "bounded p" "stored keccak (Database_node db) True p" "size_class.size p < fuel"
  shows "\<exists>disk. Database_persist fuel db (khash keccak p) = Some disk \<and> db_sound keccak S (NewDatabase disk) \<and>
    stored keccak (Database_node (NewDatabase disk)) True p"
proof -
  note n = no_clashD [OF assms(1,5)]
  have sub: "set (psubs p) \<subseteq> S" using assms(1,5) by (auto simp: no_clash_def)
  from db_commit_batch [OF assms(1-5,7) _ assms(8)] obtain batch where
    b: "db_commit fuel db (khash keccak p) = Some batch"
    "\<forall>(h, b) \<in> set batch. \<exists>r \<in> set (psubs p). h = khash keccak r \<and> b = penc keccak r"
    "\<forall>r \<in> set (psubs p). r = p \<or> big keccak r \<longrightarrow> khash keccak r \<in> fst ` set batch" by blast
  let ?disk = "batch_write batch (\<lambda>_. None)"
  have in_batch: "(h, v) \<in> set batch" if "?disk h = Some v" for h v
    using that by (auto simp: batch_write_map split: option.splits dest: map_of_SomeD)
  have present: "?disk h \<noteq> None" if "h \<in> fst ` set batch" for h
    using that map_of_eq_None_iff [of "rev batch" h] by (auto simp: batch_write_map split: option.splits)
  have s: "db_sound keccak S (NewDatabase ?disk)"
    using in_batch b(2) sub bounded_psubs [OF n(1) assms(6)]
    unfolding db_sound_def by (fastforce simp: NewDatabase_def entries_def newest_ok_def split: if_splits)
  have "has_node keccak (Database_node (NewDatabase ?disk)) r" if "r \<in> set (psubs p)" "r = p \<or> big keccak r" for r
    using sound_has_node [OF assms(1) s, of r] that sub b(3) present by (auto simp: NewDatabase_def)
  then have "stored keccak (Database_node (NewDatabase ?disk)) True p" using psubs_self [OF n(2)] by (auto simp: stored_def)
  with b(1) s assms(4) show ?thesis by (simp add: Database_persist_def)
qed

text \<open>More fuel does not change the batch.\<close>

lemma bind_all_mono:
  assumes "\<And>x y. f x = Some y \<Longrightarrow> g x = Some y"
  shows "bind_all f xs = Some zs \<Longrightarrow> bind_all g xs = Some zs"
  by (induction xs arbitrary: zs) (auto split: option.splits dest: assms)

lemma db_commit_Suc: "db_commit fuel db h = Some b \<Longrightarrow> db_commit (Suc fuel) db h = Some b"
proof (induction fuel arbitrary: h b)
  case (Suc fuel)
  show ?case
  proof (cases "db_nodes db h")
    case None
    with Suc.prems show ?thesis by simp
  next
    case (Some e)
    with Suc.prems obtain batch where "bind_all (db_commit fuel db) (the_childs e) = Some batch" by (auto split: option.splits)
    from bind_all_mono [OF _ this, of "db_commit (Suc fuel) db"] Suc.IH Suc.prems Some this show ?thesis by simp
  qed
qed simp

lemma db_commit_mono: "db_commit n db h = Some b \<Longrightarrow> n \<le> fuel \<Longrightarrow> db_commit fuel db h = Some b"
  by (induction fuel) (auto simp: le_Suc_eq simp del: db_commit.simps dest: db_commit_Suc)

lemma persist_root:
  assumes "no_clash keccak S" "db_sound keccak S db" "no_external db" "db_disk db = (\<lambda>_. None)"
    and "p = PNil \<or> p \<in> S \<and> bounded p \<and> stored keccak (Database_node db) True p"
  shows "\<exists>disk. (\<exists>n. \<forall>fuel \<ge> n. Database_persist fuel db (proot keccak p) = Some disk) \<and>
    (p = PNil \<or> p \<in> S \<and> stored keccak (Database_node (NewDatabase disk)) True p)"
proof (cases "p = PNil")
  case True
  have "entries db emptyRoot = None"
  proof (rule ccontr)
    assume "entries db emptyRoot \<noteq> None"
    then obtain e where "entries db emptyRoot = Some e" by blast
    with assms(2) have "emptyRoot = 0 \<or> (\<exists>q \<in> S. emptyRoot = khash keccak q)" unfolding db_sound_def by blast
    moreover have "emptyRoot \<noteq> 0" by (simp add: emptyRoot_def)
    ultimately show False using no_clashD(4) [OF assms(1)] by metis
  qed
  then have "db_commit 1 db emptyRoot = Some []" by (simp add: entries_def)
  then have "\<forall>fuel \<ge> 1. Database_persist fuel db (proot keccak p) = Some (batch_write [] (db_disk db))"
    using db_commit_mono [of 1 db emptyRoot "[]"] True by (simp add: Database_persist_def proot_def)
  with True show ?thesis by blast
next
  case False
  with assms(5) have p: "p \<in> S" "bounded p" "stored keccak (Database_node db) True p" by auto
  from persist_sound [OF assms(1-4) p, of "Suc (size_class.size p)"] obtain disk where
    d: "Database_persist (Suc (size_class.size p)) db (khash keccak p) = Some disk" "stored keccak (Database_node (NewDatabase disk)) True p" by blast
  then obtain batch where b: "db_commit (Suc (size_class.size p)) db (khash keccak p) = Some batch" "disk = batch_write batch (db_disk db)"
    by (auto simp: Database_persist_def simp del: db_commit.simps)
  have "\<forall>fuel \<ge> Suc (size_class.size p). Database_persist fuel db (khash keccak p) = Some disk"
    using db_commit_mono [OF b(1)] b(2) by (simp add: Database_persist_def del: db_commit.simps)
  with False p(1) d(2) show ?thesis by (auto simp: proot_def)
qed

end
