(* ===== verification/Trie_Proof.thy ===== *)
theory Trie_Proof
  imports Trie_Persist
begin

text \<open>
  Merkle proofs (\<^verbatim>\<open>src/trie/proof.go\<close>) and the node lists that carry them (\<^verbatim>\<open>src/light/nodeset.go\<close>).

  \<open>Prove\<close> collects the encodings of the nodes on the path to a key, and \<open>VerifyProof\<close> walks them from the root hash.
  The loops may not end on arbitrary databases, which is \<open>None\<close>; panics are errors.  The check of a
  proof of the other trie kind is the argument \<open>verifySMT\<close>.
\<close>

subsection \<open>Node lists\<close>

definition NodeSet_Put :: "byte list \<Rightarrow> byte list \<Rightarrow> (byte list \<times> byte list) list \<Rightarrow> (byte list \<times> byte list) list" where
  "NodeSet_Put key value db = (if map_of db key \<noteq> None then db else db @ [(key, value)])"

definition NodeSet_Get :: "(byte list \<times> byte list) list \<Rightarrow> byte list \<Rightarrow> byte list option" where
  "NodeSet_Get db key = map_of db key"

definition NodeList_NodeSet :: "hash_fun \<Rightarrow> byte list list \<Rightarrow> (byte list \<times> byte list) list" where
  "NodeList_NodeSet keccak n = fold (\<lambda>node db. NodeSet_Put (hash_bytes (keccak node)) node db) n []"

subsection \<open>Verifying\<close>

lemma size_nth [termination_simp]: "i < length cs \<Longrightarrow> size_class.size (cs ! i) < Suc (size_list size_class.size cs)"
  unfolding less_Suc_eq_le by (rule size_list_estimation' [OF nth_mem order_refl])

fun proof_get :: "node \<Rightarrow> byte list \<Rightarrow> (byte list \<times> node) option" where
  "proof_get (ShortNode k c fl) key =
     (if length key < length k \<or> k \<noteq> take (length k) key then Some ([], NilNode)
      else proof_get c (drop (length k) key))"
| "proof_get (FullNode cs fl) [] = None"
| "proof_get (FullNode cs fl) (i # key) = (if unat i < length cs then proof_get (cs ! unat i) key else None)"
| "proof_get (HashNode h) key = Some (key, HashNode h)"
| "proof_get NilNode key = Some (key, NilNode)"
| "proof_get (ValueNode v) key = Some ([], ValueNode v)"

datatype proof_error = ProofMissing nat Hash | BadProofNode nat node_error | ProofPanic

type_synonym proof_result = "proof_error + byte list option \<times> nat"

partial_function (option) verify_loop :: "(byte list \<Rightarrow> byte list option) \<Rightarrow> Hash \<Rightarrow> byte list \<Rightarrow> nat \<Rightarrow> proof_result option" where
  "verify_loop proofDb wantHash key i =
     (case proofDb (hash_bytes wantHash) of
        None \<Rightarrow> Some (Inl (ProofMissing i wantHash))
      | Some buf \<Rightarrow>
          (case decodeNode (Some (hash_bytes wantHash)) buf 0 of
             Inl e \<Rightarrow> Some (Inl (if e = NodePanic then ProofPanic else BadProofNode i e))
           | Inr n \<Rightarrow>
               (case proof_get n key of
                  None \<Rightarrow> Some (Inl ProofPanic)
                | Some (keyrest, cld) \<Rightarrow>
                    (case cld of
                       NilNode \<Rightarrow> Some (Inr (None, i))
                     | HashNode h \<Rightarrow>
                         verify_loop proofDb (BytesToHash (take 32 (h @ drop (length h) (hash_bytes wantHash)))) keyrest (i + 1)
                     | ValueNode v \<Rightarrow> Some (Inr (Some v, i + 1))
                     | _ \<Rightarrow> verify_loop proofDb wantHash key (i + 1)))))"

definition magicHash :: "byte list" where
  "magicHash = map (\<lambda>c. of_char c) ''THIS IS THE MAGIC INDEX FOR ZKTRIE''"

definition VerifyProof ::
  "(Hash \<Rightarrow> byte list \<Rightarrow> (byte list \<Rightarrow> byte list option) \<Rightarrow> proof_result) \<Rightarrow> Hash \<Rightarrow> byte list \<Rightarrow> (byte list \<Rightarrow> byte list option) \<Rightarrow>
    proof_result option" where
  "VerifyProof verifySMT rootHash key proofDb =
     (if proofDb magicHash \<noteq> None then Some (verifySMT rootHash key proofDb)
      else verify_loop proofDb rootHash (keybytesToHex key) 0)"

subsection \<open>Proving\<close>

partial_function (option) prove_path :: "node_db \<Rightarrow> node \<Rightarrow> byte list \<Rightarrow> node list \<Rightarrow> (trie_error + node list) option" where
  "prove_path db tn key nodes =
     (if length key > 0 \<and> tn \<noteq> NilNode then
        (case tn of
           ShortNode k c fl \<Rightarrow>
             if length key < length k \<or> k \<noteq> take (length k) key then prove_path db NilNode key (nodes @ [tn])
             else prove_path db c (drop (length k) key) (nodes @ [tn])
         | FullNode cs fl \<Rightarrow>
             if unat (key ! 0) < length cs then prove_path db (cs ! unat (key ! 0)) (drop 1 key) (nodes @ [tn]) else Some (Inl TriePanic)
         | HashNode h \<Rightarrow>
             (case resolveHash db h [] of
                Inl e \<Rightarrow> Some (Inl e)
              | Inr n \<Rightarrow> prove_path db n key nodes)
         | _ \<Rightarrow> Some (Inl TriePanic))
      else Some (Inr nodes))"

text \<open>The second loop: the level to start from, the index of the node, and the encodings written so far.\<close>

fun prove_write :: "hash_fun \<Rightarrow> nat \<Rightarrow> nat \<Rightarrow> node list \<Rightarrow> byte list list" where
  "prove_write keccak fromLevel i [] = []"
| "prove_write keccak fromLevel i (n # nodes) =
     (let collapsed = fst (hashChildren keccak False 0 0 n);
          hn = fst (hasher_store keccak False collapsed False)
      in if is_hashNode hn \<or> i = 0 then
           (if fromLevel > 0 then prove_write keccak (fromLevel - 1) (i + 1) nodes
            else EncodeToBytes (node_item collapsed) # prove_write keccak fromLevel (i + 1) nodes)
         else prove_write keccak fromLevel (i + 1) nodes)"

text \<open>\<^verbatim>\<open>Trie.Prove\<close> into a \<^verbatim>\<open>NodeList\<close>, which keeps the values of the writes in order.\<close>

definition trie_Prove :: "hash_fun \<Rightarrow> node_db \<Rightarrow> Trie \<Rightarrow> byte list \<Rightarrow> nat \<Rightarrow> (trie_error + byte list list) option" where
  "trie_Prove keccak db t key fromLevel =
     map_option (map_sum id (prove_write keccak fromLevel 0)) (prove_path db (root t) (keybytesToHex key) [])"

subsection \<open>Node sets\<close>

lemma NodeSet_fold:
  assumes "\<forall>(k, v) \<in> set db. k = hash_bytes (keccak v)"
  shows "(\<forall>(k, v) \<in> set (fold (\<lambda>node db. NodeSet_Put (hash_bytes (keccak node)) node db) n db). k = hash_bytes (keccak v) \<and> (v \<in> set n \<or> (k, v) \<in> set db)) \<and>
    (\<forall>b. b \<in> set n \<or> map_of db (hash_bytes (keccak b)) \<noteq> None \<longrightarrow>
      map_of (fold (\<lambda>node db. NodeSet_Put (hash_bytes (keccak node)) node db) n db) (hash_bytes (keccak b)) \<noteq> None)"
  using assms
proof (induction n arbitrary: db)
  case (Cons x n)
  let ?db = "NodeSet_Put (hash_bytes (keccak x)) x db"
  have d: "\<forall>(k, v) \<in> set ?db. k = hash_bytes (keccak v)" "set ?db \<subseteq> insert (hash_bytes (keccak x), x) (set db)"
    using Cons.prems by (auto simp: NodeSet_Put_def)
  have m: "map_of ?db (hash_bytes (keccak b)) \<noteq> None" if "b = x \<or> map_of db (hash_bytes (keccak b)) \<noteq> None" for b
    using that by (auto simp: NodeSet_Put_def map_add_def split: option.splits)
  from Cons.IH [OF d(1)] d(2) m show ?case by (fastforce simp: fold_simps)
qed auto

lemma NodeSet_Get_list:
  "NodeSet_Get (NodeList_NodeSet keccak n) key = Some b \<Longrightarrow> key = hash_bytes (keccak b) \<and> b \<in> set n"
  using NodeSet_fold [of "[]" keccak n] unfolding NodeSet_Get_def NodeList_NodeSet_def by (fastforce dest: map_of_SomeD)

lemma NodeSet_Get_present: "b \<in> set n \<Longrightarrow> NodeSet_Get (NodeList_NodeSet keccak n) (hash_bytes (keccak b)) \<noteq> None"
  using NodeSet_fold [of "[]" keccak n] unfolding NodeSet_Get_def NodeList_NodeSet_def by simp

lemma NodeSet_Get_magic: "NodeSet_Get (NodeList_NodeSet keccak n) magicHash = None"
proof (rule ccontr)
  assume "NodeSet_Get (NodeList_NodeSet keccak n) magicHash \<noteq> None"
  then obtain b where "magicHash = hash_bytes (keccak b)" using NodeSet_Get_list by blast
  from arg_cong [OF this, of length] have "length magicHash = 32" by simp
  then show False by (simp add: magicHash_def)
qed

subsection \<open>The path to a key\<close>

fun ppath :: "ptree \<Rightarrow> byte list \<Rightarrow> ptree list" where
  "ppath (PShort k c) key = PShort k c # (case strip k key of None \<Rightarrow> [] | Some r \<Rightarrow> ppath c r)"
| "ppath (PFull cs) (i # key) = PFull cs # (if unat i < length cs then ppath (cs ! unat i) key else [])"
| "ppath _ _ = []"

definition next_node :: "hash_fun \<Rightarrow> ptree \<Rightarrow> byte list \<Rightarrow> byte list \<times> node \<Rightarrow> bool" where
  "next_node keccak q key res =
     (case res of (rest, n) \<Rightarrow>
        n = NilNode \<and> plookup q key = None \<or>
        (\<exists>v. n = ValueNode v \<and> plookup q key = Some v) \<or>
        (\<exists>c. n = HashNode (hash_bytes (khash keccak c)) \<and> canon c \<and> big keccak c \<and> size_class.size c < size_class.size q \<and>
          term_key rest \<and> plookup q key = plookup c rest \<and> set (ppath c rest) \<subseteq> set (ppath q key) \<and> (bounded q \<longrightarrow> bounded c)))"

lemma next_node_sub:
  assumes "next_node keccak c r res" "size_class.size c < size_class.size q" "plookup q key = plookup c r" "set (ppath c r) \<subseteq> set (ppath q key)"
    and "bounded q \<longrightarrow> bounded c"
  shows "next_node keccak q key res"
  using assms unfolding next_node_def by (cases res) fastforce

lemma proof_get_child:
  assumes "canon c" "term_key r" "\<exists>res. proof_get (pnode keccak None gen c) r = Some res \<and> next_node keccak c r res"
    and q: "size_class.size c < size_class.size q" "plookup q key = plookup c r" "set (ppath c r) \<subseteq> set (ppath q key)" "bounded q \<longrightarrow> bounded c"
  shows "\<exists>res. proof_get (pchild keccak gen c) r = Some res \<and> next_node keccak q key res"
proof (cases "big keccak c")
  case True
  then have "proof_get (pchild keccak gen c) r = Some (r, HashNode (hash_bytes (khash keccak c)))" using pchild_canon [OF assms(1)] by simp
  moreover have "next_node keccak q key (r, HashNode (hash_bytes (khash keccak c)))" using assms(1,2) q True by (auto simp: next_node_def)
  ultimately show ?thesis by blast
next
  case False
  then show ?thesis using assms(3) next_node_sub [OF _ q] pchild_canon [OF assms(1)] by auto
qed

lemma strip_mismatch: "strip k key = None \<longleftrightarrow> length key < length k \<or> k \<noteq> take (length k) key"
  by (simp add: strip_take)

lemma proof_get_leafy:
  "leafy c \<Longrightarrow> fits c r \<Longrightarrow> plookup q key = plookup c r \<Longrightarrow> \<exists>res. proof_get (pchild keccak gen c) r = Some res \<and> next_node keccak q key res"
  by (auto simp: leafy_def next_node_def fits_def split: if_splits)

lemma proof_get_pnode:
  assumes "canon q" "term_key key"
  shows "\<exists>res. proof_get (pnode keccak h gen q) key = Some res \<and> next_node keccak q key res"
  using assms
proof (induction q arbitrary: key h rule: canon_induct)
  case (leaf k v)
  then have c: "canon (PShort k (PValue v))" by auto
  show ?case
  proof (cases "strip k key")
    case None
    moreover from this have "length key < length k \<or> k \<noteq> take (length k) key" by (simp only: strip_mismatch)
    ultimately show ?thesis by (auto simp: next_node_def)
  next
    case (Some r)
    then have k: "key = k @ r" by simp
    have "fits (PValue v) r" using fits_short [OF c] leaf.prems k by simp
    from proof_get_leafy [OF _ this, of "PShort k (PValue v)" key keccak gen] Some k show ?thesis by (simp add: leafy_def)
  qed
next
  case (ext k cs)
  then have c: "canon (PShort k (PFull cs))" by auto
  show ?case
  proof (cases "strip k key")
    case None
    moreover from this have "length key < length k \<or> k \<noteq> take (length k) key" by (simp only: strip_mismatch)
    ultimately show ?thesis by (auto simp: next_node_def)
  next
    case (Some r)
    then have k: "key = k @ r" by simp
    have "term_key r" using fits_short [OF c, of r] ext.prems k by (auto simp: fits_def split: if_splits)
    from proof_get_child [OF ext.hyps(3) this ext.IH [OF this], of "PShort k (PFull cs)" key] Some k bounded_short [of k "PFull cs"]
    show ?thesis by (simp add: subset_insertI del: ppath.simps(2))
  qed
next
  case (full cs)
  note c = canon_children [OF full.hyps]
  obtain i r where k: "key = i # r" using full.prems by (cases key) auto
  note f = fits_full [OF full.hyps full.prems [unfolded k]]
  have l: "plookup (PFull cs) key = plookup (cs ! unat i) r" using f(1) k by simp
  have "\<exists>res. proof_get (pchild keccak gen (cs ! unat i)) r = Some res \<and> next_node keccak (PFull cs) key res"
  proof (cases "leafy (cs ! unat i)")
    case True
    from proof_get_leafy [OF this f(2) l] show ?thesis .
  next
    case False
    with canon_leafy [OF full.hyps, of "unat i"] f(1) c(1) have ci: "canon (cs ! unat i)" by simp
    have i: "unat i < 16" "cs ! unat i \<noteq> PNil" using False f(1) c(1,3) by (cases "unat i = 16"; auto simp: leafy_def)+
    have t: "term_key r" using f(2) ci by (cases "cs ! unat i") (auto simp: fits_def split: if_splits)
    from full.IH [OF i] t have "\<exists>res. proof_get (pnode keccak None gen (cs ! unat i)) r = Some res \<and> next_node keccak (cs ! unat i) r res" by blast
    from proof_get_child [OF ci t this _ l] size_child [OF f(1)] bounded_full [of cs "unat i"] f(1) c(1) k show ?thesis
      by (simp add: subset_insertI)
  qed
  then show ?case using f(1) k by simp
qed

subsection \<open>Verifying follows the tree\<close>

text \<open>Where the nodes of the path are either missing or right, the outcome is the value in the tree or a missing node.\<close>

definition verdict :: "hash_fun \<Rightarrow> (byte list \<Rightarrow> byte list option) \<Rightarrow> ptree \<Rightarrow> byte list \<Rightarrow> proof_result \<Rightarrow> bool" where
  "verdict keccak proofDb q key r =
     (case r of
        Inr (v, _) \<Rightarrow> v = plookup q key
      | Inl (ProofMissing _ h) \<Rightarrow>
          proofDb (hash_bytes h) = None \<and> (\<exists>c \<in> set (ppath q key). (c = q \<or> big keccak c) \<and> h = khash keccak c)
      | _ \<Rightarrow> False)"

lemma verdict_sub:
  "verdict keccak proofDb c r res \<Longrightarrow> plookup q key = plookup c r \<Longrightarrow> set (ppath c r) \<subseteq> set (ppath q key) \<Longrightarrow> big keccak c \<Longrightarrow>
    verdict keccak proofDb q key res"
  by (auto simp: verdict_def split: sum.splits proof_error.splits)

lemma ppath_self: "canon q \<Longrightarrow> term_key key \<Longrightarrow> q \<in> set (ppath q key)"
  by (cases q; cases key) auto

lemma verify_loop_verdict:
  assumes "canon q" "bounded q" "term_key key"
    and "\<forall>c \<in> set (ppath q key). c = q \<or> big keccak c \<longrightarrow> proofDb (hash_bytes (khash keccak c)) \<in> {None, Some (penc keccak c)}"
  shows "\<exists>r. verify_loop proofDb (khash keccak q) key i = Some r \<and> verdict keccak proofDb q key r"
  using assms
proof (induction "size_class.size q" arbitrary: q key i rule: less_induct)
  case less
  have q: "q \<in> set (ppath q key)" using ppath_self less.prems by blast
  show ?case
  proof (cases "proofDb (hash_bytes (khash keccak q))")
    case None
    then show ?thesis using q by (subst verify_loop.simps) (auto simp: verdict_def)
  next
    case (Some b)
    then have b: "b = penc keccak q" using less.prems(4) q by auto
    obtain rest n where g: "proof_get (pnode keccak (Some (hash_bytes (khash keccak q))) 0 q) key = Some (rest, n)" "next_node keccak q key (rest, n)"
      using proof_get_pnode [OF less.prems(1,3)] by fastforce
    note step = Some b decodeNode_penc [OF less.prems(1,2), of "Some (hash_bytes (khash keccak q))" keccak 0] g(1)
    from g(2) consider "n = NilNode" "plookup q key = None" | v where "n = ValueNode v" "plookup q key = Some v"
      | c where "n = HashNode (hash_bytes (khash keccak c))" "canon c" "big keccak c" "size_class.size c < size_class.size q"
        "term_key rest" "plookup q key = plookup c rest" "set (ppath c rest) \<subseteq> set (ppath q key)" "bounded c"
      using less.prems(2) by (auto simp: next_node_def)
    then show ?thesis
    proof cases
      case 3
      have "\<forall>d \<in> set (ppath c rest). d = c \<or> big keccak d \<longrightarrow> proofDb (hash_bytes (khash keccak d)) \<in> {None, Some (penc keccak d)}"
      proof (intro ballI impI)
        fix d
        assume "d \<in> set (ppath c rest)" "d = c \<or> big keccak d"
        then have "d \<in> set (ppath q key)" "big keccak d" using 3(3,7) by auto
        with less.prems(4) show "proofDb (hash_bytes (khash keccak d)) \<in> {None, Some (penc keccak d)}" by simp
      qed
      from less.hyps [OF 3(4,2,8,5) this, of "i + 1"] obtain r where
        r: "verify_loop proofDb (khash keccak c) rest (i + 1) = Some r" "verdict keccak proofDb c rest r" by blast
      have "verify_loop proofDb (khash keccak q) key i = Some r" using step 3(1) r(1) by (subst verify_loop.simps) simp
      with verdict_sub [OF r(2) 3(6,7,3)] show ?thesis by blast
    qed (use step in \<open>subst verify_loop.simps, simp add: verdict_def\<close>)+
  qed
qed

subsection \<open>Proving collects the path\<close>

lemma prove_path_loads:
  assumes "loads db ok f n p" "fits p key"
  shows "\<exists>ns. prove_path db n key acc = Some (Inr (acc @ ns)) \<and>
    list_all2 (\<lambda>n q. inner_node n \<and> (\<exists>f. loads db ok f n q)) ns (ppath p key)"
  using assms
proof (induction arbitrary: key acc rule: loads.induct)
  case (loads_nil f)
  then show ?case by (subst prove_path.simps) simp
next
  case (loads_value f v)
  then have "key = []" by (auto simp: fits_def split: if_splits)
  then show ?case by (subst prove_path.simps) simp
next
  case (loads_short c p f fl k)
  then have c: "canon (PShort k p)" "term_key key" by (auto simp: fits_def split: if_splits)
  then have "key \<noteq> []" by auto
  let ?n = "ShortNode k c fl"
  have n: "inner_node ?n" "\<exists>f. loads db ok f ?n (PShort k p)" using loads_short.hyps by (auto simp: inner_node_def)
  show ?case
  proof (cases "strip k key")
    case None
    moreover from this have "length key < length k \<or> k \<noteq> take (length k) key" by (simp only: strip_mismatch)
    moreover have "prove_path db NilNode key (acc @ [?n]) = Some (Inr (acc @ [?n]))" by (subst prove_path.simps) simp
    ultimately show ?thesis using \<open>key \<noteq> []\<close> n by (subst prove_path.simps) (auto simp del: loads_simps)
  next
    case (Some r)
    then have k: "key = k @ r" by simp
    have "fits p r" using fits_short [OF c(1)] c(2) k by simp
    from loads_short.IH [OF this, of "acc @ [?n]"] obtain ns where
      "prove_path db c r (acc @ [?n]) = Some (Inr ((acc @ [?n]) @ ns))"
      "list_all2 (\<lambda>n q. inner_node n \<and> (\<exists>f. loads db ok f n q)) ns (ppath p r)" by blast
    with k n \<open>key \<noteq> []\<close> show ?thesis
      by (subst prove_path.simps) (auto intro!: exI [of _ "?n # ns"] simp del: loads_simps)
  qed
next
  case (loads_full cs ps f fl)
  have all: "list_all2 (loads db ok False) cs ps" using loads_full.IH by (rule list_all2_conj)
  have "key \<noteq> []" using loads_full.prems by (auto simp: fits_def)
  then obtain i r where k: "key = i # r" by (cases key) auto
  have c: "canon (PFull ps)" "term_key (i # r)" using loads_full.prems k by (auto simp: fits_simps)
  note f = fits_full [OF c]
  have l: "unat i < length cs" using f(1) list_all2_lengthD [OF all] by simp
  let ?n = "FullNode cs fl"
  have n: "inner_node ?n" "\<exists>f. loads db ok f ?n (PFull ps)" using loads_full.hyps all by (auto simp: inner_node_def)
  from list_all2_nthD [OF loads_full.IH l] f(2) obtain ns where
    "prove_path db (cs ! unat i) r (acc @ [?n]) = Some (Inr ((acc @ [?n]) @ ns))"
    "list_all2 (\<lambda>n q. inner_node n \<and> (\<exists>f. loads db ok f n q)) ns (ppath (ps ! unat i) r)" by blast
  with k l n f(1) show ?case by (subst prove_path.simps) (auto intro!: exI [of _ "?n # ns"] simp del: loads_simps)
next
  case (loads_hash h n f p)
  from loads_hash.IH [OF loads_hash.prems, of acc] loads_hash(1,2) show ?case
  proof (cases "key = []")
    case True
    have "inner p" using loads_hash.hyps(2,4) by (cases p) (auto simp: inner_node_def elim: loads.cases split: node.splits)
    with True loads_hash.prems show ?thesis by (cases p) (auto simp: fits_def)
  next
    case False
    with loads_hash.IH [OF loads_hash.prems, of acc] loads_hash(1,2) show ?thesis
      by (subst prove_path.simps) (simp add: resolveHash_def inner_node_not_nil)
  qed
qed

lemma prove_write_in:
  assumes "list_all2 (\<lambda>n q. inner_node n \<and> (\<exists>f. loads (dbg gen) (cache_ok keccak dbg) f n q)) ns qs" "\<forall>q \<in> set qs. canon q"
  shows "set (prove_write keccak 0 i ns) =
    penc keccak ` {q \<in> set qs. big keccak q} \<union> (if i = 0 \<and> qs \<noteq> [] then {penc keccak (hd qs)} else {})"
  using assms
proof (induction ns qs arbitrary: i rule: list_all2_induct)
  case (Cons n ns q qs)
  then obtain f where n: "inner_node n" "loads (dbg gen) (cache_ok keccak dbg) f n q" "canon q" by auto
  from hashChildren_ok [OF n(3,2,1), of False 0 0] obtain fl where
    fl: "flag_ok (cache_ok keccak dbg) f fl q" "walked_ok keccak dbg False q fl (hashChildren keccak False 0 0 n)" by blast
  obtain collapsed cached ws where h: "hashChildren keccak False 0 0 n = (collapsed, cached, ws)" by (metis prod_cases3)
  have c: "simplifyNode collapsed = Some (praw keccak q)" "inner_node collapsed" using fl(2) h by (simp_all add: walked_ok_def)
  then have e: "EncodeToBytes (node_item collapsed) = penc keccak q"
    using simplifyNode_item [OF c(1)] by (simp add: penc_def raw_enc_def)
  have "is_hashNode (fst (hasher_store keccak False collapsed False)) \<longleftrightarrow> big keccak q"
    using c(2) e by (auto simp: hasher_store_def is_hashNode_iff big_def inner_node_def Let_def split: node.splits)
  with Cons.IH [of "Suc i"] Cons.prems e h show ?case by (auto simp: Let_def)
qed simp

lemma ppath_canon: "canon q \<Longrightarrow> term_key key \<Longrightarrow> c \<in> set (ppath q key) \<Longrightarrow> canon c \<and> c \<in> set (psubs q)"
proof (induction q arbitrary: key rule: canon_induct)
  case (leaf k v)
  then show ?case by (auto split: option.splits)
next
  case (ext k cs)
  then have c: "canon (PShort k (PFull cs))" by auto
  from ext.prems(2) consider "c = PShort k (PFull cs)" | r where "key = k @ r" "c \<in> set (ppath (PFull cs) r)"
    by (cases "strip k key") (auto simp del: ppath.simps(2))
  then show ?case
  proof cases
    case 2
    have "term_key r" using fits_short [OF c, of r] ext.prems(1) 2 by (auto simp: fits_def split: if_splits)
    with ext.IH 2 show ?thesis by auto
  qed (use c in simp)
next
  case (full cs)
  note c = canon_children [OF full.hyps]
  obtain i r where k: "key = i # r" using full.prems by (cases key) auto
  note f = fits_full [OF full.hyps full.prems(1) [unfolded k]]
  show ?case
  proof (cases "c = PFull cs")
    case False
    with full.prems k have m: "c \<in> set (ppath (cs ! unat i) r)" by (auto split: if_splits)
    have i: "unat i < 16" "cs ! unat i \<noteq> PNil" using m f(1) c(1,3) by (cases "unat i = 16"; auto)+
    with full.IH have ci: "canon (cs ! unat i)" by blast
    have "term_key r" using f(2) ci by (cases "cs ! unat i") (auto simp: fits_def split: if_splits)
    with full.IH [OF i] m psubs_nth [OF f(1)] show ?thesis by auto
  qed (use full.hyps in simp)
qed

end
