(* ===== verification/Trie_Props.thy ===== *)
theory Trie_Props
  imports Trie_Proof
begin

text \<open>
  The properties of the trie: it is a map whatever the order of operations, its root hash depends on the content only
  and determines it, a committed trie is read back from disk, and Merkle proofs are complete and sound.  The
  decoder of nodes yields well-formed nodes from any input.
\<close>

subsection \<open>Runs from the empty trie\<close>

definition empty_trie :: Trie where
  "empty_trie = \<lparr>root = NilNode, cachegen = 0, cachelimit = 0\<rparr>"

definition start :: "Trie \<times> Database" where
  "start = (empty_trie, NewDatabase (\<lambda>_. None))"

definition distinct_hashes :: "hash_fun \<Rightarrow> ptree list \<Rightarrow> bool" where
  "distinct_hashes keccak qs \<longleftrightarrow>
     inj_on (khash keccak) (set qs) \<and> 0 \<notin> khash keccak ` set qs \<and> emptyRoot \<notin> khash keccak ` set qs"

definition small_content :: "(byte list \<Rightarrow> byte list option) \<Rightarrow> bool" where
  "small_content m \<longleftrightarrow> (\<forall>key v. m key = Some v \<longrightarrow> length key < 2 ^ 30 \<and> length v < 2 ^ 30)"

lemma committed_append: "committed p (ops @ ops') = committed p ops @ committed (fold tree_step ops p) ops'"
  by (induction ops arbitrary: p) auto

lemma distinct_no_clash: "distinct_hashes keccak (committed PNil ops) \<Longrightarrow> no_clash keccak (set (committed PNil ops))"
  using committed_closed [of PNil _ ops] by (auto simp: distinct_hashes_def no_clash_def)

lemma start_sound: "db_sound keccak S (NewDatabase (\<lambda>_. None))"
  by (auto simp: db_sound_def NewDatabase_def entries_def newest_ok_def split: if_splits)

lemma run_start:
  assumes "no_clash keccak S" "set (committed PNil ops) \<subseteq> S"
  shows "\<exists>t db. trie_run keccak ops start = Some (Inr (t, db)) \<and> trie_rep keccak db t (tree_of ops) \<and> db_sound keccak S db \<and>
    no_external db \<and> db_disk db = (\<lambda>_. None)"
proof -
  have "trie_rep keccak (NewDatabase (\<lambda>_. None)) empty_trie PNil" by (simp add: trie_rep_def empty_trie_def)
  from trie_run_rep [OF this assms(1) start_sound assms(2)] obtain t db where
    r: "trie_run keccak ops start = Some (Inr (t, db))" "trie_rep keccak db t (tree_of ops)" "db_sound keccak S db"
    by (auto simp: start_def tree_of_def)
  have "no_external (NewDatabase (\<lambda>_. None))" by (simp add: no_external_def NewDatabase_def)
  from trie_run_frame [OF r(1) [unfolded start_def] this] r show ?thesis by (auto simp: NewDatabase_def)
qed

lemma plookup_term: "canon p \<Longrightarrow> plookup p key \<noteq> None \<Longrightarrow> term_key key"
proof (induction p arbitrary: key rule: canon_induct)
  case (leaf k v)
  then show ?case by (auto split: option.splits if_splits)
next
  case (ext k cs)
  from ext.prems obtain r where r: "key = k @ r" "plookup (PFull cs) r \<noteq> None"
    by (cases "strip k key") (auto simp del: plookup.simps(4,5))
  from ext.IH [OF r(2)] have "term_key r" .
  with r(1) ext.hyps(2) show ?case by (cases "r = []") (auto simp: term_key_append)
next
  case (full cs)
  note c = canon_children [OF full.hyps]
  obtain i r where k: "key = i # r" "unat i < 17" "plookup (cs ! unat i) r \<noteq> None"
    using full.prems c(1) by (cases key) (auto split: if_splits)
  show ?case
  proof (cases "unat i = 16")
    case True
    then have "i = 16" by (simp add: word_unat_eq_iff)
    moreover have "r = []" using k(3) c(3) True by (auto split: if_splits)
    ultimately show ?thesis by (simp add: k(1) term_key_Cons)
  next
    case False
    then have i: "unat i < 16" using k(2) by simp
    with k(3) full.IH [OF i] have "term_key r" by (cases "cs ! unat i") auto
    with i show ?thesis by (cases r) (simp_all add: k(1) term_key_Cons [of i] word_less_nat_alt)
  qed
qed

lemma length_hex: "length (keybytesToHex k) = 2 * length k + 1"
  by (induction k) (simp_all add: keybytesToHex_def)

lemma bounded_tree: "small_content (content ops) \<Longrightarrow> bounded (tree_of ops)"
  unfolding bounded_def
proof (intro allI impI)
  fix key v
  assume s: "small_content (content ops)" and l: "plookup (tree_of ops) key = Some v"
  then have "tree_of ops \<noteq> PNil" by auto
  with tree_of_canon have "canon (tree_of ops)" by blast
  with plookup_term l have "term_key key" by blast
  with tree_of_ok(1) [of ops] l obtain k where k: "key = keybytesToHex k" by (auto simp: tree_inv_def byte_keys_def)
  with l tree_of_ok(2) [of ops] have "content ops k = Some v" by (metis pcontent_def)
  with s have "length k < 2 ^ 30 \<and> length v < 2 ^ 30" by (auto simp: small_content_def)
  with k show "length key < 4294967296 \<and> length v < 4294967296" by (simp add: length_hex)
qed

text \<open>A small example for the witnesses: one entry, reached by two histories, with a hash that is never zero.\<close>

definition sample :: "trie_op list" where
  "sample = [OpUpdate [0x12] [7], OpHash, OpCommit, OpGet [0x12]]"

definition sample2 :: "trie_op list" where
  "sample2 = [OpUpdate [0x12] [9], OpUpdate [0x34] [1], OpUpdate [0x12] [7], OpUpdate [0x34] []]"

definition sample_leaf :: ptree where
  "sample_leaf = PShort [1, 2, 16] (PValue [7])"

definition one_hash :: hash_fun where
  "one_hash b = 1"

lemma hex_sample: "keybytesToHex [0x12] = [1, 2, 16]"
  by (simp add: keybytesToHex_def)

lemma sample_committed:
  "committed PNil sample = [sample_leaf]" "committed PNil (sample @ [OpCommit]) = [sample_leaf, sample_leaf]" "committed PNil sample2 = []"
  "tree_of sample = sample_leaf" "psubs sample_leaf = [sample_leaf]"
  by (simp_all add: sample_def sample2_def tree_of_def tree_step_def pupdate_def hex_sample sample_leaf_def)

lemma sample_content:
  "content sample = [[0x12] \<mapsto> [7]]" "content sample2 = [[0x12] \<mapsto> [7]]" "small_content [[0x12] \<mapsto> [7]]"
  "content sample \<noteq> (\<lambda>_. None)" "content sample2 \<noteq> (\<lambda>_. None)"
  by (auto simp: sample_def sample2_def content_def content_step_def small_content_def fun_eq_iff split: if_splits)

lemma sample_distinct:
  "set qs \<subseteq> {q} \<Longrightarrow> distinct_hashes one_hash qs"
  by (auto simp: distinct_hashes_def khash_def one_hash_def emptyRoot_def inj_on_def)

lemma sample_runs:
  "distinct_hashes one_hash (committed PNil sample)" "distinct_hashes one_hash (committed PNil sample2)"
  "\<exists>t db. trie_run one_hash sample start = Some (Inr (t, db))" "\<exists>t db. trie_run one_hash sample2 start = Some (Inr (t, db))"
proof -
  show d: "distinct_hashes one_hash (committed PNil sample)" "distinct_hashes one_hash (committed PNil sample2)"
    using sample_distinct [of _ sample_leaf] by (simp_all add: sample_committed)
  show "\<exists>t db. trie_run one_hash sample start = Some (Inr (t, db))" "\<exists>t db. trie_run one_hash sample2 start = Some (Inr (t, db))"
    using run_start [OF distinct_no_clash order_refl] d by blast+
qed

subsection \<open>The trie is a map\<close>

text \<open>
  C1: Whatever sequence of reads, updates (an empty value deletes), hashings and commits is made from the empty trie and
  database, no operation fails, every key then reads as the last value written to it, and the root hash
  is the hash of the canonical tree of that content.
\<close>

theorem trie_implements_map:
  assumes "distinct_hashes keccak (committed PNil ops)"
  shows "\<exists>t db. trie_run keccak ops start = Some (Inr (t, db)) \<and>
    (\<forall>key. \<exists>t'. TryGet (Database_node db (cachegen t)) t key = Some (Inr (content ops key, t'))) \<and>
    fst (trie_Hash keccak t) = proot keccak (tree_of ops)"
proof -
  from run_start [OF distinct_no_clash [OF assms] order_refl] obtain t db where
    r: "trie_run keccak ops start = Some (Inr (t, db))" "trie_rep keccak db t (tree_of ops)" by blast
  have "\<exists>t'. TryGet (Database_node db (cachegen t)) t key = Some (Inr (content ops key, t'))" for key
    using TryGet_rep [OF r(2), of key] unfolding tree_of_ok(2) by blast
  moreover have "fst (trie_Hash keccak t) = proot keccak (tree_of ops)" using trie_Hash_rep [OF r(2)] by auto
  ultimately show ?thesis using r(1) by blast
qed

theorem trie_implements_map_witness:
  "\<exists>t db. trie_run one_hash sample start = Some (Inr (t, db)) \<and>
    (\<forall>key. \<exists>t'. TryGet (Database_node db (cachegen t)) t key = Some (Inr ([[0x12] \<mapsto> [7]] key, t'))) \<and>
    fst (trie_Hash one_hash t) = proot one_hash sample_leaf"
  using trie_implements_map [OF sample_runs(1)] unfolding sample_content(1) sample_committed(4) .

text \<open>
  C6: The root hash does not depend on the history: two sequences of operations that leave the same content leave the same
  root hash, whatever was written, deleted, hashed or committed in between.
\<close>

theorem trie_root_history_independent:
  assumes "distinct_hashes keccak (committed PNil ops)" "distinct_hashes keccak (committed PNil ops')" "content ops = content ops'"
    and "trie_run keccak ops start = Some (Inr (t, db))" "trie_run keccak ops' start = Some (Inr (t', db'))"
  shows "fst (trie_Hash keccak t) = fst (trie_Hash keccak t')"
proof -
  have r: "trie_rep keccak db t (tree_of ops)" "trie_rep keccak db' t' (tree_of ops')"
    using run_start [OF distinct_no_clash [OF assms(1)] order_refl] run_start [OF distinct_no_clash [OF assms(2)] order_refl] assms(4,5)
    by auto
  have "tree_of ops = tree_of ops'" using assms(3) tree_of_unique by blast
  with trie_Hash_rep [OF r(1)] trie_Hash_rep [OF r(2)] show ?thesis by auto
qed

theorem trie_root_history_independent_witness:
  "\<exists>t db t' db'. trie_run one_hash sample start = Some (Inr (t, db)) \<and> trie_run one_hash sample2 start = Some (Inr (t', db')) \<and>
    fst (trie_Hash one_hash t) = fst (trie_Hash one_hash t')"
  using sample_runs(3,4) trie_root_history_independent [OF sample_runs(1,2)] sample_content(1,2) by auto

text \<open>
  C12: The root hash commits to the content: if two non-empty tries have the same root hash, then they have the same content, or two
  different node encodings in them have the same hash.
\<close>

theorem trie_root_binds_content:
  assumes "distinct_hashes keccak (committed PNil ops)" "distinct_hashes keccak (committed PNil ops')"
    and "trie_run keccak ops start = Some (Inr (t, db))" "trie_run keccak ops' start = Some (Inr (t', db'))"
    and "content ops \<noteq> (\<lambda>_. None)" "content ops' \<noteq> (\<lambda>_. None)" "small_content (content ops)" "small_content (content ops')"
    and "fst (trie_Hash keccak t) = fst (trie_Hash keccak t')"
  shows "content ops = content ops' \<or> collide keccak (tree_of ops) (tree_of ops')"
proof -
  have r: "trie_rep keccak db t (tree_of ops)" "trie_rep keccak db' t' (tree_of ops')"
    using run_start [OF distinct_no_clash [OF assms(1)] order_refl] run_start [OF distinct_no_clash [OF assms(2)] order_refl] assms(3,4)
    by auto
  have n: "tree_of ops \<noteq> PNil" "tree_of ops' \<noteq> PNil" using assms(5,6) tree_of_Nil by blast+
  with tree_of_canon have c: "canon (tree_of ops)" "canon (tree_of ops')" by blast+
  have "khash keccak (tree_of ops) = khash keccak (tree_of ops')"
    using trie_Hash_rep [OF r(1)] trie_Hash_rep [OF r(2)] assms(9) n by (auto simp: proot_def)
  with khash_inject [OF c bounded_tree [OF assms(7)] bounded_tree [OF assms(8)]] tree_of_unique show ?thesis by blast
qed

theorem trie_root_binds_content_witness:
  "\<exists>t db t' db'. trie_run one_hash sample start = Some (Inr (t, db)) \<and> trie_run one_hash sample2 start = Some (Inr (t', db')) \<and>
    fst (trie_Hash one_hash t) = fst (trie_Hash one_hash t') \<and>
    (content sample = content sample2 \<or> collide one_hash (tree_of sample) (tree_of sample2))"
proof -
  obtain t db t' db' where r: "trie_run one_hash sample start = Some (Inr (t, db))" "trie_run one_hash sample2 start = Some (Inr (t', db'))"
    using sample_runs(3,4) by blast
  have "tree_of sample = tree_of sample2" using sample_content(1,2) tree_of_unique [of sample sample2] by simp
  then have h: "fst (trie_Hash one_hash t) = fst (trie_Hash one_hash t')"
    using run_start [OF distinct_no_clash [OF sample_runs(1)] order_refl] run_start [OF distinct_no_clash [OF sample_runs(2)] order_refl] r
      trie_Hash_rep [of one_hash db t] trie_Hash_rep [of one_hash db' t'] by fastforce
  have "small_content (content sample)" "small_content (content sample2)" unfolding sample_content(1,2) by (rule sample_content(3))+
  from trie_root_binds_content [OF sample_runs(1,2) r sample_content(4,5) this h] r h show ?thesis by blast
qed

subsection \<open>Durability\<close>

text \<open>
  C7: What is committed is read back from disk.  After any sequence of operations, \<^verbatim>\<open>Trie.Commit\<close> followed by
  \<^verbatim>\<open>Database.Commit\<close> of the root leaves a disk from which alone a new database opens the trie at that root, and
  every key reads as before; the recursion over the nodes ends with enough fuel.
\<close>

theorem trie_commit_durable:
  assumes "distinct_hashes keccak (committed PNil (ops @ [OpCommit]))" "small_content (content ops)"
  shows "\<exists>t db r t1 db1 disk t2. trie_run keccak ops start = Some (Inr (t, db)) \<and> trie_Commit keccak db t = Some (r, t1, db1) \<and>
    (\<exists>n. \<forall>fuel \<ge> n. Database_persist fuel db1 r = Some disk) \<and> trie_New r (NewDatabase disk) = Inr t2 \<and>
    (\<forall>key. \<exists>t'. TryGet (Database_node (NewDatabase disk) (cachegen t2)) t2 key = Some (Inr (content ops key, t')))"
proof -
  let ?p = "tree_of ops" and ?S = "set (committed PNil (ops @ [OpCommit]))"
  note nc = distinct_no_clash [OF assms(1)]
  have sub: "set (committed PNil ops) \<subseteq> ?S" "set (psubs ?p) \<subseteq> ?S" by (auto simp: committed_append tree_of_def)
  from run_start [OF nc sub(1)] obtain t db where
    r: "trie_run keccak ops start = Some (Inr (t, db))" "trie_rep keccak db t ?p" "db_sound keccak ?S db" "no_external db" "db_disk db = (\<lambda>_. None)"
    by blast
  have p: "?p = PNil \<or> ?p \<in> ?S" using tree_of_canon [of ops] psubs_self [OF inner_canon, of ?p] sub(2) by blast
  from trie_Commit_rep [OF r(2) nc r(3) p] obtain t1 db1 where
    c: "trie_Commit keccak db t = Some (proot keccak ?p, t1, db1)" "db_sound keccak ?S db1" "db_disk db1 = db_disk db"
    "?p = PNil \<or> stored keccak (Database_node db1) True ?p" by blast
  have e: "no_external db1" using c(1) insert_writes_frame [OF _ r(4)] by (auto simp: trie_Commit_def split: prod.splits)
  have "\<exists>disk. (\<exists>n. \<forall>fuel \<ge> n. Database_persist fuel db1 (proot keccak ?p) = Some disk) \<and>
      (?p = PNil \<or> ?p \<in> ?S \<and> stored keccak (Database_node (NewDatabase disk)) True ?p)"
  proof (rule persist_root [OF nc c(2) e])
    show "db_disk db1 = (\<lambda>_. None)" using c(3) r(5) by simp
    show "?p = PNil \<or> ?p \<in> ?S \<and> bounded ?p \<and> stored keccak (Database_node db1) True ?p" using c(4) p bounded_tree [OF assms(2)] by blast
  qed
  then obtain disk n where d: "\<forall>fuel \<ge> n. Database_persist fuel db1 (proot keccak ?p) = Some disk"
    "?p = PNil \<or> ?p \<in> ?S \<and> stored keccak (Database_node (NewDatabase disk)) True ?p" by blast
  from trie_New_rep [OF nc d(2)] obtain t2 where
    t2: "trie_New (proot keccak ?p) (NewDatabase disk) = Inr t2" "trie_rep keccak (NewDatabase disk) t2 ?p" by blast
  have "\<exists>t'. TryGet (Database_node (NewDatabase disk) (cachegen t2)) t2 key = Some (Inr (content ops key, t'))" for key
    using TryGet_rep [OF t2(2), of key] unfolding tree_of_ok(2) by blast
  with r(1) c(1) d(1) t2(1) show ?thesis by blast
qed

theorem trie_commit_durable_witness:
  "\<exists>t db r t1 db1 disk t2. trie_run one_hash sample start = Some (Inr (t, db)) \<and> trie_Commit one_hash db t = Some (r, t1, db1) \<and>
    (\<exists>n. \<forall>fuel \<ge> n. Database_persist fuel db1 r = Some disk) \<and> trie_New r (NewDatabase disk) = Inr t2 \<and>
    (\<forall>key. \<exists>t'. TryGet (Database_node (NewDatabase disk) (cachegen t2)) t2 key = Some (Inr ([[0x12] \<mapsto> [7]] key, t')))"
proof -
  have "distinct_hashes one_hash (committed PNil (sample @ [OpCommit]))"
    using sample_distinct [of _ sample_leaf] by (simp add: sample_committed)
  moreover have "small_content (content sample)" unfolding sample_content(1) by (rule sample_content(3))
  ultimately show ?thesis using trie_commit_durable [of one_hash sample] unfolding sample_content(1) by blast
qed

subsection \<open>Merkle proofs\<close>

lemma ppath_hd: "canon p \<Longrightarrow> term_key key \<Longrightarrow> ppath p key \<noteq> [] \<and> hd (ppath p key) = p"
  by (cases p; cases key) auto

lemma run_rep:
  assumes "distinct_hashes keccak (committed PNil ops)" "trie_run keccak ops start = Some (Inr (t, db))"
  shows "trie_rep keccak db t (tree_of ops)"
  using run_start [OF distinct_no_clash [OF assms(1)] order_refl] assms(2) by auto

lemma root_hash_of_run:
  assumes "distinct_hashes keccak (committed PNil ops)" "trie_run keccak ops start = Some (Inr (t, db))" "content ops \<noteq> (\<lambda>_. None)"
  shows "canon (tree_of ops)" "fst (trie_Hash keccak t) = khash keccak (tree_of ops)"
proof -
  have n: "tree_of ops \<noteq> PNil" using assms(3) tree_of_Nil by blast
  with tree_of_canon show "canon (tree_of ops)" by blast
  from trie_Hash_rep [OF run_rep [OF assms(1,2)]] n show "fst (trie_Hash keccak t) = khash keccak (tree_of ops)" by (auto simp: proot_def)
qed

lemma NodeSet_Get_None: "NodeSet_Get (NodeList_NodeSet keccak nodes) (hash_bytes (keccak b)) = None \<Longrightarrow> b \<notin> set nodes"
  using NodeSet_Get_present by blast

lemma VerifyProof_NodeSet:
  "VerifyProof smt r key (NodeSet_Get (NodeList_NodeSet keccak nodes)) = verify_loop (NodeSet_Get (NodeList_NodeSet keccak nodes)) r (keybytesToHex key) 0"
  by (simp add: VerifyProof_def NodeSet_Get_magic)

text \<open>
  C4: Merkle proofs are sound.  Take the root hash of a non-empty trie and any list of nodes, none of which collides with a node of
  the trie.  Then \<^verbatim>\<open>VerifyProof\<close> ends, and its outcome is the value that the trie has for the key (nil if it has
  none) or the error that a node of the path is missing from the list; nothing else.
\<close>

theorem merkle_proof_sound:
  assumes "distinct_hashes keccak (committed PNil ops)" "trie_run keccak ops start = Some (Inr (t, db))"
    and "content ops \<noteq> (\<lambda>_. None)" "small_content (content ops)"
    and "\<forall>b \<in> set nodes. \<forall>q \<in> set (psubs (tree_of ops)). keccak b = khash keccak q \<longrightarrow> b = penc keccak q"
  shows "\<exists>r. VerifyProof smt (fst (trie_Hash keccak t)) key (NodeSet_Get (NodeList_NodeSet keccak nodes)) = Some r \<and>
    (case r of
       Inr (v, _) \<Rightarrow> v = content ops key
     | Inl (ProofMissing _ h) \<Rightarrow> h \<notin> keccak ` set nodes
     | _ \<Rightarrow> False)"
proof -
  let ?p = "tree_of ops" and ?db = "NodeSet_Get (NodeList_NodeSet keccak nodes)" and ?key = "keybytesToHex key"
  note c = root_hash_of_run [OF assms(1-3)]
  have "\<forall>c \<in> set (ppath ?p ?key). c = ?p \<or> big keccak c \<longrightarrow> ?db (hash_bytes (khash keccak c)) \<in> {None, Some (penc keccak c)}"
  proof (intro ballI impI)
    fix q
    assume "q \<in> set (ppath ?p ?key)"
    then have q: "q \<in> set (psubs ?p)" using ppath_canon [OF c(1) term_keybytes] by blast
    show "?db (hash_bytes (khash keccak q)) \<in> {None, Some (penc keccak q)}"
      using NodeSet_Get_list [of keccak nodes "hash_bytes (khash keccak q)"] assms(5) q
      by (cases "?db (hash_bytes (khash keccak q))") auto
  qed
  from verify_loop_verdict [OF c(1) bounded_tree [OF assms(4)] term_keybytes this] obtain r where
    r: "verify_loop ?db (khash keccak ?p) ?key 0 = Some r" "verdict keccak ?db ?p ?key r" by blast
  have "plookup ?p ?key = content ops key" using tree_of_ok(2) [of ops] by (metis pcontent_def)
  with r(2) have "case r of Inr (v, _) \<Rightarrow> v = content ops key | Inl (ProofMissing _ h) \<Rightarrow> h \<notin> keccak ` set nodes | _ \<Rightarrow> False"
    by (auto simp: verdict_def split: sum.splits proof_error.splits dest: NodeSet_Get_None)
  with r(1) c(2) show ?thesis by (auto simp: VerifyProof_NodeSet)
qed

theorem merkle_proof_sound_witness:
  "\<exists>t db r. trie_run one_hash sample start = Some (Inr (t, db)) \<and>
    VerifyProof (\<lambda>_ _ _. Inl ProofPanic) (fst (trie_Hash one_hash t)) [0x12] (NodeSet_Get (NodeList_NodeSet one_hash [penc one_hash sample_leaf])) = Some r \<and>
    (case r of
       Inr (v, _) \<Rightarrow> v = content sample [0x12]
     | Inl (ProofMissing _ h) \<Rightarrow> h \<notin> one_hash ` set [penc one_hash sample_leaf]
     | _ \<Rightarrow> False)"
proof -
  obtain t db where r: "trie_run one_hash sample start = Some (Inr (t, db))" using sample_runs(3) by blast
  have s: "small_content (content sample)" unfolding sample_content(1) by (rule sample_content(3))
  have "\<forall>b \<in> set [penc one_hash sample_leaf]. \<forall>q \<in> set (psubs (tree_of sample)). one_hash b = khash one_hash q \<longrightarrow> b = penc one_hash q"
    by (simp add: sample_committed)
  from merkle_proof_sound [OF sample_runs(1) r sample_content(4) s this, of "\<lambda>_ _ _. Inl ProofPanic" "[0x12]"] r show ?thesis by blast
qed



subsection \<open>Untrusted nodes\<close>

definition is_value :: "node \<Rightarrow> bool" where
  "is_value n = (case n of ValueNode _ \<Rightarrow> True | _ \<Rightarrow> False)"

fun wf_node :: "node \<Rightarrow> bool" where
  "wf_node NilNode = True"
| "wf_node (ValueNode v) = True"
| "wf_node (HashNode h) = (length h = 32)"
| "wf_node (ShortNode k c fl) = (if is_value c then term_key k else nibbles k \<and> wf_node c)"
| "wf_node (FullNode cs fl) =
     (length cs = 17 \<and> (\<forall>c \<in> set (take 16 cs). wf_node c \<and> \<not> is_value c) \<and> (cs ! 16 = NilNode \<or> is_value (cs ! 16)))"

lemma compactToHex_wf:
  assumes "compactToHex b = Some k"
  shows "if hasTerm k then term_key k else nibbles k"
proof (cases b)
  case Nil
  with assms show ?thesis by (simp add: compactToHex_def keybytesToHex_eq)
next
  case (Cons x xs)
  define ns where "ns = to_nibbles b"
  have ns: "nibbles ns" "2 \<le> length ns" unfolding ns_def by (rule nibbles_to_nibbles) (simp add: Cons)
  let ?chop = "unat (2 - (ns ! 0 AND 1))"
  have h: "(ns @ [16]) ! 0 = ns ! 0" using ns(2) by (auto simp: nth_append)
  have "ns ! 0 AND 1 \<le> 1" by (rule word_and_le1)
  then have c: "?chop \<le> 2" by (simp add: unat_sub word_le_nat_alt)
  show ?thesis
  proof (cases "ns ! 0 < 2")
    case True
    with assms have "k = drop ?chop ns"
      unfolding compactToHex_def keybytesToHex_eq ns_def [symmetric] h Let_def by (auto split: if_splits)
    then show ?thesis using nibbles_take_drop(2) [OF ns(1)] hasTerm_nibbles by auto
  next
    case False
    with assms have "k = drop ?chop ns @ [16]"
      using c ns(2) unfolding compactToHex_def keybytesToHex_eq ns_def [symmetric] h Let_def by (auto split: if_splits)
    then have "term_key k" using nibbles_take_drop(2) [OF ns(1)] by (auto simp: term_key_iff)
    then show ?thesis using hasTerm_term by simp
  qed
qed

lemma decodeRef_wf:
  assumes "decodeRef dec buf = Inr (n, rest)" "\<And>m. dec buf = Inr m \<Longrightarrow> wf_node m \<and> inner_node m"
  shows "wf_node n \<and> \<not> is_value n"
proof -
  from assms(1) have "dec buf = Inr n \<or> n = NilNode \<or> (\<exists>h. n = HashNode h \<and> length h = 32)"
    by (auto simp: decodeRef_def Let_def split: sum.splits if_splits)
  moreover have "wf_node n \<and> \<not> is_value n" if "dec buf = Inr n"
    using assms(2) [OF that] by (cases n) (simp_all add: inner_node_def is_value_def)
  ultimately show ?thesis by (auto simp: is_value_def)
qed

lemma decodeChildren_wf:
  assumes "decodeChildren dec k buf = Inr (cs, rest)" "\<And>b m. length b \<le> length buf \<Longrightarrow> dec b = Inr m \<Longrightarrow> wf_node m \<and> inner_node m"
  shows "length cs = k \<and> (\<forall>c \<in> set cs. wf_node c \<and> \<not> is_value c)"
  using assms
proof (induction k arbitrary: buf cs)
  case (Suc k)
  from Suc.prems(1) obtain c r cs' where c: "decodeRef dec buf = Inr (c, r)" "decodeChildren dec k r = Inr (cs', rest)" "cs = c # cs'"
    by (auto split: sum.splits)
  have "length r < length buf" by (rule decodeRef_rest [OF c(1)])
  then have "wf_node m \<and> inner_node m" if "length b \<le> length r" "dec b = Inr m" for b m
    using Suc.prems(2) [OF _ that(2)] that(1) by simp
  from Suc.IH [OF c(2) this] decodeRef_wf [OF c(1) Suc.prems(2) [OF order_refl]] c(3) show ?case by simp
qed simp

lemma decodeShort_wf:
  assumes "decodeShort dec h elems gen = Inr n" "\<And>b m. length b \<le> length elems \<Longrightarrow> dec b = Inr m \<Longrightarrow> wf_node m \<and> inner_node m"
  shows "wf_node n \<and> inner_node n"
proof -
  from assms(1) obtain kbuf rest k where k: "SplitString elems = Inr (kbuf, rest)" "compactToHex kbuf = Some k"
    and n: "hasTerm k \<and> (\<exists>v fl. n = ShortNode k (ValueNode v) fl) \<or> \<not> hasTerm k \<and> (\<exists>r s fl. decodeRef dec rest = Inr (r, s) \<and> n = ShortNode k r fl)"
    by (auto simp: decodeShort_def Let_def split: sum.splits option.splits if_splits)
  have "length rest < length elems" by (rule SplitString_rest [OF k(1)])
  then have "\<And>r s. decodeRef dec rest = Inr (r, s) \<Longrightarrow> wf_node r \<and> \<not> is_value r" using decodeRef_wf assms(2) by (meson less_imp_le)
  with n compactToHex_wf [OF k(2)] show ?thesis by (auto simp: inner_node_def is_value_def)
qed

lemma decodeFull_wf:
  assumes "decodeFull dec h elems gen = Inr n" "\<And>b m. length b \<le> length elems \<Longrightarrow> dec b = Inr m \<Longrightarrow> wf_node m \<and> inner_node m"
  shows "wf_node n \<and> inner_node n"
proof -
  from assms(1) obtain cs rest v fl where c: "decodeChildren dec 16 elems = Inr (cs, rest)"
    and n: "n = FullNode (cs @ [v]) fl" "v = NilNode \<or> is_value v"
    by (auto simp: decodeFull_def is_value_def split: sum.splits if_splits)
  from decodeChildren_wf [OF c assms(2)] n show ?thesis by (auto simp: inner_node_def nth_append)
qed

lemma decodeNode_wf: "decodeNode h buf gen = Inr n \<Longrightarrow> wf_node n \<and> inner_node n"
proof (induction "length buf" arbitrary: h buf n rule: less_induct)
  case less
  from less.prems obtain elems rest where e: "SplitList buf = Inr (elems, rest)"
    and d: "decodeShort (\<lambda>b. decodeNode None b gen) h elems gen = Inr n \<or> decodeFull (\<lambda>b. decodeNode None b gen) h elems gen = Inr n"
    by (subst (asm) decodeNode.simps) (auto simp: Let_def split: sum.splits if_splits)
  have ih: "wf_node m \<and> inner_node m" if "length b \<le> length elems" "decodeNode None b gen = Inr m" for b m
    using less.hyps [OF _ that(2)] SplitList_rest [OF e] that(1) by simp
  from d show ?case
  proof
    assume "decodeShort (\<lambda>b. decodeNode None b gen) h elems gen = Inr n"
    from decodeShort_wf [OF this ih] show ?case .
  next
    assume "decodeFull (\<lambda>b. decodeNode None b gen) h elems gen = Inr n"
    from decodeFull_wf [OF this ih] show ?case .
  qed
qed

lemma empty_key_node: "decodeNode h [0xC2, 0x80, 0x80] gen = Inl NodePanic"
proof -
  have "SplitList [0xC2, 0x80, 0x80] = Inr ([0x80, 0x80], [])" "CountValues [0x80, 0x80] = Inr 2" "SplitString [0x80, 0x80] = Inr ([], [0x80])"
    "compactToHex [] = None"
    by code_simp+
  then show ?thesis by (subst decodeNode.simps) (simp add: decodeShort_def wrapError_def)
qed

text \<open>
  C22: The node decoder is type safe.  Whatever bytes it is given, a node it returns is well formed: a full node has 17 children of
  which only the last may be a value, a hash has 32 bytes, and the key of a short node is a sequence of
  nibbles that ends in the terminator exactly when the child is a value, at every level of embedding.
\<close>

theorem decodeNode_well_formed: "decodeNode h buf gen = Inr n \<Longrightarrow> wf_node n \<and> inner_node n"
  by (rule decodeNode_wf)

theorem decodeNode_well_formed_witness:
  "decodeNode None [0xC3, 0x20, 0x81, 0x90] 0 = Inr (ShortNode [16] (ValueNode [0x90]) \<lparr>fl_hash = None, fl_gen = 0, fl_dirty = False\<rparr>) \<and>
   wf_node (ShortNode [16] (ValueNode [0x90]) \<lparr>fl_hash = None, fl_gen = 0, fl_dirty = False\<rparr>)"
proof -
  have "decodeNode None [0xC3, 0x20, 0x81, 0x90] 0 = Inr (ShortNode [16] (ValueNode [0x90]) \<lparr>fl_hash = None, fl_gen = 0, fl_dirty = False\<rparr>)"
    by code_simp
  from this decodeNode_well_formed [OF this] show ?thesis by blast
qed

lemma proof_get_wf:
  "wf_node n \<Longrightarrow> \<not> is_value n \<Longrightarrow> term_key key \<Longrightarrow>
    \<exists>rest m. proof_get n key = Some (rest, m) \<and> (m = NilNode \<or> is_value m \<or> (\<exists>h. m = HashNode h \<and> length h = 32 \<and> term_key rest))"
proof (induction n key rule: proof_get.induct)
  case (1 k c fl key)
  show ?case
  proof (cases "strip k key")
    case None
    then have "length key < length k \<or> k \<noteq> take (length k) key" by (simp only: strip_mismatch)
    then show ?thesis by auto
  next
    case (Some r)
    then have k: "key = k @ r" by simp
    show ?thesis
    proof (cases "is_value c")
      case True
      then show ?thesis using k by (cases c) (auto simp: is_value_def)
    next
      case False
      with 1(2) have "nibbles k" "wf_node c" by simp_all
      moreover then have "term_key r" using 1(4) term_append_cases [of k r] not_term_nibbles [of k] unfolding k by auto
      ultimately show ?thesis using 1(1) False k by simp
    qed
  qed
next
  case (3 cs fl i key)
  have l: "length cs = 17" using 3(2) by simp
  show ?case
  proof (cases "key = []")
    case True
    then have "i = 16" using 3(4) by (simp add: term_key_Cons)
    with True l 3(2) show ?thesis by (cases "cs ! 16") (auto simp: is_value_def)
  next
    case False
    then have i: "unat i < 16" "term_key key" using 3(4) by (simp_all add: term_key_Cons word_less_nat_alt)
    then have "cs ! unat i \<in> set (take 16 cs)" using nth_mem [of "unat i" "take 16 cs"] l by simp
    with 3(2) have "wf_node (cs ! unat i)" "\<not> is_value (cs ! unat i)" by auto
    with 3(1) i l show ?thesis by simp
  qed
qed (auto simp: is_value_def)

lemma verify_loop_panic:
  assumes "verify_loop proofDb r key i = Some res"
  shows "res = Inl ProofPanic \<longrightarrow> term_key key \<longrightarrow>
    (\<exists>h b. proofDb (hash_bytes h) = Some b \<and> decodeNode (Some (hash_bytes h)) b 0 = Inl NodePanic)"
  using assms
proof (induction rule: verify_loop.raw_induct [rotated 1, consumes 1, case_names step])
  case (step loop proofDb r key i res)
  show ?case
  proof (intro impI)
    assume p: "res = Inl ProofPanic" and t: "term_key key"
    obtain b where b: "proofDb (hash_bytes r) = Some b" using step(2) p by (cases "proofDb (hash_bytes r)") auto
    show "\<exists>h b. proofDb (hash_bytes h) = Some b \<and> decodeNode (Some (hash_bytes h)) b 0 = Inl NodePanic"
    proof (cases "decodeNode (Some (hash_bytes r)) b 0")
      case (Inl e)
      then have "e = NodePanic" using step(2) p b by (auto split: if_splits)
      with Inl b show ?thesis by blast
    next
      case (Inr n)
      then have "wf_node n" "inner_node n" using decodeNode_wf by blast+
      then have "\<not> is_value n" by (cases n) (simp_all add: is_value_def inner_node_def)
      from proof_get_wf [OF \<open>wf_node n\<close> this t] obtain rest m where m: "proof_get n key = Some (rest, m)"
        "m = NilNode \<or> is_value m \<or> (\<exists>h. m = HashNode h \<and> length h = 32 \<and> term_key rest)" by blast
      then obtain h where "m = HashNode h" "term_key rest" using step(2) p b Inr by (cases m) (auto simp: is_value_def)
      with step m(1) p b Inr show ?thesis by auto
    qed
  qed
qed



end
