(* ===== verification/Spec2Isabelle.thy ===== *)
theory Spec2Isabelle
  imports DebClient Trie_Props
begin

text \<open>
  Verification of go-anduschain, a fork of go-ethereum with the proof-of-deb consensus: a trusted
  \<^emph>\<open>fairnode\<close> draws leagues of miners with one-time random numbers (OTPRN), collects the votes of the miners on
  a block, signs the winner and stores it; miners verify that signature when they import the block.

  \<^bold>\<open>Parts and theories.\<close>

  \<^item> \<open>Prelude\<close>: machine integers, big-endian byte strings, results \<open>error + value\<close>, hashes and addresses as words.

  \<^item> RLP (\<^verbatim>\<open>src/rlp\<close>).  \<open>RLP_Encode\<close> has the encoder buffer with its deferred list heads (\<^verbatim>\<open>encbuffer.go\<close>,
    \<^verbatim>\<open>encode.go\<close>) next to the recursive format \<open>encode\<close>; \<open>RLP_Decode\<close> has every method of \<^verbatim>\<open>Stream\<close>, the decoder
    into \<^verbatim>\<open>interface{}\<close> (\<^verbatim>\<open>decode.go\<close>) and the slice functions of \<^verbatim>\<open>raw.go\<close>.  \<open>RLP_Correct\<close> shows that the buffer
    implements the format, the round trip, canonicity, and that the decoder ends on every input.  \<open>RLP_Struct\<close> has the
    contracts of typed decoders, the locales \<open>rlp_codec\<close> and \<open>rlp_fields\<close>, and interprets them on integers, byte
    arrays and slices; the later theories interpret them on the structs of the chain.

  \<^item> Chain data (\<^verbatim>\<open>src/core/types\<close>).  \<open>Chain_Types\<close>: OTPRN, chain rules, headers, votes and their hashes and signatures.
    \<open>Transactions\<close>: the two transaction formats, signers and join transactions.  \<open>Blocks\<close>: blocks on the wire, with
    the locale \<open>rlp_elem\<close> for elements of slices.

  \<^item> Consensus (\<^verbatim>\<open>src/consensus/deb\<close>, \<^verbatim>\<open>src/fairnode/verify\<close>).  \<open>Deb\<close>: difficulty, header verification, the choice between
    blocks, preparation and sealing.  \<open>Verify\<close>: counting votes and drawing miners.  Both choose a best candidate, which the
    locale \<open>comparison\<close> of \<open>Selection\<close> describes.

  \<^item> Fairnode (\<^verbatim>\<open>src/fairnode\<close>).  \<open>Messages\<close>: the requests and replies and the hashes signed over them.  \<open>FairDB\<close>: the memory
    database, an interpretation of \<open>block_store\<close>.  \<open>Fairnode\<close>: one round of each loop of the league manager.
    \<open>FairRpc\<close>: the nine handlers.  \<open>FairSafety\<close>: both together as a transition system, with the invariant of its reachable
    states; \<open>FairProps\<close>: what follows from it.

  \<^item> Miner (\<^verbatim>\<open>src/consensus/deb/client\<close>).  \<open>DebClient\<close>: the requests the miner signs and what it accepts as replies.

  \<^item> State trie (\<^verbatim>\<open>src/trie\<close>, \<^verbatim>\<open>src/light/nodeset.go\<close>).  \<open>Trie_Keys\<close>: the key encodings.  \<open>Trie_Tree\<close>: the abstract tree, its
    insertion and deletion, its canonical form, and that the form is determined by the contents.  \<open>Trie\<close>: lookup,
    insertion and deletion on nodes that are loaded on demand; \<open>Trie_Refine\<close>: that they implement the tree.  \<open>Trie_Node\<close>:
    collapsed nodes and the decoder; \<open>Trie_Stored\<close>: the stored form of a tree and that it decodes to the tree again.
    \<open>Trie_Hash\<close>: the hasher with its caches and unloading against the hash of the tree.  \<open>Trie_DB\<close>: the database of nodes in
    memory, opening and committing tries.  \<open>Trie_Run\<close>: sequences of operations and the locales \<open>map_store\<close> and
    \<open>canonical_store\<close>.  \<open>Trie_Persist\<close>: writing a trie to disk.  \<open>Trie_Proof\<close>: Merkle proofs.  \<open>Trie_Props\<close>: the properties of
    the trie.

  \<^bold>\<open>How the parts interact.\<close>  Everything that is hashed, signed or stored is RLP: the codecs of \<open>RLP_Struct\<close> carry the
  round trips of headers, transactions, blocks and OTPRNs, and the decoder of trie nodes is built on the slice functions of
  \<open>RLP_Decode\<close>.  A miner joins a league with a join transaction (\<open>Transactions\<close>), votes for a block (\<open>DebClient\<close>, \<open>FairRpc\<close>), and the
  leader's loop (\<open>Fairnode\<close>) counts with \<open>Verify\<close> and publishes a hash; the handler \<open>SendBlock\<close> accepts only the block with
  this hash and stores it signed, and \<open>verifyHeader\<close> of \<open>Deb\<close> accepts the signature.

  \<^bold>\<open>State and effects.\<close>  Structs are records, Go maps are association lists or partial functions, a method that changes its
  receiver returns it, an error is \<open>Inl\<close>, a panic is an error of its own (or \<open>None\<close> where the function returns
  no error).  A goroutine is a step function that performs one round; \<open>reachable\<close> interleaves rounds and requests freely.
  Integers have their width where the code can overflow.

  \<^bold>\<open>Parameters.\<close>  Keccak is an arbitrary function; a theorem that needs the absence of collisions states it for the values
  at hand.  Signature recovery and signing, \<^verbatim>\<open>math/rand\<close>, clocks, the order of iteration over a map and the
  root hash of a list of votes are arguments too, with what the code relies on as hypotheses.

  \<^bold>\<open>Fuel and termination.\<close>  The generic RLP decoder has fuel twice the length of the input plus one, which is shown
  to suffice.  The recursion of the trie over nodes from a database, \<^verbatim>\<open>Prove\<close> and \<^verbatim>\<open>VerifyProof\<close> are partial functions, since they
  may not end on a bad database; the properties show that they return.  The write of a trie to disk has fuel,
  and enough of it gives the result.  All other recursion is total.

  \<^bold>\<open>Not modelled.\<close>  Reflection in the RLP package; JSON and database marshalling; rewards (\<^verbatim>\<open>big.Float\<close>); the Mongo
  database; the garbage collector, size limit and preimages of the trie database; the sparse Merkle trie; the
  EVM, state transition, chain reorganisation and transaction pool; networking, wallets and command line tools.  They are
  I/O, separate subsystems, or code that the parts above only call through the parameters.
\<close>

end
